(* ===== verification/Prelude.thy ===== *)
theory Prelude
  imports Main "HOL-Library.Word"
begin

text \<open>
  Shared vocabulary of the development: the machine integer types of the C++ code, the
  outcomes a call can have besides returning, byte arrays that are written at an offset,
  and the generic list and word lemmas that several components use.
\<close>

unbundle bit_operations_syntax

section \<open>Machine types\<close>

type_synonym byte = "8 word"
type_synonym u16 = "16 word"
type_synonym u32 = "32 word"
type_synonym u64 = "64 word"

text \<open>\<open>size_t\<close> counters are kept at their width; an \<open>int\<close> that meets a \<open>size_t\<close> in a comparison
  is converted to it, as the usual arithmetic conversions do.\<close>

type_synonym size_t = "64 word"

definition int_to_size :: "int \<Rightarrow> nat" where
  "int_to_size x = nat (x mod 2 ^ 64)"

section \<open>Outcomes of a call\<close>

text \<open>
  Besides returning, a call can end the process (\<open>exit\<close>), wait for ever on a mutex nobody
  releases, perform a memory access the language leaves undefined, or still be waiting for the
  operating system to answer. Each is a value, so that no branch of the source is lost.
\<close>

datatype fault = ProcExit int | Deadlock | BadAccess | Waiting

definition bindE :: "'e + 'a \<Rightarrow> ('a \<Rightarrow> 'e + 'b) \<Rightarrow> 'e + 'b" where
  "bindE m f = (case m of Inl e \<Rightarrow> Inl e | Inr x \<Rightarrow> f x)"

lemma bindE_simps [simp]:
  "bindE (Inl e) f = Inl e"
  "bindE (Inr x) f = f x"
  by (simp_all add: bindE_def)

lemma bindE_Inr_iff: "bindE m f = Inr y \<longleftrightarrow> (\<exists>x. m = Inr x \<and> f x = Inr y)"
  by (cases m) simp_all

lemma bindE_InrE:
  assumes "bindE m f = Inr y"
  obtains x where "m = Inr x" "f x = Inr y"
  using assms by (auto simp: bindE_Inr_iff)

section \<open>Threads\<close>

text \<open>The part \<open>CSocket::ThreadItem\<close> and \<open>CThreadPool::ThreadItem\<close> have in common, without the thread
  handle, and how a round of a thread's loop ends: the thread leaves the loop, goes on, or waits to
  be woken.\<close>

record thread_item =
  running :: bool
  ifshutdown :: bool

datatype ('t, 's) thread_next = Leave 't 's | Go 't 's | Park 't 's

section \<open>Collections of facts\<close>

named_theorems frame_simps "fields an operation leaves unchanged"
named_theorems inv_intros "operations that keep a component's invariant"

section \<open>Byte arrays\<close>

text \<open>Writing the bytes \<open>ys\<close> at offset \<open>off\<close> of the array \<open>xs\<close> (\<open>memcpy\<close>, \<open>recv\<close>).\<close>

definition write_at :: "'a list \<Rightarrow> nat \<Rightarrow> 'a list \<Rightarrow> 'a list" where
  "write_at xs off ys = take off xs @ ys @ drop (off + length ys) xs"

lemma length_write_at [simp]:
  "off + length ys \<le> length xs \<Longrightarrow> length (write_at xs off ys) = length xs"
  by (simp add: write_at_def)

lemma take_write_at [simp]:
  "off + length ys \<le> length xs \<Longrightarrow> take (off + length ys) (write_at xs off ys) = take off xs @ ys"
  by (simp add: write_at_def)

lemma take_write_at_below [simp]:
  "n \<le> off \<Longrightarrow> off \<le> length xs \<Longrightarrow> take n (write_at xs off ys) = take n xs"
  by (simp add: write_at_def min_def)

lemma drop_write_at [simp]:
  "off + length ys \<le> length xs \<Longrightarrow> drop (off + length ys) (write_at xs off ys) = drop (off + length ys) xs"
  by (simp add: write_at_def)

lemma drop_Cons_replicate [simp]: "drop k (x # replicate k x) = [x]"
proof -
  have "drop k (replicate (Suc k) x) = [x]"
    by (simp only: drop_replicate Suc_diff_le diff_self_eq_0 le_refl) simp
  then show ?thesis by simp
qed

lemma write_at_Nil [simp]: "write_at xs off [] = xs"
  by (simp add: write_at_def)

section \<open>Little-endian stores and loads\<close>

text \<open>The host is little-endian (x86-64): a word of \<open>n\<close> bytes is stored low byte first.\<close>

definition st_le :: "nat \<Rightarrow> 'a::len word \<Rightarrow> byte list" where
  "st_le n w = map (\<lambda>i. ucast (drop_bit (8 * i) w)) [0..<n]"

fun ld_le :: "byte list \<Rightarrow> 'a::len word" where
  "ld_le [] = 0"
| "ld_le (b # bs) = ucast b OR push_bit 8 (ld_le bs)"

lemma length_st_le [simp]: "length (st_le n w) = n"
  by (simp add: st_le_def)

lemma bit_ld_le:
  "bit (ld_le bs :: 'a::len word) k \<longleftrightarrow>
     k < LENGTH('a) \<and> k div 8 < length bs \<and> bit (bs ! (k div 8)) (k mod 8)"
proof (induction bs arbitrary: k)
  case Nil
  then show ?case by simp
next
  case (Cons b bs)
  show ?case
  proof (cases "k < 8")
    case True
    then show ?thesis by (auto simp: bit_simps)
  next
    case False
    then have b: "\<not> bit b k"
      by (auto simp: bit_simps dest: bit_imp_le_length)
    from False obtain j where j: "k = j + 8"
      by (metis add.commute le_add_diff_inverse not_less)
    have d: "(j + 8) div 8 = Suc (j div 8)" by simp
    show ?thesis
      using b j by (auto simp: bit_simps Cons.IH d)
  qed
qed

lemma ld_le_st_le:
  assumes "LENGTH('a) \<le> 8 * n"
  shows "ld_le (st_le n (w :: 'a::len word)) = w"
proof (rule bit_eqI)
  fix k
  assume k: "possible_bit TYPE('a word) k"
  then have "k < LENGTH('a)" by (simp add: possible_bit_word)
  with assms have "k div 8 < n" by auto
  with \<open>k < LENGTH('a)\<close> show "bit (ld_le (st_le n w) :: 'a word) k = bit w k"
    by (simp add: bit_ld_le st_le_def bit_simps)
qed

lemma ld_le_inject:
  assumes len: "length xs = length ys" "8 * length xs \<le> LENGTH('a)"
    and eq: "(ld_le xs :: 'a::len word) = ld_le ys"
  shows "xs = ys"
proof (rule nth_equalityI)
  show "length xs = length ys" by fact
  fix i
  assume i: "i < length xs"
  show "xs ! i = ys ! i"
  proof (rule bit_eqI)
    fix k
    assume "possible_bit TYPE(8 word) k"
    then have k: "k < 8" by (simp add: possible_bit_word)
    have "bit (ld_le xs :: 'a word) (8 * i + k) = bit (ld_le ys :: 'a word) (8 * i + k)"
      by (simp add: eq)
    with i k len show "bit (xs ! i) k = bit (ys ! i) k"
      by (simp add: bit_ld_le)
  qed
qed

lemma unat_less_bits:
  assumes "\<And>k. bit w k \<Longrightarrow> k < n"
  shows "unat (w :: 'a::len word) < 2 ^ n"
proof -
  have "take_bit n w = w"
    by (rule bit_eqI) (use assms in \<open>auto simp only: bit_take_bit_iff\<close>)
  then have "take_bit n (unat w) = unat w"
    by (metis unsigned_take_bit_eq)
  then show ?thesis by (metis take_bit_nat_less_exp)
qed

lemma st_le_ld_le:
  assumes "length bs = n" "8 * n \<le> LENGTH('a)"
  shows "st_le n (ld_le bs :: 'a::len word) = bs"
proof (rule nth_equalityI)
  show "length (st_le n (ld_le bs :: 'a word)) = length bs" using assms by simp
  fix i
  assume "i < length (st_le n (ld_le bs :: 'a word))"
  then have i: "i < n" by simp
  show "st_le n (ld_le bs :: 'a word) ! i = bs ! i"
  proof (rule bit_eqI)
    fix k
    assume "possible_bit TYPE(8 word) k"
    then have "k < 8" by (simp add: possible_bit_word)
    with i assms show "bit (st_le n (ld_le bs :: 'a word) ! i) k = bit (bs ! i) k"
      by (simp add: st_le_def bit_simps bit_ld_le)
  qed
qed

lemma ld_le_append_ge:
  "8 * length xs \<ge> LENGTH('a) \<Longrightarrow> (ld_le (xs @ ys) :: 'a::len word) = ld_le xs"
  by (rule bit_eqI) (auto simp: bit_ld_le nth_append possible_bit_word)

lemma bit_less_unat:
  assumes "unat (w :: 'a::len word) < 2 ^ n" "bit w k"
  shows "k < n"
proof -
  have "unat (take_bit n w) = unat w"
    using assms(1) by (simp add: unsigned_take_bit_eq take_bit_nat_eq_self)
  then have "take_bit n w = w" by (rule unsigned_word_eqI)
  with assms(2) show ?thesis by (metis bit_take_bit_iff)
qed

section \<open>Reachable states\<close>

text \<open>The states a machine reaches from an initial one, and the interface its invariants share: a
  property that holds initially and survives every step holds in every reachable state.\<close>

inductive reach :: "('s \<Rightarrow> bool) \<Rightarrow> ('s \<Rightarrow> 's \<Rightarrow> bool) \<Rightarrow> 's \<Rightarrow> bool"
  for init step where
  reach_init: "init s \<Longrightarrow> reach init step s"
| reach_step: "reach init step s \<Longrightarrow> step s t \<Longrightarrow> reach init step t"

locale invariant_of =
  fixes init :: "'s \<Rightarrow> bool"
    and step :: "'s \<Rightarrow> 's \<Rightarrow> bool"
    and inv :: "'s \<Rightarrow> bool"
  assumes inv_init: "init s \<Longrightarrow> inv s"
    and inv_step: "inv s \<Longrightarrow> step s t \<Longrightarrow> inv t"
begin

lemma reach_inv: "reach init step s \<Longrightarrow> inv s"
  by (induction rule: reach.induct) (blast intro: inv_init inv_step)+

lemma reach_from_inv: "reach (\<lambda>x. x = s) step t \<Longrightarrow> inv s \<Longrightarrow> inv t"
  by (induction rule: reach.induct) (blast intro: inv_step)+

end

end
