(* ===== verification/Interfaces.thy ===== *)
theory Interfaces
  imports Prelude
begin

text \<open>
  The contracts between components: the checksum the message dispatcher relies on, the tokens that
  protect a consumer from a connection object that has been reused, and the first-in first-out
  queues. Each is interpreted on the model's own operations in the theory that provides it.
\<close>

section \<open>Checksums\<close>

locale checksum =
  fixes sum :: "byte list \<Rightarrow> 'w"
  assumes burst: "length w = length w' \<Longrightarrow> length w \<le> 4 \<Longrightarrow> w \<noteq> w' \<Longrightarrow>
    sum (pre @ w @ post) \<noteq> sum (pre @ w' @ post)"
begin

lemma tampered:
  "sum (pre @ w @ post) = field \<Longrightarrow> length w = length w' \<Longrightarrow> length w \<le> 4 \<Longrightarrow> w \<noteq> w' \<Longrightarrow>
   sum (pre @ w' @ post) \<noteq> field"
  using burst by metis

lemma changed_byte:
  assumes "i < length bs" "bs ! i \<noteq> b"
  shows "sum (bs[i := b]) \<noteq> sum bs"
proof -
  have bs: "bs = take i bs @ [bs ! i] @ drop (Suc i) bs"
    using assms(1) by (simp add: id_take_nth_drop [symmetric])
  have upd: "bs[i := b] = take i bs @ [b] @ drop (Suc i) bs"
    using assms(1) by (simp add: upd_conv_take_nth_drop)
  have "sum (take i bs @ [bs ! i] @ drop (Suc i) bs) \<noteq> sum (take i bs @ [b] @ drop (Suc i) bs)"
    by (rule burst) (use assms(2) in simp_all)
  then show ?thesis using bs upd by metis
qed

end

section \<open>Tokens\<close>

text \<open>A token names one life of a reusable object. The object counts its lives; it accepts a token
  only in the life the token was issued in, and never while it is closed.\<close>

locale expiring_token =
  fixes accepts :: "'c \<Rightarrow> u64 \<Rightarrow> bool"
    and life :: "'c \<Rightarrow> u64"
    and closed :: "'c \<Rightarrow> bool"
    and issuable :: "u64 \<Rightarrow> bool"
  assumes closed_rejects: "closed c \<Longrightarrow> \<not> accepts c t"
    and accepts_life: "issuable t \<Longrightarrow> accepts c t \<Longrightarrow> life c = t"
begin

lemma stale_rejected: "issuable t \<Longrightarrow> life c \<noteq> t \<Longrightarrow> \<not> accepts c t"
  using accepts_life by blast

lemma two_tokens: "issuable t \<Longrightarrow> issuable t' \<Longrightarrow> accepts c t \<Longrightarrow> accepts c t' \<Longrightarrow> t = t'"
  using accepts_life by blast

text \<open>After some further lives, fewer than the counter has values, an old token is dead.\<close>

lemma reused_rejected:
  assumes "issuable t" "life c' = t + of_nat n" "0 < n" "n < 2 ^ 64"
  shows "\<not> accepts c' t"
proof (rule stale_rejected [OF assms(1)])
  have "(of_nat n :: u64) \<noteq> 0"
    using assms(3,4) by (auto simp: word_of_nat_eq_0_iff dest: dvd_imp_le)
  then show "life c' \<noteq> t" by (simp add: assms(2))
qed

end

section \<open>Queues\<close>

locale fifo_queue =
  fixes enq :: "'x \<Rightarrow> 'q \<Rightarrow> 'q"
    and deq :: "'q \<Rightarrow> 'x \<times> 'q"
    and items :: "'q \<Rightarrow> 'x list"
    and inv :: "'q \<Rightarrow> bool"
  assumes items_enq: "inv q \<Longrightarrow> items (enq x q) = items q @ [x]"
    and inv_enq: "inv q \<Longrightarrow> inv (enq x q)"
    and items_deq: "inv q \<Longrightarrow> items q = x # xs \<Longrightarrow> fst (deq q) = x \<and> items (snd (deq q)) = xs"
    and inv_deq: "inv q \<Longrightarrow> items q \<noteq> [] \<Longrightarrow> inv (snd (deq q))"
begin

lemma items_enqs: "inv q \<Longrightarrow> items (fold enq xs q) = items q @ xs \<and> inv (fold enq xs q)"
  by (induction xs arbitrary: q) (simp_all add: items_enq inv_enq)

lemma deq_after_enqs:
  assumes "inv q" "items q = []" "xs \<noteq> []"
  shows "fst (deq (fold enq xs q)) = hd xs \<and> items (snd (deq (fold enq xs q))) = tl xs"
  using items_enqs [OF assms(1), of xs] items_deq [of "fold enq xs q" "hd xs" "tl xs"] assms by simp

text \<open>What is put in comes out, in the same order, also when the queue was not empty before.\<close>

primrec deqs :: "nat \<Rightarrow> 'q \<Rightarrow> 'x list \<times> 'q" where
  "deqs 0 q = ([], q)"
| "deqs (Suc n) q = (fst (deq q) # fst (deqs n (snd (deq q))), snd (deqs n (snd (deq q))))"

lemma deqs_items:
  "inv q \<Longrightarrow> n \<le> length (items q) \<Longrightarrow>
   fst (deqs n q) = take n (items q) \<and> items (snd (deqs n q)) = drop n (items q) \<and> inv (snd (deqs n q))"
proof (induction n arbitrary: q)
  case 0
  then show ?case by simp
next
  case (Suc n)
  then obtain x xs where q: "items q = x # xs" by (cases "items q") auto
  with Suc.prems items_deq [OF Suc.prems(1) q] inv_deq [OF Suc.prems(1)]
    Suc.IH [of "snd (deq q)"] show ?case by simp
qed

lemma fifo_order:
  assumes "inv q"
  shows "fst (deqs (length (items q) + length xs) (fold enq xs q)) = items q @ xs"
  using deqs_items [of "fold enq xs q" "length (items q) + length xs"] items_enqs [OF assms, of xs]
  by simp

end

end
