(* ===== verification/Wire.thy ===== *)
theory Wire
  imports Interfaces
begin

text \<open>
  The packed structures of \<open>_include/comm.h\<close> as they lie in memory: the message header the
  server puts in front of a packet, the packet header of the protocol, the lengths of the
  bodies, and the byte order conversions. The host is little-endian with 64-bit pointers.
\<close>

section \<open>Lengths and limits\<close>

definition PKG_MAX_LENGTH :: nat where
  "PKG_MAX_LENGTH = 30000"

definition MSG_HEADER_LEN :: nat where
  "MSG_HEADER_LEN = 8 + 8"

definition PKG_HEADER_LEN :: nat where
  "PKG_HEADER_LEN = 2 + 2 + 4"

definition LEN_STRUCT_REGISTER :: nat where
  "LEN_STRUCT_REGISTER = 4 + 56 + 40"

definition LEN_STRUCT_LOGIN :: nat where
  "LEN_STRUCT_LOGIN = 56 + 40"

definition LEN_STRUCT_PING :: nat where
  "LEN_STRUCT_PING = 0"

lemmas len_defs = PKG_MAX_LENGTH_def MSG_HEADER_LEN_def PKG_HEADER_LEN_def
  LEN_STRUCT_REGISTER_def LEN_STRUCT_LOGIN_def LEN_STRUCT_PING_def

section \<open>Byte order\<close>

text \<open>\<open>htons\<close> and \<open>ntohs\<close> (\<open>htonl\<close>, \<open>ntohl\<close>) are the same byte swap on this host.\<close>

definition ntohs :: "u16 \<Rightarrow> u16" where
  "ntohs w = ld_le (rev (st_le 2 w))"

definition ntohl :: "u32 \<Rightarrow> u32" where
  "ntohl w = ld_le (rev (st_le 4 w))"

abbreviation (input) htons :: "u16 \<Rightarrow> u16" where "htons \<equiv> ntohs"
abbreviation (input) htonl :: "u32 \<Rightarrow> u32" where "htonl \<equiv> ntohl"

lemma ntohs_htons [simp]: "ntohs (htons w) = w"
  by (simp add: ntohs_def st_le_ld_le ld_le_st_le)

lemma ntohl_htonl [simp]: "ntohl (htonl w) = w"
  by (simp add: ntohl_def st_le_ld_le ld_le_st_le)

lemma ntohl_0 [simp]: "ntohl 0 = 0"
  by (simp add: ntohl_def st_le_def upt_conv_Cons)

lemma ntohl_eq_0_iff [simp]: "ntohl w = 0 \<longleftrightarrow> w = 0"
  by (metis ntohl_htonl ntohl_0)

lemma unat_of_nat_small [simp]: "n < 2 ^ 16 \<Longrightarrow> unat (of_nat n :: u16) = n"
  by (simp add: unsigned_of_nat take_bit_nat_eq_self)

section \<open>The message header and the packet header\<close>

type_synonym addr = u64

record msg_header =
  lp_curconn :: addr
  msg_cursequence :: u64

record pkg_header =
  pkgLen :: u16
  msgCode :: u16
  crc32 :: u32

text \<open>\<open>memcpy\<close> of a packed structure into a byte array, and a cast of the array back to it.\<close>

definition enc_msg_header :: "msg_header \<Rightarrow> byte list" where
  "enc_msg_header h = st_le 8 (lp_curconn h) @ st_le 8 (msg_cursequence h)"

definition dec_msg_header :: "byte list \<Rightarrow> msg_header" where
  "dec_msg_header bs = \<lparr>lp_curconn = ld_le (take 8 bs), msg_cursequence = ld_le (take 8 (drop 8 bs))\<rparr>"

definition enc_pkg_header :: "pkg_header \<Rightarrow> byte list" where
  "enc_pkg_header h = st_le 2 (pkgLen h) @ st_le 2 (msgCode h) @ st_le 4 (crc32 h)"

definition dec_pkg_header :: "byte list \<Rightarrow> pkg_header" where
  "dec_pkg_header bs = \<lparr>pkgLen = ld_le (take 2 bs), msgCode = ld_le (take 2 (drop 2 bs)),
     crc32 = ld_le (take 4 (drop 4 bs))\<rparr>"

lemma length_enc_msg_header [simp]: "length (enc_msg_header h) = MSG_HEADER_LEN"
  by (simp add: enc_msg_header_def MSG_HEADER_LEN_def)

lemma length_enc_pkg_header [simp]: "length (enc_pkg_header h) = PKG_HEADER_LEN"
  by (simp add: enc_pkg_header_def PKG_HEADER_LEN_def)

lemma dec_enc_msg_header [simp]: "dec_msg_header (enc_msg_header h @ bs) = h"
  by (simp add: dec_msg_header_def enc_msg_header_def ld_le_st_le)

lemma dec_enc_pkg_header [simp]: "dec_pkg_header (enc_pkg_header h @ bs) = h"
  by (simp add: dec_pkg_header_def enc_pkg_header_def ld_le_st_le)

lemma dec_pkg_header_append [simp]:
  "length h = PKG_HEADER_LEN \<Longrightarrow> dec_pkg_header (h @ bs) = dec_pkg_header h"
  by (simp add: dec_pkg_header_def PKG_HEADER_LEN_def)

lemma enc_dec_pkg_header:
  assumes "length bs = PKG_HEADER_LEN"
  shows "enc_pkg_header (dec_pkg_header bs) = bs"
proof -
  have "take 2 bs @ take 2 (drop 2 bs) @ take 4 (drop 4 bs) = bs"
  proof -
    have "take 2 (drop 2 bs) @ take 4 (drop 4 bs) = drop 2 bs"
      using assms by (metis append_take_drop_id drop_drop numeral_Bit0 length_drop take_all_iff
          PKG_HEADER_LEN_def add_diff_cancel_left' order_refl add.commute)
    then show ?thesis by simp
  qed
  with assms show ?thesis
    by (simp add: enc_pkg_header_def dec_pkg_header_def st_le_ld_le PKG_HEADER_LEN_def)
qed

end
