(* ===== verification/Connection.thy ===== *)
theory Connection
  imports Wire
begin

text \<open>
  The connection object of \<open>_include/comm.h\<close> (\<open>connection_s\<close>) with its methods from
  \<open>net/socket_conn.cxx\<close>, and the expiry check \<open>JudgeOutdate\<close> every consumer of a message runs
  before it touches the connection.
\<close>

section \<open>Data\<close>

text \<open>The receive states (\<open>curstat\<close>).\<close>

abbreviation (input) PKG_HD_INIT :: byte where "PKG_HD_INIT \<equiv> 0"
abbreviation (input) PKG_HD_RECVING :: byte where "PKG_HD_RECVING \<equiv> 1"
abbreviation (input) PKG_BD_INIT :: byte where "PKG_BD_INIT \<equiv> 2"
abbreviation (input) PKG_BD_RECVING :: byte where "PKG_BD_RECVING \<equiv> 3"

text \<open>The values an \<open>lp_event_handler\<close> takes.\<close>

datatype handler = event_accept_handler | event_readable_request_handler | event_writable_request_handler

text \<open>
  \<open>p_headerinfo\<close> points at an 8 byte block of \<open>AllocMemory\<close>; \<open>p_msgrecv\<close> owns the array of the
  message under construction (its \<open>shared_ptr\<close> is the only owner until the message is queued).
  \<open>p_recvbuf\<close> is a raw pointer into one of the two, at an offset; it can outlive the block.
  \<open>recv_str\<close> and \<open>send_str\<close> only say whether the raw alias of the owner is set.
\<close>

datatype hdr_ptr = HdrNull | HdrLive "byte list" | HdrFreed

datatype buf_ptr = BufNull | InHeader nat | InMsg nat

record connection =
  fd :: int
  s_sockaddr :: "byte list"
  rhandler :: handler
  whandler :: handler
  sequence :: u64
  events :: u32
  curstat :: byte
  p_headerinfo :: hdr_ptr
  p_msgrecv :: "byte list option"
  recv_str :: bool
  p_recvbuf :: buf_ptr
  recvlen :: nat
  recvlen_already :: nat
  p_msgsend :: "byte list option"
  send_str :: bool
  iThrowsendCount :: int
  p_sendbuf :: "nat option"
  sendlen :: nat
  sendlen_suppose :: nat
  sendlen_already :: nat
  isend_count :: int
  p_listenitem :: "nat option"
  inrevy_time :: int
  inrecyList :: int
  ping_update_time :: int
  istimeout :: bool

section \<open>Methods\<close>

text \<open>\<open>new connection_t(fd0)\<close>: the constructor sets the descriptor and the sequence, the smart
  pointers start empty, everything else is what the allocator left there (\<open>junk\<close>).\<close>

definition connection_new :: "connection \<Rightarrow> int \<Rightarrow> connection" where
  "connection_new junk fd0 = junk\<lparr>fd := fd0, sequence := 0, p_msgrecv := None, p_msgsend := None\<rparr>"

definition PutToStateMach :: "connection \<Rightarrow> connection" where
  "PutToStateMach c = c\<lparr>p_headerinfo := HdrNull, p_recvbuf := BufNull, recvlen := PKG_HEADER_LEN,
     recv_str := False, p_msgrecv := None, curstat := PKG_HD_INIT, recvlen_already := 0\<rparr>"

definition GetOneToUse :: "int \<Rightarrow> connection \<Rightarrow> connection" where
  "GetOneToUse now c = PutToStateMach (c\<lparr>sequence := sequence c + 1, fd := -1, events := 0,
     iThrowsendCount := 0, sendlen_already := 0, isend_count := 0,
     inrecyList := 0, istimeout := False, ping_update_time := now\<rparr>)"

definition PutOneToFree :: "connection \<Rightarrow> connection" where
  "PutOneToFree c = c\<lparr>sequence := sequence c + 1,
     p_recvbuf := BufNull, recv_str := False, p_msgrecv := None,
     p_sendbuf := None, send_str := False, p_msgsend := None, iThrowsendCount := 0\<rparr>"

text \<open>\<open>~connection_s()\<close>.\<close>

definition connection_delete :: "connection \<Rightarrow> connection" where
  "connection_delete c = c\<lparr>recv_str := False, p_msgrecv := None, send_str := False, p_msgsend := None\<rparr>"

text \<open>
  \<open>bool JudgeOutdate(int cur_sequence)\<close>: the parameter is a 32-bit \<open>int\<close>, and the comparison with
  the 64-bit \<open>sequence\<close> sign-extends it. Every caller passes the 64-bit \<open>msg_cursequence\<close>, which
  is truncated on the way in (\<open>judge_token\<close>). The result is true for a connection still in use.
\<close>

definition JudgeOutdate :: "connection \<Rightarrow> u32 \<Rightarrow> bool" where
  "JudgeOutdate c cur_sequence =
     (if fd c \<le> 0 \<or> inrecyList c = 1 \<or> sequence c \<noteq> scast cur_sequence then False else True)"

definition judge_token :: "connection \<Rightarrow> u64 \<Rightarrow> bool" where
  "judge_token c t = JudgeOutdate c (ucast t)"

section \<open>Frames\<close>

lemma PutToStateMach_frame [frame_simps]:
  "fd (PutToStateMach c) = fd c"
  "sequence (PutToStateMach c) = sequence c"
  "events (PutToStateMach c) = events c"
  "inrecyList (PutToStateMach c) = inrecyList c"
  "istimeout (PutToStateMach c) = istimeout c"
  "ping_update_time (PutToStateMach c) = ping_update_time c"
  by (simp_all add: PutToStateMach_def)

lemma sequence_life [frame_simps]:
  "sequence (GetOneToUse now c) = sequence c + 1"
  "sequence (PutOneToFree c) = sequence c + 1"
  "sequence (connection_new c f) = 0"
  by (simp_all add: GetOneToUse_def PutOneToFree_def connection_new_def frame_simps)

section \<open>What the expiry check accepts\<close>

lemma judge_token_iff:
  "judge_token c t \<longleftrightarrow> 0 < fd c \<and> inrecyList c \<noteq> 1 \<and> sequence c = scast (ucast t :: u32)"
  by (auto simp: judge_token_def JudgeOutdate_def)

lemma sign_extend_small:
  assumes "unat t < 2 ^ 31"
  shows "scast (ucast (t :: u64) :: u32) = t"
proof (rule bit_eqI)
  fix k
  assume "possible_bit TYPE(64 word) k"
  then have k: "k < 64" by (simp add: possible_bit_word)
  have small: "j < 31" if "bit t j" for j
    using assms that by (rule bit_less_unat)
  show "bit (scast (ucast t :: u32) :: u64) k = bit t k"
    using k by (auto simp: bit_simps not_less min_def dest: small)
qed

lemma judge_token_exact:
  "unat t < 2 ^ 31 \<Longrightarrow> judge_token c t \<longleftrightarrow> 0 < fd c \<and> inrecyList c \<noteq> 1 \<and> sequence c = t"
  by (simp add: judge_token_iff sign_extend_small)

interpretation conn_token: expiring_token judge_token sequence "\<lambda>c. fd c \<le> 0" "\<lambda>t. unat t < 2 ^ 31"
  by unfold_locales (simp add: judge_token_iff, metis judge_token_exact)

section \<open>A concrete connection\<close>

text \<open>Zeroed memory, for the examples.\<close>

definition zero_connection :: connection where
  "zero_connection = \<lparr>fd = 0, s_sockaddr = [], rhandler = event_accept_handler,
     whandler = event_accept_handler, sequence = 0, events = 0, curstat = 0,
     p_headerinfo = HdrNull, p_msgrecv = None, recv_str = False, p_recvbuf = BufNull, recvlen = 0,
     recvlen_already = 0, p_msgsend = None, send_str = False, iThrowsendCount = 0,
     p_sendbuf = None, sendlen = 0, sendlen_suppose = 0, sendlen_already = 0, isend_count = 0,
     p_listenitem = None, inrevy_time = 0, inrecyList = 0, ping_update_time = 0, istimeout = False\<rparr>"

section \<open>Properties\<close>

text \<open>A token taken from a connection is rejected in every later life of the object: after any
  number of reuses and releases short of a full turn of the 64-bit counter, a message that still
  carries it fails the expiry check, whatever else happened to the object.\<close>

theorem token_dead_after_reuse:
  assumes "unat t < 2 ^ 31" "sequence c = t + of_nat n" "0 < n" "n < 2 ^ 64"
  shows "\<not> judge_token c t"
  using assms by (rule conn_token.reused_rejected)

theorem token_dead_after_reuse_witness:
  "\<not> judge_token (GetOneToUse 100 (PutOneToFree (zero_connection\<lparr>fd := 7, sequence := 5\<rparr>))) 5"
  using token_dead_after_reuse [of 5 "GetOneToUse 100 (PutOneToFree (zero_connection\<lparr>fd := 7, sequence := 5\<rparr>))" 2]
  by (simp add: sequence_life)

text \<open>The check compares the 64-bit sequence with a token cut to a signed 32-bit number: from
  sequence 2 to the 31 on, an open connection rejects even the token of its current life, so no
  message of it is processed any more.\<close>

theorem token_check_overflows:
  assumes "2 ^ 31 \<le> unat (sequence c)" "unat (sequence c) < 2 ^ 63"
  shows "\<not> judge_token c (sequence c)"
proof
  assume "judge_token c (sequence c)"
  then have eq: "sequence c = scast (ucast (sequence c) :: u32)" by (simp add: judge_token_iff)
  have up: "sint (scast (w :: u32) :: u64) = sint w" for w
    by (rule sint_up_scast) (simp add: is_up)
  have "sint (sequence c) = sint (ucast (sequence c) :: u32)"
    using arg_cong [OF eq, of sint] up by simp
  moreover have "sint (ucast (sequence c) :: u32) < 2 ^ 31"
    using sint_lt [of "ucast (sequence c) :: u32"] by simp
  moreover have "sint (sequence c) = int (unat (sequence c))"
  proof -
    have le: "- (2 ^ 63) \<le> uint (sequence c)" by (rule order_trans [OF _ uint_ge_0]) simp
    have "int (unat (sequence c)) < int (2 ^ 63)" using assms(2) by (simp only: of_nat_less_iff)
    then have lt: "uint (sequence c) < 2 ^ 63" by simp
    have "sint (sequence c) = signed_take_bit 63 (uint (sequence c))" by (subst sint_uint) simp
    also have "\<dots> = uint (sequence c)" using le lt by (rule signed_take_bit_int_eq_self)
    also have "\<dots> = int (unat (sequence c))" by simp
    finally show ?thesis .
  qed
  moreover have "int (2 ^ 31) \<le> int (unat (sequence c))" using assms(1) by (simp only: of_nat_le_iff)
  ultimately show False by simp
qed

theorem token_check_overflows_witness:
  "\<not> judge_token (zero_connection\<lparr>fd := 7, sequence := 0x80000000\<rparr>) 0x80000000"
  using token_check_overflows [of "zero_connection\<lparr>fd := 7, sequence := 0x80000000\<rparr>"] by simp

end
