(* ===== verification/SocketState.thy ===== *)
theory SocketState
  imports Connection
begin

text \<open>
  The state of the server object \<open>CSocket\<close> (\<open>_include/c_socket.h\<close>), its constructor, and the
  registration of events with epoll (\<open>net/socket_conn.cxx\<close>, \<open>net/c_socket.cxx\<close>).

  Connections live in a store \<open>conns\<close> addressed by pointers. The mutexes are taken and released
  inside one operation by a scoped lock, so an operation is one atomic step; the exception is
  \<open>m_sendmutex\<close>, which the code locks and unlocks by hand and can leave locked: it is a field.
  \<open>os_trace\<close> is not a field of the class: it records, in order, the requests made to the
  operating system, so that properties can speak about them.
\<close>

section \<open>Data\<close>

record listening =
  l_fd :: int
  l_port :: int
  l_connitem :: addr

text \<open>\<open>listening_s()\<close>, and the constructor with a descriptor and a port.\<close>

definition listening_new :: listening where
  "listening_new = \<lparr>l_fd = -1, l_port = 0, l_connitem = 0\<rparr>"

definition listening_of :: "int \<Rightarrow> int \<Rightarrow> listening" where
  "listening_of listenfd port_value = \<lparr>l_fd = listenfd, l_port = port_value, l_connitem = 0\<rparr>"

lemma listening_new_of: "listening_new\<lparr>l_fd := f, l_port := p\<rparr> = listening_of f p"
  by (simp add: listening_new_def listening_of_def)

datatype os_call =
    EpollCtl u32 int "u32 \<times> addr"
  | OsClose int
  | OsSend int "byte list"

record csocket =
  conns :: "addr \<Rightarrow> connection"
  m_port_count :: int
  m_create_connections_count :: int
  m_delay_time :: int
  m_connectionList :: "addr list"
  m_free_connectionList :: "addr list"
  m_worker_connections :: int
  m_total_connection_count :: size_t
  m_free_connection_count :: size_t
  m_online_count :: int
  m_recy_connectionList :: "addr list"
  m_threadVector :: "thread_item list"
  m_recy_connection_count :: size_t
  m_send_msgList :: "byte list list"
  m_sendmutex :: bool
  m_msgtosend_count :: int
  m_sendsem :: nat
  m_waittime :: int
  m_TimeEnable :: int
  m_timermap :: "(int \<times> msg_header) list"
  m_timer_value :: int
  m_timermap_size :: size_t
  m_lastprinttime :: int
  m_ListenSocketList :: "listening list"
  os_trace :: "os_call list"

text \<open>\<open>CSocket()\<close>. \<open>g_socket\<close> has static storage: what the constructor does not set starts zeroed.\<close>

definition CSocket_new :: "(addr \<Rightarrow> connection) \<Rightarrow> csocket" where
  "CSocket_new heap = \<lparr>
     conns = heap,
     m_port_count = 2, m_create_connections_count = 20, m_delay_time = 60,
     m_connectionList = [], m_free_connectionList = [],
     m_worker_connections = 1000, m_total_connection_count = 0, m_free_connection_count = 0,
     m_online_count = 0, m_recy_connectionList = [], m_threadVector = [],
     m_recy_connection_count = 0, m_send_msgList = [], m_sendmutex = False,
     m_msgtosend_count = 0, m_sendsem = 0, m_waittime = 10, m_TimeEnable = 0,
     m_timermap = [], m_timer_value = 0, m_timermap_size = 0, m_lastprinttime = 0,
     m_ListenSocketList = [], os_trace = []\<rparr>"

text \<open>An assignment to fields of the connection object at \<open>a\<close>.\<close>

definition upd_conn :: "addr \<Rightarrow> (connection \<Rightarrow> connection) \<Rightarrow> csocket \<Rightarrow> csocket" where
  "upd_conn a f s = s\<lparr>conns := (conns s)(a := f (conns s a))\<rparr>"

lemma upd_conn_upd_conn [simp]: "upd_conn a f (upd_conn a g s) = upd_conn a (\<lambda>c. f (g c)) s"
  by (simp add: upd_conn_def)

lemma upd_conn_cong: "f (conns s a) = g (conns s a) \<Longrightarrow> upd_conn a f s = upd_conn a g s"
  by (simp add: upd_conn_def)

lemma upd_conn_same [simp]: "upd_conn a (\<lambda>_. conns s a) s = s"
  by (simp add: upd_conn_def)

definition os_request :: "os_call \<Rightarrow> csocket \<Rightarrow> csocket" where
  "os_request r s = s\<lparr>os_trace := os_trace s @ [r]\<rparr>"

lemma conns_upd_conn [simp]: "conns (upd_conn a f s) = (conns s)(a := f (conns s a))"
  by (simp add: upd_conn_def)

lemma upd_conn_frame [simp]:
  "m_port_count (upd_conn a f s) = m_port_count s"
  "m_create_connections_count (upd_conn a f s) = m_create_connections_count s"
  "m_delay_time (upd_conn a f s) = m_delay_time s"
  "m_connectionList (upd_conn a f s) = m_connectionList s"
  "m_free_connectionList (upd_conn a f s) = m_free_connectionList s"
  "m_worker_connections (upd_conn a f s) = m_worker_connections s"
  "m_total_connection_count (upd_conn a f s) = m_total_connection_count s"
  "m_free_connection_count (upd_conn a f s) = m_free_connection_count s"
  "m_online_count (upd_conn a f s) = m_online_count s"
  "m_recy_connectionList (upd_conn a f s) = m_recy_connectionList s"
  "m_threadVector (upd_conn a f s) = m_threadVector s"
  "m_recy_connection_count (upd_conn a f s) = m_recy_connection_count s"
  "m_send_msgList (upd_conn a f s) = m_send_msgList s"
  "m_sendmutex (upd_conn a f s) = m_sendmutex s"
  "m_msgtosend_count (upd_conn a f s) = m_msgtosend_count s"
  "m_sendsem (upd_conn a f s) = m_sendsem s"
  "m_waittime (upd_conn a f s) = m_waittime s"
  "m_TimeEnable (upd_conn a f s) = m_TimeEnable s"
  "m_timermap (upd_conn a f s) = m_timermap s"
  "m_timer_value (upd_conn a f s) = m_timer_value s"
  "m_timermap_size (upd_conn a f s) = m_timermap_size s"
  "m_ListenSocketList (upd_conn a f s) = m_ListenSocketList s"
  "os_trace (upd_conn a f s) = os_trace s"
  by (simp_all add: upd_conn_def)

lemma os_request_frame [simp]:
  "conns (os_request r s) = conns s"
  "m_delay_time (os_request r s) = m_delay_time s"
  "m_connectionList (os_request r s) = m_connectionList s"
  "m_free_connectionList (os_request r s) = m_free_connectionList s"
  "m_worker_connections (os_request r s) = m_worker_connections s"
  "m_total_connection_count (os_request r s) = m_total_connection_count s"
  "m_free_connection_count (os_request r s) = m_free_connection_count s"
  "m_online_count (os_request r s) = m_online_count s"
  "m_recy_connectionList (os_request r s) = m_recy_connectionList s"
  "m_recy_connection_count (os_request r s) = m_recy_connection_count s"
  "m_send_msgList (os_request r s) = m_send_msgList s"
  "m_sendmutex (os_request r s) = m_sendmutex s"
  "m_msgtosend_count (os_request r s) = m_msgtosend_count s"
  "m_sendsem (os_request r s) = m_sendsem s"
  "m_waittime (os_request r s) = m_waittime s"
  "m_TimeEnable (os_request r s) = m_TimeEnable s"
  "m_timermap (os_request r s) = m_timermap s"
  "m_timer_value (os_request r s) = m_timer_value s"
  "m_timermap_size (os_request r s) = m_timermap_size s"
  "m_ListenSocketList (os_request r s) = m_ListenSocketList s"
  "os_trace (os_request r s) = os_trace s @ [r]"
  by (simp_all add: os_request_def)

section \<open>Events\<close>

abbreviation (input) EPOLLIN :: u32 where "EPOLLIN \<equiv> 0x001"
abbreviation (input) EPOLLOUT :: u32 where "EPOLLOUT \<equiv> 0x004"
abbreviation (input) EPOLLERR :: u32 where "EPOLLERR \<equiv> 0x008"
abbreviation (input) EPOLLHUP :: u32 where "EPOLLHUP \<equiv> 0x010"
abbreviation (input) EPOLLRDHUP :: u32 where "EPOLLRDHUP \<equiv> 0x2000"

abbreviation (input) EPOLL_CTL_ADD :: u32 where "EPOLL_CTL_ADD \<equiv> 1"
abbreviation (input) EPOLL_CTL_DEL :: u32 where "EPOLL_CTL_DEL \<equiv> 2"
abbreviation (input) EPOLL_CTL_MOD :: u32 where "EPOLL_CTL_MOD \<equiv> 3"

text \<open>\<open>ctl_ok\<close> is the answer of \<open>epoll_ctl\<close>.\<close>

definition epoll_oper_event ::
  "bool \<Rightarrow> int \<Rightarrow> u32 \<Rightarrow> u32 \<Rightarrow> int \<Rightarrow> addr \<Rightarrow> csocket \<Rightarrow> int \<times> csocket" where
  "epoll_oper_event ctl_ok efd flag event_type bcaction a s =
     (let old = events (conns s a);
          ev = (if flag = EPOLL_CTL_DEL then 0
                else if flag = EPOLL_CTL_ADD then event_type
                else if bcaction = 0 then old OR event_type
                else if bcaction = 1 then old AND NOT event_type
                else event_type);
          s1 = (if flag = EPOLL_CTL_DEL then s else upd_conn a (\<lambda>c. c\<lparr>events := ev\<rparr>) s);
          s2 = os_request (EpollCtl flag efd (ev, a)) s1
      in (if ctl_ok then 0 else -1, s2))"

lemma epoll_oper_event_frame [simp]:
  "m_delay_time (snd (epoll_oper_event ok f fl ev bc a s)) = m_delay_time s"
  "m_connectionList (snd (epoll_oper_event ok f fl ev bc a s)) = m_connectionList s"
  "m_free_connectionList (snd (epoll_oper_event ok f fl ev bc a s)) = m_free_connectionList s"
  "m_worker_connections (snd (epoll_oper_event ok f fl ev bc a s)) = m_worker_connections s"
  "m_total_connection_count (snd (epoll_oper_event ok f fl ev bc a s)) = m_total_connection_count s"
  "m_free_connection_count (snd (epoll_oper_event ok f fl ev bc a s)) = m_free_connection_count s"
  "m_online_count (snd (epoll_oper_event ok f fl ev bc a s)) = m_online_count s"
  "m_recy_connectionList (snd (epoll_oper_event ok f fl ev bc a s)) = m_recy_connectionList s"
  "m_recy_connection_count (snd (epoll_oper_event ok f fl ev bc a s)) = m_recy_connection_count s"
  "m_send_msgList (snd (epoll_oper_event ok f fl ev bc a s)) = m_send_msgList s"
  "m_sendmutex (snd (epoll_oper_event ok f fl ev bc a s)) = m_sendmutex s"
  "m_msgtosend_count (snd (epoll_oper_event ok f fl ev bc a s)) = m_msgtosend_count s"
  "m_sendsem (snd (epoll_oper_event ok f fl ev bc a s)) = m_sendsem s"
  "m_waittime (snd (epoll_oper_event ok f fl ev bc a s)) = m_waittime s"
  "m_TimeEnable (snd (epoll_oper_event ok f fl ev bc a s)) = m_TimeEnable s"
  "m_timermap (snd (epoll_oper_event ok f fl ev bc a s)) = m_timermap s"
  "m_timer_value (snd (epoll_oper_event ok f fl ev bc a s)) = m_timer_value s"
  "m_timermap_size (snd (epoll_oper_event ok f fl ev bc a s)) = m_timermap_size s"
  "m_ListenSocketList (snd (epoll_oper_event ok f fl ev bc a s)) = m_ListenSocketList s"
  by (simp_all add: epoll_oper_event_def Let_def)

text \<open>Only the recorded event mask of the connection changes.\<close>

lemma conns_epoll_oper_event [simp]:
  "fd (conns (snd (epoll_oper_event ok f fl et bc a s)) b) = fd (conns s b)"
  "rhandler (conns (snd (epoll_oper_event ok f fl et bc a s)) b) = rhandler (conns s b)"
  "sequence (conns (snd (epoll_oper_event ok f fl et bc a s)) b) = sequence (conns s b)"
  "inrecyList (conns (snd (epoll_oper_event ok f fl et bc a s)) b) = inrecyList (conns s b)"
  "istimeout (conns (snd (epoll_oper_event ok f fl et bc a s)) b) = istimeout (conns s b)"
  "ping_update_time (conns (snd (epoll_oper_event ok f fl et bc a s)) b) = ping_update_time (conns s b)"
  "b \<noteq> a \<Longrightarrow> conns (snd (epoll_oper_event ok f fl et bc a s)) b = conns s b"
  by (simp_all add: epoll_oper_event_def Let_def)

lemma epoll_oper_event_DEL [simp]:
  "conns (snd (epoll_oper_event ok f EPOLL_CTL_DEL et bc a s)) = conns s"
  by (simp add: epoll_oper_event_def Let_def)

end
