(* ===== verification/Pool.thy ===== *)
theory Pool
  imports SocketState
begin

text \<open>
  The connection pool and the delayed recycling of closed connections
  (\<open>net/socket_conn.cxx\<close>, \<open>net/c_socket.cxx\<close>): taking and returning a connection object, the two
  ways a connection is closed, the recycle queue, the body of the recycling thread, and the
  creation and deletion of the pool. The pool invariant says where every connection object is.
\<close>

section \<open>Taking and returning a connection\<close>

text \<open>\<open>new connection_t(-1)\<close> is answered by the allocator: an address and the old contents there.\<close>

definition get_connection_item :: "addr \<times> connection \<Rightarrow> csocket \<Rightarrow> addr \<times> csocket" where
  "get_connection_item new s =
     (case m_free_connectionList s of
        a # rest \<Rightarrow> (a, s\<lparr>m_free_connectionList := rest,
                         m_free_connection_count := m_free_connection_count s - 1\<rparr>)
      | [] \<Rightarrow> (fst new,
          upd_conn (fst new) (\<lambda>_. connection_new (snd new) (-1))
            (s\<lparr>m_connectionList := m_connectionList s @ [fst new],
               m_total_connection_count := m_total_connection_count s + 1\<rparr>)))"

definition free_connection_item :: "addr \<Rightarrow> csocket \<Rightarrow> csocket" where
  "free_connection_item a s =
     s\<lparr>m_free_connectionList := m_free_connectionList s @ [a],
       m_free_connection_count := m_free_connection_count s + 1\<rparr>"

section \<open>Closing\<close>

text \<open>\<open>close_ok\<close> is the answer of \<open>close\<close>; a failure ends the process.\<close>

definition close_connection :: "bool \<Rightarrow> addr \<Rightarrow> csocket \<Rightarrow> fault + csocket" where
  "close_connection close_ok a s =
     (let fd_close = fd (conns s a) in
      if fd_close = -1 \<or> istimeout (conns s a) then Inl (ProcExit (-1))
      else if \<not> close_ok then Inl (ProcExit (-1))
      else Inr (free_connection_item a
                 (upd_conn a (\<lambda>c. c\<lparr>fd := -1, sequence := sequence c + 1\<rparr>)
                   (os_request (OsClose fd_close) s))))"

definition InRecyConnQueue :: "int \<Rightarrow> addr \<Rightarrow> csocket \<Rightarrow> csocket" where
  "InRecyConnQueue now a s =
     (if inrecyList (conns s a) = 1 then s
      else if a \<in> set (m_recy_connectionList s) then s
      else (upd_conn a (\<lambda>c. c\<lparr>inrecyList := 1, inrevy_time := now\<rparr>) s)
             \<lparr>m_recy_connection_count := m_recy_connection_count s + 1,
              m_recy_connectionList := m_recy_connectionList s @ [a]\<rparr>)"

definition close_accepted_connection ::
  "bool \<Rightarrow> bool \<Rightarrow> int \<Rightarrow> addr \<Rightarrow> bool \<Rightarrow> csocket \<Rightarrow> fault + csocket" where
  "close_accepted_connection ctl_ok close_ok now a istimeout_close s =
     (let fd_toclose = fd (conns s a) in
      if fd_toclose = -1 then Inr s
      else if \<not> istimeout_close \<and> istimeout (conns s a) then Inr s
      else
        let s1 = snd (epoll_oper_event ctl_ok fd_toclose EPOLL_CTL_DEL 0 0 a s) in
        if \<not> close_ok then Inl (ProcExit (-1))
        else
          let s2 = upd_conn a (\<lambda>c. c\<lparr>fd := -1,
                      iThrowsendCount := (if iThrowsendCount c > 0 then iThrowsendCount c - 1
                                          else iThrowsendCount c)\<rparr>)
                     (os_request (OsClose fd_toclose) s1)
          in Inr (InRecyConnQueue now a (s2\<lparr>m_online_count := m_online_count s2 - 1\<rparr>)))"

section \<open>The recycling thread\<close>

definition recycle_one :: "addr \<Rightarrow> csocket \<Rightarrow> csocket" where
  "recycle_one a s = free_connection_item a (upd_conn a PutOneToFree
     (s\<lparr>m_recy_connection_count := m_recy_connection_count s - 1\<rparr>))"

text \<open>
  One visit of the queue: a connection whose waiting time is over leaves the queue and goes back
  to the pool, the others stay. \<open>clock i\<close> and \<open>stop i\<close> are what \<open>time\<close> and \<open>g_stopEvent\<close> read when
  the loop looks at its \<open>i\<close>-th element.
\<close>

fun recy_scan ::
  "(nat \<Rightarrow> int) \<Rightarrow> (nat \<Rightarrow> bool) \<Rightarrow> nat \<Rightarrow> addr list \<Rightarrow> csocket \<Rightarrow> addr list \<times> csocket" where
  "recy_scan clock stop i [] s = ([], s)"
| "recy_scan clock stop i (a # q) s =
     (if m_delay_time s + inrevy_time (conns s a) < clock i \<and> \<not> stop i
      then recy_scan clock stop (i + 1) q (recycle_one a s)
      else (let (kept, s') = recy_scan clock stop (i + 1) q s in (a # kept, s')))"

text \<open>On exit everything still waiting is returned at once.\<close>

fun recy_drain :: "addr list \<Rightarrow> csocket \<Rightarrow> csocket" where
  "recy_drain [] s = s"
| "recy_drain (a # q) s = recy_drain q (free_connection_item a (upd_conn a PutOneToFree s))"

text \<open>The body of the thread's loop; the flag of the result says whether the thread leaves it.\<close>

definition RecyConnThread_body ::
  "bool \<Rightarrow> bool \<Rightarrow> (nat \<Rightarrow> int) \<Rightarrow> (nat \<Rightarrow> bool) \<Rightarrow> csocket \<Rightarrow> bool \<times> csocket" where
  "RecyConnThread_body stopEvent shutdown clock stop s =
     (if m_recy_connection_count s > 0 then
        if stopEvent \<or> shutdown then
          (True, (recy_drain (m_recy_connectionList s) s)\<lparr>m_recy_connectionList := []\<rparr>)
        else
          (let (kept, s') = recy_scan clock stop 0 (m_recy_connectionList s) s
           in (False, s'\<lparr>m_recy_connectionList := kept\<rparr>))
      else (False, s))"

section \<open>Creating and deleting the pool\<close>

text \<open>\<open>for (i = 0; i < m_create_connections_count; i++)\<close> with one allocation in each round.\<close>

fun connectpool_fill :: "(addr \<times> connection) list \<Rightarrow> csocket \<Rightarrow> csocket" where
  "connectpool_fill [] s = s"
| "connectpool_fill (new # news) s =
     connectpool_fill news
       (upd_conn (fst new) (\<lambda>_. connection_new (snd new) (-1))
         (s\<lparr>m_connectionList := m_connectionList s @ [fst new],
            m_free_connectionList := m_free_connectionList s @ [fst new]\<rparr>))"

definition connectpool_init :: "(addr \<times> connection) list \<Rightarrow> csocket \<Rightarrow> csocket" where
  "connectpool_init news s =
     (let s' = connectpool_fill (take (nat (m_create_connections_count s)) news) s in
      s'\<lparr>m_total_connection_count := of_int (m_create_connections_count s),
         m_free_connection_count := of_int (m_create_connections_count s)\<rparr>)"

text \<open>\<open>connectpool_clean\<close> deletes every connection of the pool; the free list keeps its pointers.\<close>

definition connectpool_clean :: "csocket \<Rightarrow> csocket" where
  "connectpool_clean s =
     (fold (\<lambda>a. upd_conn a connection_delete) (m_connectionList s) s)\<lparr>m_connectionList := []\<rparr>"

section \<open>The pool invariant\<close>

text \<open>
  Every pooled pointer is a connection of the pool, the free list and the recycle queue are
  disjoint and hold nothing twice, a connection in either is closed, the counters agree with the
  queues, and a connection that is being served is not marked as queued.
\<close>

definition pool_inv :: "csocket \<Rightarrow> bool" where
  "pool_inv s \<longleftrightarrow>
     distinct (m_connectionList s) \<and> 0 \<notin> set (m_connectionList s) \<and>
     distinct (m_free_connectionList s @ m_recy_connectionList s) \<and>
     set (m_free_connectionList s @ m_recy_connectionList s) \<subseteq> set (m_connectionList s) \<and>
     (\<forall>a \<in> set (m_free_connectionList s @ m_recy_connectionList s). fd (conns s a) = -1) \<and>
     m_total_connection_count s = of_nat (length (m_connectionList s)) \<and>
     m_free_connection_count s = of_nat (length (m_free_connectionList s)) \<and>
     m_recy_connection_count s = of_nat (length (m_recy_connectionList s))"

text \<open>A connection in service: taken from the pool, open, with the receive handler installed.\<close>

definition serving :: "csocket \<Rightarrow> addr set" where
  "serving s = {a \<in> set (m_connectionList s). fd (conns s a) \<noteq> -1 \<and>
     rhandler (conns s a) = event_readable_request_handler}"

definition serving_inv :: "csocket \<Rightarrow> bool" where
  "serving_inv s \<longleftrightarrow> (\<forall>a \<in> serving s. inrecyList (conns s a) \<noteq> 1)"

lemma finite_serving [simp]: "finite (serving s)"
  by (simp add: serving_def)

lemma serving_not_pooled:
  "pool_inv s \<Longrightarrow> a \<in> serving s \<Longrightarrow>
     a \<notin> set (m_free_connectionList s) \<and> a \<notin> set (m_recy_connectionList s)"
  by (auto simp: pool_inv_def serving_def)

section \<open>Preservation\<close>

lemma pool_inv_get:
  assumes "pool_inv s" "fst new \<notin> set (m_connectionList s)" "fst new \<noteq> 0"
  shows "pool_inv (snd (get_connection_item new s))"
  using assms by (cases "m_free_connectionList s")
    (auto simp: pool_inv_def get_connection_item_def connection_new_def)

lemma get_connection_item_fresh:
  assumes "pool_inv s" "fst new \<notin> set (m_connectionList s)"
    and "get_connection_item new s = (a, s')"
  shows "a \<in> set (m_connectionList s') \<and> a \<notin> set (m_free_connectionList s') \<and>
         a \<notin> set (m_recy_connectionList s') \<and> fd (conns s' a) = -1"
  using assms by (cases "m_free_connectionList s")
    (auto simp: pool_inv_def get_connection_item_def connection_new_def)

lemma pool_inv_free:
  assumes "pool_inv s" "a \<in> set (m_connectionList s)" "fd (conns s a) = -1"
    and "a \<notin> set (m_free_connectionList s)" "a \<notin> set (m_recy_connectionList s)"
  shows "pool_inv (free_connection_item a s)"
  using assms by (auto simp: pool_inv_def free_connection_item_def)

text \<open>Updating a connection outside both queues, or without reopening it, keeps the invariant.\<close>

lemma pool_inv_upd_conn:
  assumes "pool_inv s" "fd (f (conns s a)) = fd (conns s a) \<or>
     (a \<notin> set (m_free_connectionList s) \<and> a \<notin> set (m_recy_connectionList s))"
  shows "pool_inv (upd_conn a f s)"
  using assms by (auto simp: pool_inv_def)

lemma pool_inv_os_request [simp]: "pool_inv (os_request r s) = pool_inv s"
  by (simp add: pool_inv_def)

lemma pool_inv_m_online [simp]: "pool_inv (s\<lparr>m_online_count := n\<rparr>) = pool_inv s"
  by (simp add: pool_inv_def)

lemma pool_inv_epoll: "pool_inv s \<Longrightarrow> pool_inv (snd (epoll_oper_event ok f fl et bc a s))"
  by (simp add: pool_inv_def)

lemma pool_inv_InRecy:
  assumes "pool_inv s" "a \<in> set (m_connectionList s)" "fd (conns s a) = -1"
    and "a \<notin> set (m_free_connectionList s)"
  shows "pool_inv (InRecyConnQueue now a s)"
  using assms by (auto simp: pool_inv_def InRecyConnQueue_def)

lemma close_connection_cases:
  "close_connection close_ok a s =
     (if fd (conns s a) \<noteq> -1 \<and> \<not> istimeout (conns s a) \<and> close_ok
      then Inr (free_connection_item a
             (upd_conn a (\<lambda>c. c\<lparr>fd := -1, sequence := sequence c + 1\<rparr>)
               (os_request (OsClose (fd (conns s a))) s)))
      else Inl (ProcExit (-1)))"
  by (auto simp: close_connection_def Let_def)

lemma pool_inv_close_connection:
  assumes inv: "pool_inv s" and a: "a \<in> set (m_connectionList s)"
    and res: "close_connection close_ok a s = Inr s'"
  shows "pool_inv s'"
proof -
  from res have open_fd: "fd (conns s a) \<noteq> -1"
    and s': "s' = free_connection_item a
             (upd_conn a (\<lambda>c. c\<lparr>fd := -1, sequence := sequence c + 1\<rparr>)
               (os_request (OsClose (fd (conns s a))) s))"
    by (simp_all add: close_connection_cases split: if_splits)
  have out: "a \<notin> set (m_free_connectionList s)" "a \<notin> set (m_recy_connectionList s)"
    using inv open_fd by (auto simp: pool_inv_def)
  show ?thesis
    unfolding s' by (rule pool_inv_free) (use inv out a in \<open>simp_all add: pool_inv_upd_conn\<close>)
qed

text \<open>What a close of an accepted connection does when it does anything.\<close>

lemma close_accepted_connection_cases:
  "close_accepted_connection ctl_ok close_ok now a by_timeout s =
     (if fd (conns s a) = -1 \<or> (\<not> by_timeout \<and> istimeout (conns s a)) then Inr s
      else if \<not> close_ok then Inl (ProcExit (-1))
      else Inr (InRecyConnQueue now a
        ((upd_conn a (\<lambda>c. c\<lparr>fd := -1, iThrowsendCount :=
              (if iThrowsendCount c > 0 then iThrowsendCount c - 1 else iThrowsendCount c)\<rparr>)
           (os_request (OsClose (fd (conns s a)))
             (os_request (EpollCtl EPOLL_CTL_DEL (fd (conns s a)) (0, a)) s)))
         \<lparr>m_online_count := m_online_count s - 1\<rparr>)))"
  by (auto simp: close_accepted_connection_def epoll_oper_event_def Let_def)

lemma close_accepted_connection_total:
  "\<exists>s'. close_accepted_connection ctl_ok True now a by_timeout s = Inr s'"
  by (simp add: close_accepted_connection_cases)

lemma pool_inv_close_accepted:
  assumes inv: "pool_inv s" and a: "a \<in> set (m_connectionList s)"
    and res: "close_accepted_connection ctl_ok close_ok now a by_timeout s = Inr s'"
  shows "pool_inv s'"
proof (cases "fd (conns s a) = -1 \<or> (\<not> by_timeout \<and> istimeout (conns s a))")
  case True
  with res inv show ?thesis by (simp add: close_accepted_connection_cases)
next
  case False
  with inv have out: "a \<notin> set (m_free_connectionList s)" "a \<notin> set (m_recy_connectionList s)"
    by (auto simp: pool_inv_def)
  let ?t = "upd_conn a (\<lambda>c. c\<lparr>fd := -1, iThrowsendCount :=
              (if iThrowsendCount c > 0 then iThrowsendCount c - 1 else iThrowsendCount c)\<rparr>)
           (os_request (OsClose (fd (conns s a)))
             (os_request (EpollCtl EPOLL_CTL_DEL (fd (conns s a)) (0, a)) s))"
  have t: "pool_inv ?t" using inv out by (simp add: pool_inv_upd_conn)
  have "pool_inv (InRecyConnQueue now a (?t\<lparr>m_online_count := m_online_count s - 1\<rparr>))"
    by (rule pool_inv_InRecy) (use t out a in simp_all)
  with False res show ?thesis
    by (simp add: close_accepted_connection_cases split: if_splits)
qed

text \<open>The connection leaves the serving set and every other one is untouched.\<close>

lemma close_accepted_connection_conns:
  assumes "close_accepted_connection ctl_ok close_ok now a by_timeout s = Inr s'"
  shows "b \<noteq> a \<Longrightarrow> conns s' b = conns s b"
    and "sequence (conns s' a) = sequence (conns s a)"
    and "m_connectionList s' = m_connectionList s"
    and "m_free_connectionList s' = m_free_connectionList s"
    and "rhandler (conns s' a) = rhandler (conns s a)"
  using assms by (auto simp: close_accepted_connection_cases InRecyConnQueue_def split: if_splits)

lemma close_accepted_connection_closes:
  assumes "close_accepted_connection ctl_ok close_ok now a by_timeout s = Inr s'"
    and "fd (conns s a) \<noteq> -1" "by_timeout \<or> \<not> istimeout (conns s a)"
  shows "fd (conns s' a) = -1" "m_online_count s' = m_online_count s - 1"
    and "inrecyList (conns s a) \<noteq> 1 \<Longrightarrow> a \<notin> set (m_recy_connectionList s) \<Longrightarrow>
         m_recy_connectionList s' = m_recy_connectionList s @ [a] \<and>
         inrecyList (conns s' a) = 1 \<and> inrevy_time (conns s' a) = now"
  using assms by (auto simp: close_accepted_connection_cases InRecyConnQueue_def split: if_splits)

section \<open>What a visit of the recycle queue does\<close>

definition recy_due :: "(nat \<Rightarrow> int) \<Rightarrow> (nat \<Rightarrow> bool) \<Rightarrow> csocket \<Rightarrow> nat \<times> addr \<Rightarrow> bool" where
  "recy_due clock stop s = (\<lambda>(i, a).
     m_delay_time s + inrevy_time (conns s a) < clock i \<and> \<not> stop i)"

lemma recy_due_cong:
  "m_delay_time s' = m_delay_time s \<Longrightarrow> (\<And>a. a \<in> set q \<Longrightarrow> conns s' a = conns s a) \<Longrightarrow>
   filter (recy_due clock stop s') (enumerate i q) = filter (recy_due clock stop s) (enumerate i q) \<and>
   filter (\<lambda>x. \<not> recy_due clock stop s' x) (enumerate i q) =
   filter (\<lambda>x. \<not> recy_due clock stop s x) (enumerate i q)"
  by (auto simp: recy_due_def in_set_enumerate_eq intro!: filter_cong split: prod.splits)

lemma recycle_one_frame [simp]:
  "m_delay_time (recycle_one a s) = m_delay_time s"
  "m_connectionList (recycle_one a s) = m_connectionList s"
  "m_total_connection_count (recycle_one a s) = m_total_connection_count s"
  "m_recy_connectionList (recycle_one a s) = m_recy_connectionList s"
  "m_free_connectionList (recycle_one a s) = m_free_connectionList s @ [a]"
  "m_free_connection_count (recycle_one a s) = m_free_connection_count s + 1"
  "m_recy_connection_count (recycle_one a s) = m_recy_connection_count s - 1"
  "m_online_count (recycle_one a s) = m_online_count s"
  "m_timermap (recycle_one a s) = m_timermap s"
  "conns (recycle_one a s) = (conns s)(a := PutOneToFree (conns s a))"
  by (simp_all add: recycle_one_def free_connection_item_def)

lemma fold_recycle_frame:
  "m_connectionList (fold recycle_one xs s) = m_connectionList s"
  "m_total_connection_count (fold recycle_one xs s) = m_total_connection_count s"
  "m_recy_connectionList (fold recycle_one xs s) = m_recy_connectionList s"
  "m_free_connectionList (fold recycle_one xs s) = m_free_connectionList s @ xs"
  "m_free_connection_count (fold recycle_one xs s) = m_free_connection_count s + of_nat (length xs)"
  "m_recy_connection_count (fold recycle_one xs s) = m_recy_connection_count s - of_nat (length xs)"
  "m_online_count (fold recycle_one xs s) = m_online_count s"
  "m_timermap (fold recycle_one xs s) = m_timermap s"
  by (induction xs arbitrary: s) (simp_all add: algebra_simps)

lemma conns_fold_recycle:
  "distinct xs \<Longrightarrow> conns (fold recycle_one xs s) a =
     (if a \<in> set xs then PutOneToFree (conns s a) else conns s a)"
  by (induction xs arbitrary: s) auto

lemma recy_scan_Cons:
  "recy_scan clock stop i (a # q) s =
     (if recy_due clock stop s (i, a) then recy_scan clock stop (Suc i) q (recycle_one a s)
      else (let (kept, s') = recy_scan clock stop (Suc i) q s in (a # kept, s')))"
  by (simp add: recy_due_def)

declare recy_scan.simps(2) [simp del]

lemma recy_scan_spec:
  "distinct q \<Longrightarrow> recy_scan clock stop i q s =
     (map snd (filter (\<lambda>x. \<not> recy_due clock stop s x) (enumerate i q)),
      fold recycle_one (map snd (filter (recy_due clock stop s) (enumerate i q))) s)"
proof (induction q arbitrary: i s)
  case Nil
  then show ?case by simp
next
  case (Cons a q)
  have "conns (recycle_one a s) b = conns s b" if "b \<in> set q" for b
    using that Cons.prems by auto
  note cong = recy_due_cong [OF recycle_one_frame(1) this]
  show ?case
    using Cons by (cases "recy_due clock stop s (i, a)") (simp_all add: recy_scan_Cons cong)
qed

lemma enumerate_split:
  "distinct q \<Longrightarrow>
   distinct (map snd (filter P (enumerate i q)) @ map snd (filter (\<lambda>x. \<not> P x) (enumerate i q))) \<and>
   set (map snd (filter P (enumerate i q)) @ map snd (filter (\<lambda>x. \<not> P x) (enumerate i q))) = set q"
proof (induction q arbitrary: i)
  case Nil
  then show ?case by simp
next
  case (Cons a q)
  then have "distinct q" "a \<notin> set q" by simp_all
  moreover note Cons.IH [OF this(1), of "Suc i"]
  ultimately show ?case by (cases "P (i, a)") auto
qed

lemma length_enumerate_split:
  "length (filter P (enumerate i q)) + length (filter (\<lambda>x. \<not> P x) (enumerate i q)) = length q"
  by (induction q arbitrary: i) auto

lemma pool_inv_recycled:
  assumes inv: "pool_inv s"
    and split: "distinct (due @ kept)" "set (due @ kept) = set (m_recy_connectionList s)"
    and len: "length due + length kept = length (m_recy_connectionList s)"
  shows "pool_inv ((fold recycle_one due s)\<lparr>m_recy_connectionList := kept\<rparr>)"
proof -
  have d: "distinct due" using split by simp
  have count: "of_nat (length (m_recy_connectionList s)) - of_nat (length due) =
      (of_nat (length kept) :: size_t)"
    unfolding len [symmetric] by simp
  show ?thesis
    using inv split
    by (auto simp: pool_inv_def fold_recycle_frame conns_fold_recycle [OF d] PutOneToFree_def count)
qed

text \<open>The connections due at this visit, and those that stay, in queue order.\<close>

definition recy_due_list :: "(nat \<Rightarrow> int) \<Rightarrow> (nat \<Rightarrow> bool) \<Rightarrow> csocket \<Rightarrow> addr list" where
  "recy_due_list clock stop s =
     map snd (filter (recy_due clock stop s) (enumerate 0 (m_recy_connectionList s)))"

definition recy_kept_list :: "(nat \<Rightarrow> int) \<Rightarrow> (nat \<Rightarrow> bool) \<Rightarrow> csocket \<Rightarrow> addr list" where
  "recy_kept_list clock stop s =
     map snd (filter (\<lambda>x. \<not> recy_due clock stop s x) (enumerate 0 (m_recy_connectionList s)))"

lemma RecyConnThread_body_eq:
  assumes "pool_inv s" "0 < m_recy_connection_count s"
  shows "RecyConnThread_body False False clock stop s =
    (False, (fold recycle_one (recy_due_list clock stop s) s)
       \<lparr>m_recy_connectionList := recy_kept_list clock stop s\<rparr>)"
proof -
  have d: "distinct (m_recy_connectionList s)" using assms(1) by (simp add: pool_inv_def)
  show ?thesis
    using assms(2)
    by (simp add: RecyConnThread_body_def recy_scan_spec [OF d] recy_due_list_def recy_kept_list_def)
qed

lemma pool_inv_RecyConnThread_body:
  assumes "pool_inv s"
  shows "pool_inv (snd (RecyConnThread_body False False clock stop s))"
proof (cases "0 < m_recy_connection_count s")
  case True
  have d: "distinct (m_recy_connectionList s)" using assms by (simp add: pool_inv_def)
  show ?thesis
    unfolding RecyConnThread_body_eq [OF assms True] snd_conv
    by (rule pool_inv_recycled [OF assms])
      (use enumerate_split [OF d] in \<open>simp_all only: recy_due_list_def recy_kept_list_def
          length_map length_enumerate_split\<close>)
next
  case False
  with assms show ?thesis by (simp add: RecyConnThread_body_def)
qed

text \<open>The exit path returns everything but leaves the counter as it was.\<close>

lemma recy_drain_frame:
  "m_recy_connection_count (recy_drain q s) = m_recy_connection_count s"
  "m_free_connectionList (recy_drain q s) = m_free_connectionList s @ q"
  "m_connectionList (recy_drain q s) = m_connectionList s"
  by (induction q arbitrary: s) (simp_all add: free_connection_item_def)

section \<open>The pool as an interface\<close>

text \<open>
  What the acceptor relies on: a connection taken from the pool belongs to it and is not idle, the
  pool grows only when nothing is idle, idle connections are reused oldest first, and what is put
  back becomes idle. \<open>ok\<close> says when an answer of the allocator is usable in a state.
\<close>

locale conn_pool =
  fixes inv :: "'s \<Rightarrow> bool"
    and idle :: "'s \<Rightarrow> 'a list"
    and owned :: "'s \<Rightarrow> 'a list"
    and ok :: "'n \<Rightarrow> 's \<Rightarrow> bool"
    and fresh :: "'n \<Rightarrow> 'a"
    and get :: "'n \<Rightarrow> 's \<Rightarrow> 'a \<times> 's"
    and put :: "'a \<Rightarrow> 's \<Rightarrow> 's"
  assumes idle_owned: "inv s \<Longrightarrow> distinct (idle s) \<and> set (idle s) \<subseteq> set (owned s)"
    and ok_fresh: "ok n s \<Longrightarrow> fresh n \<notin> set (owned s)"
    and get_idle: "idle s = a # q \<Longrightarrow> fst (get n s) = a \<and> idle (snd (get n s)) = q \<and>
                     owned (snd (get n s)) = owned s"
    and get_new: "idle s = [] \<Longrightarrow> fst (get n s) = fresh n \<and> idle (snd (get n s)) = [] \<and>
                     owned (snd (get n s)) = owned s @ [fresh n]"
    and get_inv: "inv s \<Longrightarrow> ok n s \<Longrightarrow> inv (snd (get n s))"
    and put_idle: "idle (put a s) = idle s @ [a] \<and> owned (put a s) = owned s"
begin

lemma get_owned_not_idle:
  assumes "inv s" "ok n s"
  shows "fst (get n s) \<in> set (owned (snd (get n s))) \<and> fst (get n s) \<notin> set (idle (snd (get n s)))"
proof (cases "idle s")
  case Nil
  then show ?thesis using get_new [OF Nil, of n] by simp
next
  case (Cons a q)
  then show ?thesis using get_idle [OF Cons, of n] idle_owned [OF assms(1)] by auto
qed

lemma get_grows_only_when_empty:
  "length (owned (snd (get n s))) = length (owned s) + (if idle s = [] then 1 else 0)"
  by (cases "idle s") (auto dest: get_idle [where n = n] get_new [where n = n])

lemma get_after_put: "idle s = b # q \<Longrightarrow> fst (get n (put a s)) = b"
  using get_idle [of "put a s" b "q @ [a]" n] put_idle [of a s] by simp

end

interpretation pool: conn_pool pool_inv m_free_connectionList m_connectionList
  "\<lambda>n s. fst n \<notin> set (m_connectionList s) \<and> fst n \<noteq> 0" fst get_connection_item free_connection_item
proof (unfold_locales, goal_cases)
  case (1 s)
  then show ?case by (auto simp: pool_inv_def)
next
  case (2 n s)
  then show ?case by simp
next
  case (3 s a q n)
  then show ?case by (simp add: get_connection_item_def)
next
  case (4 s n)
  then show ?case by (simp add: get_connection_item_def)
next
  case (5 s n)
  then show ?case by (simp add: pool_inv_get)
next
  case (6 a s)
  then show ?case by (simp add: free_connection_item_def)
qed

section \<open>The free list is first-in first-out\<close>

interpretation free_list: fifo_queue free_connection_item "get_connection_item new"
    m_free_connectionList "\<lambda>s. m_free_connection_count s = of_nat (length (m_free_connectionList s))"
  by unfold_locales (auto simp: free_connection_item_def get_connection_item_def split: list.splits)

section \<open>Properties\<close>

lemma map_snd_filter_enumerate: "map snd (filter (\<lambda>x. P (snd x)) (enumerate i q)) = filter P q"
  by (induction q arbitrary: i) simp_all

lemma recy_lists_constant:
  "recy_due_list (\<lambda>_. t) (\<lambda>_. False) s =
     filter (\<lambda>a. m_delay_time s + inrevy_time (conns s a) < t) (m_recy_connectionList s)"
  "recy_kept_list (\<lambda>_. t) (\<lambda>_. False) s =
     filter (\<lambda>a. \<not> m_delay_time s + inrevy_time (conns s a) < t) (m_recy_connectionList s)"
  using map_snd_filter_enumerate [where P = "\<lambda>a. m_delay_time s + inrevy_time (conns s a) < t"]
    map_snd_filter_enumerate [where P = "\<lambda>a. \<not> m_delay_time s + inrevy_time (conns s a) < t"]
  by (simp_all only: recy_due_list_def recy_kept_list_def recy_due_def case_prod_unfold not_False_eq_True simp_thms)

text \<open>Non-null addresses are too few for the counter to wrap around.\<close>

lemma recy_count_0:
  assumes "pool_inv s" "m_recy_connection_count s = 0"
  shows "m_recy_connectionList s = []"
proof -
  let ?q = "m_recy_connectionList s"
  have q: "distinct ?q" "0 \<notin> set ?q" "m_recy_connection_count s = of_nat (length ?q)"
    using assms(1) by (auto simp: pool_inv_def)
  have "set ?q \<subseteq> UNIV - {0}" using q(2) by auto
  then have "card (set ?q) \<le> card (UNIV - {0 :: addr})" by (intro card_mono) simp_all
  then have "length ?q < 2 ^ 64" using distinct_card [OF q(1)] by (simp add: card_word)
  with q(3) assms(2) show ?thesis
    by (auto simp: word_of_nat_eq_0_iff dest: dvd_imp_le)
qed

text \<open>C17. A visit of the recycling thread returns to the pool exactly the connections whose waiting time
  is over, in the order they were closed, behind those that were free before, and cleaned up under a
  new sequence number; the others keep waiting, in order; no other connection is touched, and the
  pool stays sound.\<close>

theorem recycle_visit_effect:
  assumes "pool_inv s"
  shows "\<exists>s'. RecyConnThread_body False False (\<lambda>_. t) (\<lambda>_. False) s = (False, s') \<and> pool_inv s' \<and>
    (let over = (\<lambda>a. m_delay_time s + inrevy_time (conns s a) < t) in
      m_free_connectionList s' = m_free_connectionList s @ filter over (m_recy_connectionList s) \<and>
      m_recy_connectionList s' = filter (\<lambda>a. \<not> over a) (m_recy_connectionList s) \<and>
      (\<forall>a. conns s' a = (if a \<in> set (m_recy_connectionList s) \<and> over a then PutOneToFree (conns s a) else conns s a)))"
proof (cases "0 < m_recy_connection_count s")
  case True
  let ?due = "recy_due_list (\<lambda>_. t) (\<lambda>_. False) s"
  let ?s' = "(fold recycle_one ?due s)\<lparr>m_recy_connectionList := recy_kept_list (\<lambda>_. t) (\<lambda>_. False) s\<rparr>"
  have "distinct ?due" using assms by (simp add: recy_lists_constant pool_inv_def)
  then have "conns ?s' a = (if a \<in> set ?due then PutOneToFree (conns s a) else conns s a)" for a
    by (simp add: conns_fold_recycle)
  moreover have "m_free_connectionList ?s' = m_free_connectionList s @ ?due" by (simp add: fold_recycle_frame)
  moreover have "pool_inv ?s'"
    using pool_inv_RecyConnThread_body [OF assms, of "\<lambda>_. t" "\<lambda>_. False"]
    unfolding RecyConnThread_body_eq [OF assms True] by simp
  ultimately show ?thesis
    unfolding RecyConnThread_body_eq [OF assms True]
    by (intro exI [of _ ?s']) (simp add: recy_lists_constant)
next
  case False
  then have "m_recy_connection_count s = 0" by (simp add: word_gt_0)
  with recy_count_0 [OF assms this] assms show ?thesis
    by (intro exI [of _ s]) (simp add: RecyConnThread_body_def)
qed

definition recycle_example :: csocket where
  "recycle_example = (CSocket_new (\<lambda>a. zero_connection\<lparr>fd := -1, inrevy_time := if a = 2 then 100 else 50\<rparr>))
     \<lparr>m_connectionList := [1, 2, 3], m_free_connectionList := [3], m_recy_connectionList := [1, 2],
      m_total_connection_count := 3, m_free_connection_count := 1, m_recy_connection_count := 2\<rparr>"

theorem recycle_visit_effect_witness:
  "\<exists>s'. RecyConnThread_body False False (\<lambda>_. 120) (\<lambda>_. False) recycle_example = (False, s') \<and>
     m_free_connectionList s' = [3, 1] \<and> m_recy_connectionList s' = [2] \<and> sequence (conns s' 1) = 1"
proof -
  have pool: "pool_inv recycle_example" by code_simp
  have q: "m_recy_connectionList recycle_example = [1, 2]" "m_free_connectionList recycle_example = [3]"
    "m_delay_time recycle_example = 60" "inrevy_time (conns recycle_example 1) = 50"
    "inrevy_time (conns recycle_example 2) = 100" "sequence (conns recycle_example 1) = 0"
    by code_simp+
  from recycle_visit_effect [OF pool, of 120] show ?thesis
    by (auto simp: q Let_def sequence_life)
qed

end
