(* ===== verification/Timer.thy ===== *)
theory Timer
  imports Pool
begin

text \<open>
  The heartbeat timer (\<open>net/socket_time.cxx\<close>): a multimap from check times to message headers,
  one entry per accepted connection, and the thread that visits it. An entry that is due is moved
  forward by \<open>m_waittime\<close> and its connection is examined: outdated entries are deleted, a silent
  connection is closed and sent to the recycle queue.
\<close>

section \<open>The multimap\<close>

text \<open>\<open>std::multimap<time_t, ...>\<close> as the list of its entries in iteration order; an insertion goes
  behind the entries with an equal key.\<close>

fun mm_insert :: "int \<Rightarrow> 'v \<Rightarrow> (int \<times> 'v) list \<Rightarrow> (int \<times> 'v) list" where
  "mm_insert k v [] = [(k, v)]"
| "mm_insert k v ((k', v') # m) =
     (if k < k' then (k, v) # (k', v') # m else (k', v') # mm_insert k v m)"

section \<open>Queue operations\<close>

definition AddToTimerQueue :: "int \<Rightarrow> addr \<Rightarrow> csocket \<Rightarrow> csocket" where
  "AddToTimerQueue now a s =
     (let s = upd_conn a (\<lambda>c. c\<lparr>ping_update_time := now\<rparr>) s;
          m = mm_insert (now + m_waittime s)
                \<lparr>lp_curconn = a, msg_cursequence = sequence (conns s a)\<rparr> (m_timermap s)
      in s\<lparr>m_timermap := m, m_timer_value := fst (hd m), m_timermap_size := m_timermap_size s + 1\<rparr>)"

text \<open>\<open>if (m_timermap_size > 0) m_timer_value = m_timermap.begin()->first\<close>\<close>

definition refresh_timer_value :: "csocket \<Rightarrow> csocket" where
  "refresh_timer_value s =
     (if m_timermap_size s > 0 then s\<lparr>m_timer_value := fst (hd (m_timermap s))\<rparr> else s)"

definition RemoveTimerFrist :: "csocket \<Rightarrow> fault + (msg_header \<times> csocket)" where
  "RemoveTimerFrist s = (case m_timermap s of
      [] \<Rightarrow> Inl BadAccess
    | (_, h) # m \<Rightarrow> Inr (h, refresh_timer_value
         (s\<lparr>m_timermap := m, m_timermap_size := m_timermap_size s - 1\<rparr>)))"

definition GetOverTime :: "int \<Rightarrow> csocket \<Rightarrow> fault + (msg_header option \<times> csocket)" where
  "GetOverTime time s =
     (if m_timermap_size s = 0 \<or> m_timermap s = [] then Inr (None, s)
      else if fst (hd (m_timermap s)) \<le> time then
        bindE (RemoveTimerFrist s) (\<lambda>(h, s).
          Inr (Some h, refresh_timer_value
            (s\<lparr>m_timermap := mm_insert (time + m_waittime s) h (m_timermap s),
               m_timermap_size := m_timermap_size s + 1\<rparr>)))
      else Inr (None, s))"

text \<open>The loop erases every entry with the same connection and sequence.\<close>

fun erase_matching :: "msg_header \<Rightarrow> (int \<times> msg_header) list \<Rightarrow> size_t \<Rightarrow> (int \<times> msg_header) list \<times> size_t" where
  "erase_matching h [] n = ([], n)"
| "erase_matching h ((k, e) # m) n =
     (if lp_curconn e = lp_curconn h \<and> msg_cursequence e = msg_cursequence h
      then erase_matching h m (n - 1)
      else (let (m', n') = erase_matching h m n in ((k, e) # m', n')))"

definition DeleteFromTimerQueue :: "msg_header \<Rightarrow> csocket \<Rightarrow> csocket" where
  "DeleteFromTimerQueue h s =
     (if m_timermap_size s = 0 \<or> m_timermap s = [] then s
      else (let (m, n) = erase_matching h (m_timermap s) (m_timermap_size s)
            in refresh_timer_value (s\<lparr>m_timermap := m, m_timermap_size := n\<rparr>)))"

fun timermap_clean_loop :: "(int \<times> msg_header) list \<Rightarrow> size_t \<Rightarrow> (int \<times> msg_header) list \<times> size_t" where
  "timermap_clean_loop [] n = ([], n)"
| "timermap_clean_loop (_ # m) n = timermap_clean_loop m (n - 1)"

definition timermap_clean :: "csocket \<Rightarrow> csocket" where
  "timermap_clean s = (let (m, n) = timermap_clean_loop (m_timermap s) (m_timermap_size s)
     in s\<lparr>m_timermap := [], m_timermap_size := n\<rparr>)"

section \<open>Examining a connection\<close>

definition TimeOutProc :: "bool \<Rightarrow> bool \<Rightarrow> int \<Rightarrow> msg_header \<Rightarrow> csocket \<Rightarrow> fault + csocket" where
  "TimeOutProc ctl_ok close_ok now h s =
     close_accepted_connection ctl_ok close_ok now (lp_curconn h) True (DeleteFromTimerQueue h s)"

definition TimeCheckingProc ::
  "bool \<Rightarrow> bool \<Rightarrow> int \<Rightarrow> msg_header \<Rightarrow> int \<Rightarrow> csocket \<Rightarrow> fault + csocket" where
  "TimeCheckingProc ctl_ok close_ok now h cur_time s =
     (let c = conns s (lp_curconn h) in
      if \<not> judge_token c (msg_cursequence h) then Inr (DeleteFromTimerQueue h s)
      else if cur_time - ping_update_time c > 3 * m_waittime s then
        TimeOutProc ctl_ok close_ok now h (upd_conn (lp_curconn h) (\<lambda>c. c\<lparr>istimeout := True\<rparr>) s)
      else Inr s)"

section \<open>The thread\<close>

text \<open>\<open>while (ptmp_ptr = GetOverTime(cur_time)) list_toexam.push_back(ptmp_ptr)\<close>: a loop that
  may not end.\<close>

partial_function (option) collect_overtime ::
  "int \<Rightarrow> csocket \<Rightarrow> (fault + (msg_header list \<times> csocket)) option" where
  "collect_overtime time s = (case GetOverTime time s of
      Inl e \<Rightarrow> Some (Inl e)
    | Inr (None, s) \<Rightarrow> Some (Inr ([], s))
    | Inr (Some h, s) \<Rightarrow> Option.bind (collect_overtime time s) (\<lambda>r. Some (case r of
          Inl e \<Rightarrow> Inl e
        | Inr (hs, s) \<Rightarrow> Inr (h # hs, s))))"

fun exam_list :: "bool \<Rightarrow> bool \<Rightarrow> int \<Rightarrow> msg_header list \<Rightarrow> int \<Rightarrow> csocket \<Rightarrow> fault + csocket" where
  "exam_list ctl_ok close_ok now [] cur_time s = Inr s"
| "exam_list ctl_ok close_ok now (h # hs) cur_time s =
     bindE (TimeCheckingProc ctl_ok close_ok now h cur_time s)
       (exam_list ctl_ok close_ok now hs cur_time)"

text \<open>One pass of the loop of \<open>ServerTimerQueueThreadFunc\<close>, without the pauses.\<close>

definition timer_pass :: "bool \<Rightarrow> bool \<Rightarrow> int \<Rightarrow> csocket \<Rightarrow> (fault + csocket) option" where
  "timer_pass ctl_ok close_ok cur_time s =
     (if m_timer_value s > cur_time \<or> m_timermap_size s = 0 then Some (Inr s)
      else case collect_overtime cur_time s of
        None \<Rightarrow> None
      | Some (Inl e) \<Rightarrow> Some (Inl e)
      | Some (Inr (hs, s)) \<Rightarrow> Some (exam_list ctl_ok close_ok cur_time hs cur_time s))"

text \<open>The head of the loop and its three ways on: the thread ends (with its flag cleared), or it
  passes over the queue.\<close>

definition ServerTimerQueueThread_head ::
  "bool \<Rightarrow> thread_item \<Rightarrow> csocket \<Rightarrow> (thread_item, csocket) thread_next" where
  "ServerTimerQueueThread_head stopEvent t s =
     (if stopEvent \<or> ifshutdown t then Leave (t\<lparr>running := False\<rparr>) s
      else if m_TimeEnable s = 0 then Leave (t\<lparr>running := False\<rparr>) s
      else Go (if running t = False then t\<lparr>running := True\<rparr> else t) s)"

section \<open>The multimap stays ordered\<close>

lemma set_mm_insert [simp]: "set (mm_insert k v m) = insert (k, v) (set m)"
  by (induction m) (auto split: if_splits)

lemma length_mm_insert [simp]: "length (mm_insert k v m) = Suc (length m)"
  by (induction m) auto

lemma mm_insert_not_Nil [simp]: "mm_insert k v m \<noteq> []"
  by (cases m) (auto split: if_splits)

lemma sorted_mm_insert:
  "sorted (map fst m) \<Longrightarrow> sorted (map fst (mm_insert k v m))"
  by (induction m) (force split: if_splits)+

text \<open>An entry behind a bound leaves the entries up to the bound alone.\<close>

lemma takeWhile_mm_insert [simp]:
  "t < k \<Longrightarrow> takeWhile (\<lambda>e. fst e \<le> t) (mm_insert k v m) = takeWhile (\<lambda>e. fst e \<le> t) m"
  by (induction m) auto

lemma dropWhile_mm_insert [simp]:
  "t < k \<Longrightarrow> dropWhile (\<lambda>e. fst e \<le> t) (mm_insert k v m) =
     mm_insert k v (dropWhile (\<lambda>e. fst e \<le> t) m)"
  by (induction m) auto

definition requeue :: "int \<Rightarrow> 'v list \<Rightarrow> (int \<times> 'v) list \<Rightarrow> (int \<times> 'v) list" where
  "requeue k hs m = fold (mm_insert k) hs m"

lemma requeue_simps [simp]:
  "requeue k [] m = m" "requeue k (h # hs) m = requeue k hs (mm_insert k h m)"
  by (simp_all add: requeue_def)

lemma length_requeue [simp]: "length (requeue k hs m) = length hs + length m"
  by (induction hs arbitrary: m) simp_all

lemma set_requeue: "set (requeue k hs m) = Pair k ` set hs \<union> set m"
  by (induction hs arbitrary: m) auto

lemma sorted_requeue: "sorted (map fst m) \<Longrightarrow> sorted (map fst (requeue k hs m))"
  by (induction hs arbitrary: m) (simp_all add: sorted_mm_insert)

section \<open>The timer invariant\<close>

text \<open>The map is ordered by check time, the counter is its size, and \<open>m_timer_value\<close> is the first
  check time as long as there is one. The entries are objects in memory, so there are fewer than
  \<open>2^64\<close> of them.\<close>

definition timer_inv :: "csocket \<Rightarrow> bool" where
  "timer_inv s \<longleftrightarrow>
     sorted (map fst (m_timermap s)) \<and> length (m_timermap s) < 2 ^ 64 \<and>
     m_timermap_size s = of_nat (length (m_timermap s)) \<and>
     (m_timermap s \<noteq> [] \<longrightarrow> m_timer_value s = fst (hd (m_timermap s)))"

lemma of_nat_size_0 [simp]: "n < 2 ^ 64 \<Longrightarrow> (of_nat n :: size_t) = 0 \<longleftrightarrow> n = 0"
  by (auto simp: word_of_nat_eq_0_iff dest: dvd_imp_le)

lemma timer_inv_upd_conn [simp]: "timer_inv (upd_conn a f s) = timer_inv s"
  by (simp add: timer_inv_def)

lemma timer_inv_Add:
  assumes "timer_inv s" "length (m_timermap s) + 1 < 2 ^ 64"
  shows "timer_inv (AddToTimerQueue now a s)"
  using assms by (simp add: timer_inv_def AddToTimerQueue_def Let_def sorted_mm_insert add.commute)

section \<open>Collecting the entries that are due\<close>

lemma GetOverTime_due:
  assumes "m_timermap s = (k, h) # m" "k \<le> t"
    and "m_timermap_size s = of_nat (Suc (length m))" "Suc (length m) < 2 ^ 64"
  shows "GetOverTime t s = Inr (Some h, s\<lparr>
    m_timermap := mm_insert (t + m_waittime s) h m,
    m_timer_value := fst (hd (mm_insert (t + m_waittime s) h m))\<rparr>)"
proof -
  have "(of_nat (Suc (length m)) :: size_t) \<noteq> 0"
    using assms(4) of_nat_size_0 by blast
  then have "m_timermap_size s \<noteq> 0" "m_timermap_size s > 0" using assms by (simp_all add: word_gt_0)
  with assms(1,2) show ?thesis
    by (simp add: GetOverTime_def RemoveTimerFrist_def refresh_timer_value_def)
qed

lemma GetOverTime_none:
  "(\<And>k h m. m_timermap s = (k, h) # m \<Longrightarrow> t < k) \<Longrightarrow> GetOverTime t s = Inr (None, s)"
  by (cases "m_timermap s") (auto simp: GetOverTime_def)

lemma takeWhile_Nil_drop: "takeWhile P xs = [] \<Longrightarrow> dropWhile P xs = xs"
  by (cases xs) (auto split: if_splits)

abbreviation (input) due :: "int \<Rightarrow> (int \<times> msg_header) list \<Rightarrow> msg_header list" where
  "due t m \<equiv> map snd (takeWhile (\<lambda>e. fst e \<le> t) m)"

abbreviation (input) rescheduled :: "int \<Rightarrow> int \<Rightarrow> (int \<times> msg_header) list \<Rightarrow> (int \<times> msg_header) list" where
  "rescheduled t w m \<equiv> requeue (t + w) (due t m) (dropWhile (\<lambda>e. fst e \<le> t) m)"

text \<open>With a positive waiting time the loop ends and has taken exactly the due entries.\<close>

lemma collect_overtime_eq:
  assumes "m_waittime s > 0" "timer_inv s"
  shows "collect_overtime t s = Some (Inr (due t (m_timermap s), s\<lparr>
    m_timermap := rescheduled t (m_waittime s) (m_timermap s),
    m_timer_value := (if due t (m_timermap s) = [] then m_timer_value s
                      else fst (hd (rescheduled t (m_waittime s) (m_timermap s))))\<rparr>))"
  using assms
proof (induction "length (due t (m_timermap s))" arbitrary: s)
  case 0
  then have "takeWhile (\<lambda>e. fst e \<le> t) (m_timermap s) = []" by simp
  then have "\<And>k h m. m_timermap s = (k, h) # m \<Longrightarrow> t < k" by (auto split: if_splits)
  then have "GetOverTime t s = Inr (None, s)" by (rule GetOverTime_none)
  moreover have "dropWhile (\<lambda>e. fst e \<le> t) (m_timermap s) = m_timermap s"
    by (rule takeWhile_Nil_drop) fact
  ultimately show ?case using \<open>takeWhile _ _ = []\<close> by (subst collect_overtime.simps) simp
next
  case (Suc n)
  then obtain k h m where m: "m_timermap s = (k, h) # m" and k: "k \<le> t"
    by (cases "m_timermap s") (auto split: if_splits)
  let ?m = "mm_insert (t + m_waittime s) h m"
  let ?s = "s\<lparr>m_timermap := ?m, m_timer_value := fst (hd ?m)\<rparr>"
  have one: "GetOverTime t s = Inr (Some h, ?s)"
    by (rule GetOverTime_due [OF m k]) (use Suc.prems m in \<open>simp_all add: timer_inv_def\<close>)
  have w: "t < t + m_waittime s" using Suc.prems by simp
  have "timer_inv ?s"
    using Suc.prems m by (simp add: timer_inv_def sorted_mm_insert)
  moreover have "n = length (due t (m_timermap ?s))"
    using Suc.hyps(2) m k w by simp
  ultimately have "collect_overtime t ?s = Some (Inr (due t ?m, ?s\<lparr>
    m_timermap := rescheduled t (m_waittime s) ?m,
    m_timer_value := (if due t ?m = [] then m_timer_value ?s
                      else fst (hd (rescheduled t (m_waittime s) ?m)))\<rparr>))"
    using Suc.hyps(1) [of ?s] Suc.prems by simp
  then have rec: "collect_overtime t ?s = Some (Inr (due t m, ?s\<lparr>
    m_timermap := requeue (t + m_waittime s) (due t m) (mm_insert (t + m_waittime s) h (dropWhile (\<lambda>e. fst e \<le> t) m)),
    m_timer_value := (if due t m = [] then fst (hd ?m)
                      else fst (hd (requeue (t + m_waittime s) (due t m) (mm_insert (t + m_waittime s) h (dropWhile (\<lambda>e. fst e \<le> t) m)))))\<rparr>))"
    using w by simp
  have drop: "due t m = [] \<Longrightarrow> dropWhile (\<lambda>e. fst e \<le> t) m = m"
    by (cases m) (auto split: if_splits)
  show ?case
    using one rec m k drop by (subst collect_overtime.simps) auto
qed

text \<open>Without one, a due entry is collected for ever.\<close>

lemma collect_overtime_diverges:
  assumes w: "m_waittime s \<le> 0" and inv: "timer_inv s"
    and m: "m_timermap s \<noteq> []" "fst (hd (m_timermap s)) \<le> t"
  shows "collect_overtime t s = None"
proof (rule ccontr)
  assume "collect_overtime t s \<noteq> None"
  then obtain r where "collect_overtime t s = Some r" by blast
  then show False
    using w inv m
  proof (induction t s r rule: collect_overtime.raw_induct [rotated, consumes 1, case_names 1])
    case (1 collect t s r)
    from 1(5,6) obtain k h m where m: "m_timermap s = (k, h) # m" and k: "k \<le> t"
      by (cases "m_timermap s") auto
    let ?m = "mm_insert (t + m_waittime s) h m"
    let ?s = "s\<lparr>m_timermap := ?m, m_timer_value := fst (hd ?m)\<rparr>"
    have one: "GetOverTime t s = Inr (Some h, ?s)"
      by (rule GetOverTime_due [OF m k]) (use 1(4) m in \<open>simp_all add: timer_inv_def\<close>)
    from 1(2) one obtain r' where "collect t ?s = Some r'"
      by (auto simp: Option.bind_eq_Some_conv)
    moreover have "timer_inv ?s"
      using 1(4) m by (simp add: timer_inv_def sorted_mm_insert)
    moreover have "fst (hd ?m) \<le> t"
      using 1(3) by (cases m) auto
    ultimately show False using 1(1) [of t ?s r'] 1(3) by simp
  qed
qed

section \<open>Examining the collected entries\<close>

lemma msg_header_eq_iff:
  "(e :: msg_header) = h \<longleftrightarrow> lp_curconn e = lp_curconn h \<and> msg_cursequence e = msg_cursequence h"
  by (cases e; cases h) simp

lemma erase_matching_eq:
  "erase_matching h m n = (filter (\<lambda>e. snd e \<noteq> h) m,
     n - of_nat (length m - length (filter (\<lambda>e. snd e \<noteq> h) m)))"
proof (induction h m n rule: erase_matching.induct)
  case (2 h k e m n)
  have le: "length (filter (\<lambda>e. snd e \<noteq> h) m) \<le> length m" by (rule length_filter_le)
  show ?case
    using 2 le by (auto simp: msg_header_eq_iff [of e h] Suc_diff_le split: prod.splits)
qed simp

lemma erase_matching_size:
  "erase_matching h m (of_nat (length m)) =
     (filter (\<lambda>e. snd e \<noteq> h) m, of_nat (length (filter (\<lambda>e. snd e \<noteq> h) m)))"
  by (simp add: erase_matching_eq of_nat_diff length_filter_le)

lemma m_timermap_refresh [simp]: "m_timermap (refresh_timer_value s) = m_timermap s"
  by (simp add: refresh_timer_value_def)

lemma timer_inv_refresh:
  assumes "sorted (map fst (m_timermap s))" "length (m_timermap s) < 2 ^ 64"
    "m_timermap_size s = of_nat (length (m_timermap s))"
  shows "timer_inv (refresh_timer_value s)"
  using assms by (auto simp: timer_inv_def refresh_timer_value_def word_gt_0)

lemma Delete_timermap:
  "timer_inv s \<Longrightarrow> m_timermap (DeleteFromTimerQueue h s) = filter (\<lambda>e. snd e \<noteq> h) (m_timermap s)"
  by (auto simp: DeleteFromTimerQueue_def timer_inv_def erase_matching_size)

lemma timer_inv_Delete:
  assumes "timer_inv s"
  shows "timer_inv (DeleteFromTimerQueue h s)"
proof (cases "m_timermap s = []")
  case True
  with assms show ?thesis by (simp add: DeleteFromTimerQueue_def)
next
  case False
  have "length (filter (\<lambda>e. snd e \<noteq> h) (m_timermap s)) < 2 ^ 64"
    by (rule le_less_trans [OF length_filter_le]) (use assms in \<open>simp add: timer_inv_def\<close>)
  with assms have "timer_inv (refresh_timer_value (s\<lparr>m_timermap := filter (\<lambda>e. snd e \<noteq> h) (m_timermap s),
      m_timermap_size := of_nat (length (filter (\<lambda>e. snd e \<noteq> h) (m_timermap s)))\<rparr>))"
    by (intro timer_inv_refresh) (simp_all add: timer_inv_def sorted_filter)
  with assms False show ?thesis
    by (simp add: DeleteFromTimerQueue_def timer_inv_def erase_matching_size)
qed

lemma refresh_frame [simp]:
  "conns (refresh_timer_value s) = conns s"
  "m_waittime (refresh_timer_value s) = m_waittime s"
  "m_connectionList (refresh_timer_value s) = m_connectionList s"
  "m_free_connectionList (refresh_timer_value s) = m_free_connectionList s"
  "m_recy_connectionList (refresh_timer_value s) = m_recy_connectionList s"
  "m_total_connection_count (refresh_timer_value s) = m_total_connection_count s"
  "m_free_connection_count (refresh_timer_value s) = m_free_connection_count s"
  "m_recy_connection_count (refresh_timer_value s) = m_recy_connection_count s"
  "pool_inv (refresh_timer_value s) = pool_inv s"
  by (simp_all add: refresh_timer_value_def pool_inv_def)

lemma Delete_frame [simp]:
  "conns (DeleteFromTimerQueue h s) = conns s"
  "m_waittime (DeleteFromTimerQueue h s) = m_waittime s"
  "m_connectionList (DeleteFromTimerQueue h s) = m_connectionList s"
  "m_free_connectionList (DeleteFromTimerQueue h s) = m_free_connectionList s"
  "m_recy_connectionList (DeleteFromTimerQueue h s) = m_recy_connectionList s"
  "pool_inv (DeleteFromTimerQueue h s) = pool_inv s"
  by (simp_all add: DeleteFromTimerQueue_def pool_inv_def split: prod.splits)

lemma InRecy_timer [simp]:
  "m_timermap (InRecyConnQueue now a s) = m_timermap s"
  "m_timermap_size (InRecyConnQueue now a s) = m_timermap_size s"
  "m_timer_value (InRecyConnQueue now a s) = m_timer_value s"
  "m_waittime (InRecyConnQueue now a s) = m_waittime s"
  by (simp_all add: InRecyConnQueue_def)

lemma close_accepted_timer:
  assumes "close_accepted_connection ctl_ok close_ok now a t s = Inr s'"
  shows "m_timermap s' = m_timermap s" "m_waittime s' = m_waittime s" "timer_inv s' = timer_inv s"
  using assms
  by (auto simp: close_accepted_connection_cases timer_inv_def split: if_splits)

text \<open>The connection of an entry has been silent for too long, or the entry is not its own any more.\<close>

definition silent :: "int \<Rightarrow> csocket \<Rightarrow> addr \<Rightarrow> bool" where
  "silent t s a \<longleftrightarrow> t - ping_update_time (conns s a) > 3 * m_waittime s"

definition outdated :: "csocket \<Rightarrow> msg_header \<Rightarrow> bool" where
  "outdated s h \<longleftrightarrow> \<not> judge_token (conns s (lp_curconn h)) (msg_cursequence h)"

text \<open>The relation between the states before and after \<open>hs\<close> was examined.\<close>

definition examined :: "int \<Rightarrow> msg_header list \<Rightarrow> csocket \<Rightarrow> csocket \<Rightarrow> bool" where
  "examined t hs s s' \<longleftrightarrow>
     m_timermap s' = filter (\<lambda>e. \<not> (snd e \<in> set hs \<and>
        (outdated s (snd e) \<or> silent t s (lp_curconn (snd e))))) (m_timermap s) \<and>
     (\<forall>a. if \<exists>h \<in> set hs. lp_curconn h = a \<and> \<not> outdated s h \<and> silent t s a
          then fd (conns s' a) = -1 \<and> inrecyList (conns s' a) = 1 \<and> a \<in> set (m_recy_connectionList s')
          else conns s' a = conns s a) \<and>
     set (m_recy_connectionList s) \<subseteq> set (m_recy_connectionList s') \<and>
     (\<forall>a. ping_update_time (conns s' a) = ping_update_time (conns s a)) \<and>
     m_waittime s' = m_waittime s \<and> m_connectionList s' = m_connectionList s"

lemma examined_timermap:
  "examined t hs s s' \<Longrightarrow> m_timermap s' = filter (\<lambda>e. \<not> (snd e \<in> set hs \<and>
        (outdated s (snd e) \<or> silent t s (lp_curconn (snd e))))) (m_timermap s)"
  by (simp add: examined_def)

lemma examined_conns:
  "examined t hs s s' \<Longrightarrow>
     \<forall>a. if \<exists>h \<in> set hs. lp_curconn h = a \<and> \<not> outdated s h \<and> silent t s a
          then fd (conns s' a) = -1 \<and> inrecyList (conns s' a) = 1 \<and> a \<in> set (m_recy_connectionList s')
          else conns s' a = conns s a"
  by (simp add: examined_def)

lemma examined_refl: "examined t [] s s"
  by (simp add: examined_def)

lemma judge_tokenD: "judge_token c q \<Longrightarrow> 0 < fd c \<and> inrecyList c \<noteq> 1"
  by (simp add: judge_token_iff)

lemma judge_token_closed: "fd c = -1 \<Longrightarrow> \<not> judge_token c q"
  by (simp add: judge_token_iff)

lemma TimeCheckingProc_examined:
  assumes "timer_inv s" "pool_inv s"
  shows "\<exists>s'. TimeCheckingProc ctl_ok True now h t s = Inr s' \<and> examined t [h] s s' \<and> timer_inv s' \<and>
    (lp_curconn h \<in> set (m_connectionList s) \<longrightarrow> pool_inv s')"
proof (cases "outdated s h")
  case True
  have "examined t [h] s (DeleteFromTimerQueue h s)"
    using True assms by (auto simp: examined_def Delete_timermap intro!: filter_cong)
  with True assms show ?thesis
    by (simp add: TimeCheckingProc_def Let_def outdated_def timer_inv_Delete)
next
  case fresh: False
  let ?a = "lp_curconn h"
  show ?thesis
  proof (cases "silent t s ?a")
    case False
    then have "examined t [h] s s"
      using fresh by (auto simp: examined_def intro!: filter_True [symmetric])
    with False fresh assms show ?thesis
      by (auto simp: TimeCheckingProc_def Let_def outdated_def silent_def)
  next
    case True
    from fresh have fd: "0 < fd (conns s ?a)" "inrecyList (conns s ?a) \<noteq> 1"
      by (auto simp: outdated_def dest: judge_tokenD)
    with assms(2) have notrecy: "?a \<notin> set (m_recy_connectionList s)"
      and notfree: "?a \<notin> set (m_free_connectionList s)"
      by (auto simp: pool_inv_def)
    let ?s1 = "DeleteFromTimerQueue h (upd_conn ?a (\<lambda>c. c\<lparr>istimeout := True\<rparr>) s)"
    obtain s' where s': "close_accepted_connection ctl_ok True now ?a True ?s1 = Inr s'"
      using close_accepted_connection_total by blast
    have run: "TimeCheckingProc ctl_ok True now h t s = Inr s'"
      using True fresh s' by (simp add: TimeCheckingProc_def TimeOutProc_def Let_def outdated_def silent_def)
    have s1: "pool_inv ?s1" "timer_inv ?s1"
      using assms notrecy notfree by (simp_all add: pool_inv_upd_conn timer_inv_Delete)
    have map': "m_timermap s' = filter (\<lambda>e. snd e \<noteq> h) (m_timermap s)"
      using close_accepted_timer(1) [OF s'] assms(1) by (simp add: Delete_timermap)
    have closed: "fd (conns s' ?a) = -1" "m_recy_connectionList s' = m_recy_connectionList s @ [?a]"
        "inrecyList (conns s' ?a) = 1"
      using close_accepted_connection_closes [OF s'] fd notrecy by auto
    have same: "conns s' b = conns s b" if "b \<noteq> ?a" for b
      using close_accepted_connection_conns(1) [OF s' that] that by simp
    have ping: "ping_update_time (conns s' ?a) = ping_update_time (conns s ?a)"
      using s' by (auto simp: close_accepted_connection_cases InRecyConnQueue_def split: if_splits)
    have "ping_update_time (conns s' b) = ping_update_time (conns s b)" for b
      using ping same [of b] by (cases "b = ?a") simp_all
    moreover have "m_waittime s' = m_waittime s" "m_connectionList s' = m_connectionList s"
      using close_accepted_timer(2) [OF s'] close_accepted_connection_conns(3) [OF s'] by simp_all
    moreover have "if \<exists>h' \<in> set [h]. lp_curconn h' = b \<and> \<not> outdated s h' \<and> silent t s b
          then fd (conns s' b) = -1 \<and> inrecyList (conns s' b) = 1 \<and> b \<in> set (m_recy_connectionList s')
          else conns s' b = conns s b" for b
      using closed True fresh same by (cases "b = ?a") simp_all
    moreover have "m_timermap s' = filter (\<lambda>e. \<not> (snd e \<in> set [h] \<and>
        (outdated s (snd e) \<or> silent t s (lp_curconn (snd e))))) (m_timermap s)"
      unfolding map' using True by (intro filter_cong) auto
    ultimately have "examined t [h] s s'"
      using closed unfolding examined_def by auto
    moreover have "timer_inv s'"
      using close_accepted_timer(3) [OF s'] s1 by simp
    moreover have "pool_inv s'" if "?a \<in> set (m_connectionList s)"
      by (rule pool_inv_close_accepted [OF s1(1) _ s']) (use that in simp)
    ultimately show ?thesis using run by blast
  qed
qed

lemma examined_single_conns:
  assumes "examined t [h] s s1"
  shows "(\<not> outdated s h \<and> silent t s (lp_curconn h) \<and> fd (conns s1 (lp_curconn h)) = -1 \<and>
            inrecyList (conns s1 (lp_curconn h)) = 1 \<and>
            lp_curconn h \<in> set (m_recy_connectionList s1) \<and>
            (\<forall>b. b \<noteq> lp_curconn h \<longrightarrow> conns s1 b = conns s b)) \<or>
         (\<not> (\<not> outdated s h \<and> silent t s (lp_curconn h)) \<and> conns s1 = conns s)"
proof (cases "\<not> outdated s h \<and> silent t s (lp_curconn h)")
  case True
  have "conns s1 b = conns s b" if "b \<noteq> lp_curconn h" for b
    using assms that unfolding examined_def by (metis list.set_intros(1) list.set_cases set_ConsD empty_iff list.set(1))
  with True assms show ?thesis by (simp add: examined_def)
next
  case False
  have "conns s1 b = conns s b" for b
    using assms False by (auto simp: examined_def split: if_splits)
  with False show ?thesis by blast
qed

lemma examined_silent: "examined t hs s s1 \<Longrightarrow> silent t s1 a = silent t s a"
  by (simp add: examined_def silent_def)

lemma outdated_closed: "fd (conns s (lp_curconn h)) = -1 \<Longrightarrow> outdated s h"
  by (simp add: outdated_def judge_token_closed)

lemma outdated_cong: "conns s' (lp_curconn h) = conns s (lp_curconn h) \<Longrightarrow> outdated s' h = outdated s h"
  by (simp add: outdated_def)

lemma examined_removed:
  assumes "examined t [h] s s1"
  shows "outdated s1 e \<or> silent t s1 (lp_curconn e) \<longleftrightarrow> outdated s e \<or> silent t s (lp_curconn e)"
  using examined_single_conns [OF assms] examined_silent [OF assms, of "lp_curconn e"]
    outdated_cong [of s1 e s] outdated_closed [of s1 e]
  by (cases "lp_curconn e = lp_curconn h") auto

lemma examined_Cons:
  assumes first: "examined t [h] s s1" and rest: "examined t hs s1 s'"
  shows "examined t (h # hs) s s'"
proof -
  let ?hit = "\<lambda>s hs a. \<exists>h \<in> set hs. lp_curconn h = a \<and> \<not> outdated s h \<and> silent t s a"
  have "m_timermap s' = filter (\<lambda>e. \<not> (snd e \<in> set (h # hs) \<and>
        (outdated s (snd e) \<or> silent t s (lp_curconn (snd e))))) (m_timermap s)"
    using first rest examined_removed [OF first]
    by (auto simp: examined_def intro!: filter_cong)
  moreover have "if ?hit s (h # hs) a
          then fd (conns s' a) = -1 \<and> inrecyList (conns s' a) = 1 \<and> a \<in> set (m_recy_connectionList s')
          else conns s' a = conns s a" for a
  proof (cases "conns s1 a = conns s a")
    case True
    then have same: "?hit s1 hs a = ?hit s hs a"
      using examined_silent [OF first] outdated_cong by metis
    have no: "\<not> (lp_curconn h = a \<and> \<not> outdated s h \<and> silent t s a)"
      using examined_single_conns [OF first] True judge_token_closed [of "conns s a"]
      by (auto simp: outdated_def)
    then have "?hit s (h # hs) a = ?hit s1 hs a" using same by auto
    with rest True show ?thesis unfolding examined_def by simp
  next
    case False
    with examined_single_conns [OF first] have a: "lp_curconn h = a" by metis
    with False examined_single_conns [OF first]
    have hit: "lp_curconn h = a" "\<not> outdated s h" "silent t s a" "fd (conns s1 a) = -1"
        "inrecyList (conns s1 a) = 1" "a \<in> set (m_recy_connectionList s1)" by auto
    then have "\<not> ?hit s1 hs a" using outdated_closed by metis
    with rest have "conns s' a = conns s1 a" "a \<in> set (m_recy_connectionList s')"
      using hit(6) by (auto simp: examined_def)
    with hit show ?thesis by simp
  qed
  moreover have "set (m_recy_connectionList s) \<subseteq> set (m_recy_connectionList s')"
    using first rest by (auto simp: examined_def)
  ultimately show ?thesis using first rest by (simp add: examined_def)
qed

lemma exam_list_examined:
  assumes "timer_inv s" "pool_inv s" "\<forall>h \<in> set hs. lp_curconn h \<in> set (m_connectionList s)"
  shows "\<exists>s'. exam_list ctl_ok True now hs t s = Inr s' \<and> examined t hs s s' \<and> timer_inv s' \<and> pool_inv s'"
  using assms
proof (induction hs arbitrary: s)
  case Nil
  then show ?case by (simp add: examined_refl)
next
  case (Cons h hs)
  from TimeCheckingProc_examined [OF Cons.prems(1,2), of ctl_ok now h t] Cons.prems(3)
  obtain s1 where s1: "TimeCheckingProc ctl_ok True now h t s = Inr s1" "examined t [h] s s1"
    "timer_inv s1" "pool_inv s1" by auto
  have "\<forall>h \<in> set hs. lp_curconn h \<in> set (m_connectionList s1)"
    using Cons.prems(3) s1(2) by (simp add: examined_def)
  from Cons.IH [OF s1(3,4) this] obtain s' where s': "exam_list ctl_ok True now hs t s1 = Inr s'"
    "examined t hs s1 s'" "timer_inv s'" "pool_inv s'" by blast
  with s1 examined_Cons [OF s1(2) s'(2)] show ?case by simp
qed

section \<open>A pass over the queue\<close>

definition timer_conns :: "csocket \<Rightarrow> bool" where
  "timer_conns s \<longleftrightarrow> (\<forall>e \<in> set (m_timermap s). lp_curconn (snd e) \<in> set (m_connectionList s))"

lemma due_rescheduled:
  "set (due t m) \<subseteq> snd ` set m" "snd ` set (rescheduled t w m) = snd ` set m"
proof -
  have *: "set m = set (takeWhile (\<lambda>e. fst e \<le> t) m) \<union> set (dropWhile (\<lambda>e. fst e \<le> t) m)"
    by (metis set_append takeWhile_dropWhile_id)
  show "set (due t m) \<subseteq> snd ` set m" by (subst *) auto
  show "snd ` set (rescheduled t w m) = snd ` set m"
    unfolding * by (auto simp: set_requeue image_Un image_image)
qed

lemma due_sorted:
  assumes "timer_inv s" "(k, h) \<in> set (m_timermap s)" "k \<le> t"
  shows "h \<in> set (due t (m_timermap s))"
proof -
  have "sorted (map fst m) \<Longrightarrow> (k, h) \<in> set m \<Longrightarrow> (k, h) \<in> set (takeWhile (\<lambda>e. fst e \<le> t) m)" for m
    using assms(3) by (induction m) force+
  with assms(1,2) show ?thesis by (force simp: timer_inv_def)
qed

text \<open>The shortcut of the thread skips a queue in which nothing is due.\<close>

lemma shortcut_not_due:
  assumes "timer_inv s" "m_timer_value s > t \<or> m_timermap_size s = 0"
  shows "takeWhile (\<lambda>e. fst e \<le> t) (m_timermap s) = []"
  using assms by (cases "m_timermap s") (auto simp: timer_inv_def simp del: of_nat_Suc)

lemma timer_inv_rescheduled:
  assumes "timer_inv s" "due t (m_timermap s) \<noteq> []"
  shows "timer_inv (s\<lparr>m_timermap := rescheduled t w (m_timermap s),
    m_timer_value := fst (hd (rescheduled t w (m_timermap s)))\<rparr>)"
proof -
  have "length (takeWhile (\<lambda>e. fst e \<le> t) (m_timermap s)) + length (dropWhile (\<lambda>e. fst e \<le> t) (m_timermap s))
      = length (m_timermap s)"
    by (metis length_append takeWhile_dropWhile_id)
  moreover have "sorted (map fst (dropWhile (\<lambda>e. fst e \<le> t) (m_timermap s)))"
    using assms(1) sorted_dropWhile [of "map fst (m_timermap s)" "\<lambda>k. k \<le> t"]
    by (simp add: timer_inv_def dropWhile_map comp_def)
  ultimately show ?thesis
    using assms(1) by (simp add: timer_inv_def sorted_requeue flip: of_nat_add)
qed

lemma timer_pass_examined:
  assumes inv: "timer_inv s" "pool_inv s" "timer_conns s" and w: "m_waittime s > 0"
  shows "\<exists>s' s1. timer_pass ctl_ok True t s = Some (Inr s') \<and> timer_inv s' \<and> pool_inv s' \<and>
    examined t (due t (m_timermap s)) s1 s' \<and> conns s1 = conns s \<and> m_waittime s1 = m_waittime s \<and>
    m_recy_connectionList s1 = m_recy_connectionList s \<and> m_connectionList s1 = m_connectionList s \<and>
    m_timermap s1 = rescheduled t (m_waittime s) (m_timermap s)"
proof (cases "due t (m_timermap s) = []")
  case True
  then have tw: "takeWhile (\<lambda>e. fst e \<le> t) (m_timermap s) = []" by simp
  from collect_overtime_eq [OF w inv(1), of t] True
  have "timer_pass ctl_ok True t s = Some (Inr s)"
    by (simp add: timer_pass_def takeWhile_Nil_drop [OF tw] tw)
  with inv show ?thesis
    by (auto simp: tw takeWhile_Nil_drop [OF tw] intro!: exI [of _ s] examined_refl)
next
  case False
  let ?m = "rescheduled t (m_waittime s) (m_timermap s)"
  let ?s1 = "s\<lparr>m_timermap := ?m, m_timer_value := fst (hd ?m)\<rparr>"
  from False shortcut_not_due [OF inv(1), of t]
  have go: "\<not> (m_timer_value s > t \<or> m_timermap_size s = 0)" by auto
  have pass: "timer_pass ctl_ok True t s =
      Some (exam_list ctl_ok True t (due t (m_timermap s)) t ?s1)"
    using go False collect_overtime_eq [OF w inv(1), of t] unfolding timer_pass_def by simp
  have inv1: "timer_inv ?s1" "pool_inv ?s1"
    using timer_inv_rescheduled [OF inv(1) False] inv(2) by (simp_all add: pool_inv_def)
  have "\<forall>h \<in> set (due t (m_timermap s)). lp_curconn h \<in> set (m_connectionList ?s1)"
    using inv(3) due_rescheduled(1) [of t "m_timermap s"] by (fastforce simp: timer_conns_def)
  from exam_list_examined [OF inv1 this, of ctl_ok t t] obtain s' where
    "exam_list ctl_ok True t (due t (m_timermap s)) t ?s1 = Inr s'"
    "examined t (due t (m_timermap s)) ?s1 s'" "timer_inv s'" "pool_inv s'" by blast
  with pass show ?thesis by (intro exI [of _ s'] exI [of _ ?s1]) simp
qed

section \<open>Properties\<close>

text \<open>Two connections, one of them silent since time 0, the other heard from at time 90.\<close>

definition timer_example :: csocket where
  "timer_example = (CSocket_new ((\<lambda>_. zero_connection)
       (1 := zero_connection\<lparr>fd := 7, sequence := 1\<rparr>,
        2 := zero_connection\<lparr>fd := 8, sequence := 3, ping_update_time := 90\<rparr>)))
     \<lparr>m_connectionList := [1, 2], m_total_connection_count := 2, m_online_count := 2, m_TimeEnable := 1,
      m_timermap := [(40, \<lparr>lp_curconn = 1, msg_cursequence = 1\<rparr>),
                     (50, \<lparr>lp_curconn = 2, msg_cursequence = 3\<rparr>)],
      m_timermap_size := 2, m_timer_value := 40\<rparr>"

lemma timer_example_inv:
  "timer_inv timer_example" "pool_inv timer_example" "timer_conns timer_example"
  "m_waittime timer_example = 10"
  "m_timermap timer_example = [(40, \<lparr>lp_curconn = 1, msg_cursequence = 1\<rparr>),
                     (50, \<lparr>lp_curconn = 2, msg_cursequence = 3\<rparr>)]"
  by (simp_all add: timer_inv_def pool_inv_def timer_conns_def timer_example_def CSocket_new_def)

lemma timer_example_conns:
  "\<not> outdated timer_example \<lparr>lp_curconn = 1, msg_cursequence = 1\<rparr>"
  "\<not> outdated timer_example \<lparr>lp_curconn = 2, msg_cursequence = 3\<rparr>"
  "silent 100 timer_example 1" "\<not> silent 100 timer_example 2"
  by (simp_all add: outdated_def silent_def judge_token_exact timer_example_def CSocket_new_def
      zero_connection_def)

text \<open>C14. One pass of the timer thread returns, and it changes exactly this: every due entry is
  re-inserted at the current time plus the waiting time, unless it is outdated or its connection
  was silent for more than three waiting times, in which case it disappears; the silent
  connections are closed and queued for recycling, no other connection is touched, and the
  invariants of the timer and of the pool hold again.\<close>

theorem timer_pass_effect:
  assumes "timer_inv s" "pool_inv s" "timer_conns s" "m_waittime s > 0"
  shows "\<exists>s'. timer_pass ctl_ok True t s = Some (Inr s') \<and>
    (let hs = map snd (takeWhile (\<lambda>e. fst e \<le> t) (m_timermap s));
         later = dropWhile (\<lambda>e. fst e \<le> t) (m_timermap s)
     in m_timermap s' = filter (\<lambda>e. \<not> (snd e \<in> set hs \<and>
            (outdated s (snd e) \<or> silent t s (lp_curconn (snd e)))))
          (fold (mm_insert (t + m_waittime s)) hs later) \<and>
        (\<forall>a. if \<exists>h \<in> set hs. lp_curconn h = a \<and> \<not> outdated s h \<and> silent t s a
             then fd (conns s' a) = -1 \<and> inrecyList (conns s' a) = 1 \<and>
                  a \<in> set (m_recy_connectionList s')
             else conns s' a = conns s a)) \<and>
    timer_inv s' \<and> pool_inv s' \<and> timer_conns s'"
proof -
  from timer_pass_examined [OF assms, of ctl_ok t] obtain s' s1 where
    run: "timer_pass ctl_ok True t s = Some (Inr s')" "timer_inv s'" "pool_inv s'" and
    ex: "examined t (due t (m_timermap s)) s1 s'" and
    s1: "conns s1 = conns s" "m_waittime s1 = m_waittime s"
      "m_recy_connectionList s1 = m_recy_connectionList s" "m_connectionList s1 = m_connectionList s"
      "m_timermap s1 = rescheduled t (m_waittime s) (m_timermap s)" by blast
  have same: "outdated s1 = outdated s" "silent t s1 = silent t s"
    using s1 by (auto simp: outdated_def silent_def)
  have sub: "snd ` set (m_timermap s') \<subseteq> snd ` set (m_timermap s)"
    unfolding examined_timermap [OF ex] due_rescheduled(2) [of t "m_waittime s" "m_timermap s", symmetric]
      s1(5) [symmetric] by auto
  have "m_connectionList s' = m_connectionList s"
    using ex s1(4) by (simp add: examined_def)
  with sub assms(3) have "timer_conns s'" unfolding timer_conns_def by fastforce
  moreover note ex [THEN examined_timermap, unfolded s1(5) same requeue_def]
    ex [THEN examined_conns, unfolded s1(1) same]
  ultimately show ?thesis
    using run by (intro exI [of _ s']) (simp only: Let_def simp_thms)
qed

theorem timer_pass_effect_witness:
  "\<exists>s'. timer_pass True True 100 timer_example = Some (Inr s') \<and> timer_inv s' \<and>
     m_timermap s' = [(110, \<lparr>lp_curconn = 2, msg_cursequence = 3\<rparr>)]"
  using timer_pass_effect [OF timer_example_inv(1-3), of True 100]
  by (auto simp: timer_example_inv timer_example_conns)

text \<open>A connection that holds a due entry and was silent for more than three waiting times is
  closed by the next pass, waits in the recycle queue, and leaves no entry in the timer queue.\<close>

theorem silent_connection_closed:
  assumes "timer_inv s" "pool_inv s" "timer_conns s" "m_waittime s > 0"
    and "(k, h) \<in> set (m_timermap s)" "k \<le> t" "\<not> outdated s h" "silent t s (lp_curconn h)"
  shows "\<exists>s'. timer_pass ctl_ok True t s = Some (Inr s') \<and> fd (conns s' (lp_curconn h)) = -1 \<and>
    lp_curconn h \<in> set (m_recy_connectionList s') \<and> h \<notin> snd ` set (m_timermap s')"
proof -
  have due_h: "h \<in> set (due t (m_timermap s))"
    using assms(1,5,6) by (rule due_sorted)
  from timer_pass_examined [OF assms(1-4), of ctl_ok t] obtain s' s1 where
    run: "timer_pass ctl_ok True t s = Some (Inr s')" and
    ex: "examined t (due t (m_timermap s)) s1 s'" and
    s1: "conns s1 = conns s" "m_waittime s1 = m_waittime s" by blast
  have "\<not> outdated s1 h" "silent t s1 (lp_curconn h)"
    using assms(7,8) s1 by (auto simp: outdated_def silent_def)
  with due_h have "\<exists>h' \<in> set (due t (m_timermap s)). lp_curconn h' = lp_curconn h \<and>
      \<not> outdated s1 h' \<and> silent t s1 (lp_curconn h)" by blast
  with examined_conns [OF ex, rule_format, of "lp_curconn h"]
  have "fd (conns s' (lp_curconn h)) = -1" "lp_curconn h \<in> set (m_recy_connectionList s')" by simp_all
  moreover have "h \<notin> snd ` set (m_timermap s')"
    unfolding examined_timermap [OF ex] using due_h \<open>silent t s1 (lp_curconn h)\<close>
    by (auto simp del: set_map)
  ultimately show ?thesis using run by blast
qed

theorem silent_connection_closed_witness:
  "\<exists>s'. timer_pass True True 100 timer_example = Some (Inr s') \<and> fd (conns s' 1) = -1 \<and>
     1 \<in> set (m_recy_connectionList s')"
  using silent_connection_closed [OF timer_example_inv(1-3), of 40 "\<lparr>lp_curconn = 1, msg_cursequence = 1\<rparr>" 100 True]
  by (auto simp: timer_example_inv timer_example_conns)

text \<open>A connection heard from within three waiting times is left alone by a pass, and if its
  entry was due it is looked at again one waiting time later.\<close>

theorem active_connection_kept:
  assumes "timer_inv s" "pool_inv s" "timer_conns s" "m_waittime s > 0"
    and "t - ping_update_time (conns s a) \<le> 3 * m_waittime s"
  shows "\<exists>s'. timer_pass ctl_ok True t s = Some (Inr s') \<and> conns s' a = conns s a \<and>
    (\<forall>k h. (k, h) \<in> set (m_timermap s) \<longrightarrow> k \<le> t \<longrightarrow> lp_curconn h = a \<longrightarrow>
       judge_token (conns s a) (msg_cursequence h) \<longrightarrow> (t + m_waittime s, h) \<in> set (m_timermap s'))"
proof -
  from timer_pass_examined [OF assms(1-4), of ctl_ok t] obtain s' s1 where
    run: "timer_pass ctl_ok True t s = Some (Inr s')" and
    ex: "examined t (due t (m_timermap s)) s1 s'" and
    s1: "conns s1 = conns s" "m_waittime s1 = m_waittime s"
      "m_timermap s1 = rescheduled t (m_waittime s) (m_timermap s)" by blast
  have quiet: "\<not> silent t s1 a" using assms(5) s1 by (simp add: silent_def)
  then have "conns s' a = conns s a" using ex s1(1) unfolding examined_def by auto
  moreover have "(t + m_waittime s, h) \<in> set (m_timermap s')"
    if "(k, h) \<in> set (m_timermap s)" "k \<le> t" "lp_curconn h = a" "judge_token (conns s a) (msg_cursequence h)"
    for k h
  proof -
    have "h \<in> set (due t (m_timermap s))" using assms(1) that(1,2) by (rule due_sorted)
    then have "(t + m_waittime s, h) \<in> set (m_timermap s1)" by (simp add: s1(3) set_requeue)
    moreover have "\<not> outdated s1 h" using that s1(1) by (simp add: outdated_def)
    ultimately show ?thesis using ex quiet that(3) by (simp add: examined_def)
  qed
  ultimately show ?thesis using run by blast
qed

theorem active_connection_kept_witness:
  "\<exists>s'. timer_pass True True 100 timer_example = Some (Inr s') \<and>
     conns s' 2 = conns timer_example 2 \<and> (110, \<lparr>lp_curconn = 2, msg_cursequence = 3\<rparr>) \<in> set (m_timermap s')"
  using active_connection_kept [OF timer_example_inv(1-3), of 100 2 True]
    timer_example_conns(2,4)
  by (auto simp: timer_example_inv outdated_def silent_def)

text \<open>C24. The loop that collects the due entries ends exactly when the waiting time is positive or
  nothing is due; otherwise it re-inserts the same entry for ever.\<close>

theorem collect_overtime_terminates_iff:
  assumes "timer_inv s"
  shows "(\<exists>r. collect_overtime t s = Some r) \<longleftrightarrow>
    0 < m_waittime s \<or> m_timermap s = [] \<or> t < fst (hd (m_timermap s))"
proof (cases "0 < m_waittime s")
  case True
  with collect_overtime_eq [OF True assms] show ?thesis by blast
next
  case False
  show ?thesis
  proof (cases "m_timermap s = [] \<or> t < fst (hd (m_timermap s))")
    case True
    then have "GetOverTime t s = Inr (None, s)" by (auto intro: GetOverTime_none)
    with True show ?thesis by (subst collect_overtime.simps) auto
  next
    case due: False
    with False collect_overtime_diverges [OF _ assms, of t] show ?thesis by auto
  qed
qed

theorem collect_overtime_terminates_iff_witness:
  "(\<exists>r. collect_overtime 100 timer_example = Some r) \<and>
   \<not> (\<exists>r. collect_overtime 100 (timer_example\<lparr>m_waittime := 0\<rparr>) = Some r)"
proof -
  have "timer_inv (timer_example\<lparr>m_waittime := 0\<rparr>)"
    using timer_example_inv(1) by (simp add: timer_inv_def)
  from collect_overtime_terminates_iff [OF this, of 100]
    collect_overtime_terminates_iff [OF timer_example_inv(1), of 100]
  show ?thesis by (simp add: timer_example_inv)
qed

end
