(* ===== verification/ThreadPool.thy ===== *)
theory ThreadPool
  imports Interfaces
begin

text \<open>
  The message queue and the workers of \<open>CThreadPool\<close> (\<open>threadpool/c_threadpool.cxx\<close>). Queue
  entries are smart pointers: a null pointer is \<open>None\<close>. A region under the mutex is one step, and so is
  each change of an atomic counter or of a thread's own message behind it; between any two of them
  other threads act.
\<close>

section \<open>State\<close>

type_synonym msg_ptr = "byte list option"

text \<open>\<open>CThreadPool::ThreadItem\<close>; \<open>msg_ptr\<close> holds the message while it is processed.\<close>

record pool_thread = thread_item +
  msg_held :: msg_ptr

record threadpool =
  m_iCreateThread :: int
  m_msgqueue :: "msg_ptr list"
  m_msgqueue_size :: size_t
  m_iRunningThread :: int
  m_shutdown :: bool
  m_threadvec :: "pool_thread list"

definition ThreadItem_new :: pool_thread where
  "ThreadItem_new = \<lparr>running = False, ifshutdown = False, msg_held = None\<rparr>"

definition CThreadPool_new :: threadpool where
  "CThreadPool_new = \<lparr>m_iCreateThread = 10, m_msgqueue = [], m_msgqueue_size = 0,
     m_iRunningThread = 0, m_shutdown = False, m_threadvec = []\<rparr>"

section \<open>Queue operations\<close>

definition get_msg_item :: "threadpool \<Rightarrow> msg_ptr \<times> threadpool" where
  "get_msg_item p = (case m_msgqueue p of
      [] \<Rightarrow> (None, p)
    | m # q \<Rightarrow> (m, p\<lparr>m_msgqueue := q, m_msgqueue_size := m_msgqueue_size p - 1\<rparr>))"

text \<open>The wake-up \<open>Call\<close> signals the condition and tests for a backlog, for which nothing is done.\<close>

definition Call :: "threadpool \<Rightarrow> threadpool" where
  "Call p = (if m_iRunningThread p \<ge> m_iCreateThread p \<and> m_msgqueue p \<noteq> [] then p else p)"

lemma Call_id [simp]: "Call p = p"
  by (simp add: Call_def)

definition InMsgRecv :: "msg_ptr \<Rightarrow> threadpool \<Rightarrow> threadpool" where
  "InMsgRecv msg p =
     Call (p\<lparr>m_msgqueue := m_msgqueue p @ [msg], m_msgqueue_size := m_msgqueue_size p + 1\<rparr>)"

section \<open>Starting and stopping\<close>

text \<open>\<open>ReadConf\<close>; \<open>n\<close> is the configured value of \<open>ThreadNum\<close>, the old value being its default.\<close>

definition CThreadPool_ReadConf :: "(string \<Rightarrow> int \<Rightarrow> int) \<Rightarrow> threadpool \<Rightarrow> threadpool" where
  "CThreadPool_ReadConf GetInt p = p\<lparr>m_iCreateThread := GetInt ''ThreadNum'' (m_iCreateThread p)\<rparr>"

definition CThreadPool_Initialize_SubProc :: "(string \<Rightarrow> int \<Rightarrow> int) \<Rightarrow> threadpool \<Rightarrow> threadpool" where
  "CThreadPool_Initialize_SubProc GetInt p = CThreadPool_ReadConf GetInt p"

text \<open>\<open>ok\<close> is the answer of \<open>pthread_create\<close>; a failure ends the process.\<close>

definition init_thread_item :: "bool \<Rightarrow> fault + unit" where
  "init_thread_item ok = (if \<not> ok then Inl (ProcExit (-1)) else Inr ())"

text \<open>The loop of \<open>Create\<close>: \<open>ok i\<close> is the answer in round \<open>i\<close>. Waiting for the threads to run is
  \<open>all_running\<close>.\<close>

fun create_threads :: "(nat \<Rightarrow> bool) \<Rightarrow> nat \<Rightarrow> nat \<Rightarrow> threadpool \<Rightarrow> fault + threadpool" where
  "create_threads ok i 0 p = Inr p"
| "create_threads ok i (Suc n) p =
     bindE (init_thread_item (ok i)) (\<lambda>_.
       create_threads ok (i + 1) n (p\<lparr>m_threadvec := m_threadvec p @ [ThreadItem_new]\<rparr>))"

definition Create :: "(nat \<Rightarrow> bool) \<Rightarrow> threadpool \<Rightarrow> fault + threadpool" where
  "Create ok p = create_threads ok 0 (nat (m_iCreateThread p)) p"

definition all_running :: "threadpool \<Rightarrow> bool" where
  "all_running p \<longleftrightarrow> list_all running (m_threadvec p)"

text \<open>The first part of \<open>StopAll\<close>, up to the loop that waits until no thread is running.\<close>

definition StopAll_request :: "threadpool \<Rightarrow> bool \<times> threadpool" where
  "StopAll_request p =
     (if m_shutdown p then (False, p)
      else (True, p\<lparr>m_shutdown := True,
                    m_threadvec := map (\<lambda>t. t\<lparr>ifshutdown := True\<rparr>) (m_threadvec p)\<rparr>))"

definition none_running :: "threadpool \<Rightarrow> bool" where
  "none_running p \<longleftrightarrow> list_all (\<lambda>t. \<not> running t) (m_threadvec p)"

text \<open>The destructor after \<open>StopAll\<close> empties the queue and deletes the threads.\<close>

fun drain_msgqueue :: "msg_ptr list \<Rightarrow> size_t \<Rightarrow> msg_ptr list \<times> size_t" where
  "drain_msgqueue [] n = ([], n)"
| "drain_msgqueue (_ # q) n = drain_msgqueue q (n - 1)"

definition CThreadPool_delete :: "threadpool \<Rightarrow> threadpool" where
  "CThreadPool_delete p = (let (q, n) = drain_msgqueue (m_msgqueue p) (m_msgqueue_size p)
     in p\<lparr>m_msgqueue := q, m_msgqueue_size := n, m_threadvec := []\<rparr>)"

section \<open>The worker\<close>

text \<open>\<open>ThreadFunc\<close> from taking the mutex to releasing it.\<close>

definition ThreadFunc_locked :: "pool_thread \<Rightarrow> threadpool \<Rightarrow> (pool_thread, threadpool) thread_next" where
  "ThreadFunc_locked t p =
     (if m_msgqueue p = [] \<and> \<not> ifshutdown t then
        Park (if running t = False then t\<lparr>running := True\<rparr> else t) p
      else if ifshutdown t then Leave (t\<lparr>running := False\<rparr>) p
      else
        let (m, p) = get_msg_item p
        in Go (t\<lparr>msg_held := m\<rparr>) p)"

text \<open>Behind the unlock: the two atomic updates of \<open>m_iRunningThread\<close>, with \<open>ThreadRecvProc\<close> and the release of
  the message between them.\<close>

definition count_running :: "threadpool \<Rightarrow> threadpool" where
  "count_running p = p\<lparr>m_iRunningThread := m_iRunningThread p + 1\<rparr>"

definition release_message :: "pool_thread \<Rightarrow> pool_thread" where
  "release_message t = t\<lparr>msg_held := None\<rparr>"

definition uncount_running :: "threadpool \<Rightarrow> threadpool" where
  "uncount_running p = p\<lparr>m_iRunningThread := m_iRunningThread p - 1\<rparr>"

text \<open>Up to \<open>ThreadRecvProc\<close>, and from its return to the next turn of the loop, for a thread that is not
  interrupted there.\<close>

definition ThreadFunc_take :: "pool_thread \<Rightarrow> threadpool \<Rightarrow> (pool_thread, threadpool) thread_next" where
  "ThreadFunc_take t p = (case ThreadFunc_locked t p of
       Go t p \<Rightarrow> Go t (if msg_held t = None then p else count_running p)
     | nxt \<Rightarrow> nxt)"

definition ThreadFunc_finish :: "pool_thread \<Rightarrow> threadpool \<Rightarrow> pool_thread \<times> threadpool" where
  "ThreadFunc_finish t p = (release_message t, uncount_running p)"

lemma ThreadFunc_take_eq:
  "ThreadFunc_take t p =
     (if m_msgqueue p = [] \<and> \<not> ifshutdown t then
        Park (if running t = False then t\<lparr>running := True\<rparr> else t) p
      else if ifshutdown t then Leave (t\<lparr>running := False\<rparr>) p
      else
        let (m, p) = get_msg_item p;
            t = t\<lparr>msg_held := m\<rparr>
        in if m = None then Go t p
           else Go t (p\<lparr>m_iRunningThread := m_iRunningThread p + 1\<rparr>))"
  by (simp add: ThreadFunc_take_def ThreadFunc_locked_def count_running_def Let_def split: prod.split)

lemma ThreadFunc_finish_eq:
  "ThreadFunc_finish t p = (t\<lparr>msg_held := None\<rparr>, p\<lparr>m_iRunningThread := m_iRunningThread p - 1\<rparr>)"
  by (simp add: ThreadFunc_finish_def release_message_def uncount_running_def)

definition set_thread :: "nat \<Rightarrow> pool_thread \<Rightarrow> threadpool \<Rightarrow> threadpool" where
  "set_thread i t p = p\<lparr>m_threadvec := (m_threadvec p)[i := t]\<rparr>"

section \<open>The queue is first-in first-out\<close>

text \<open>The counter is the number of queued messages.\<close>

definition msgqueue_inv :: "threadpool \<Rightarrow> bool" where
  "msgqueue_inv p \<longleftrightarrow> m_msgqueue_size p = of_nat (length (m_msgqueue p))"

interpretation msgqueue: fifo_queue InMsgRecv get_msg_item m_msgqueue msgqueue_inv
  by unfold_locales (auto simp: InMsgRecv_def get_msg_item_def msgqueue_inv_def split: list.splits)

section \<open>The pool as a step relation\<close>

fun next_of :: "('t, 's) thread_next \<Rightarrow> 't \<times> 's" where
  "next_of (Leave t s) = (t, s)"
| "next_of (Go t s) = (t, s)"
| "next_of (Park t s) = (t, s)"

text \<open>Where a thread is: before the mutex (or waiting), behind the unlock with a message, in \<open>ThreadRecvProc\<close>
  with \<open>m_iRunningThread\<close> raised, behind the release of the message, or gone.\<close>

datatype pool_pc = Looping | Taken | Counted | Released | Left

definition pc_of :: "(pool_thread, 's) thread_next \<Rightarrow> pool_pc" where
  "pc_of nxt = (case nxt of
       Leave _ _ \<Rightarrow> Left
     | Park _ _ \<Rightarrow> Looping
     | Go t _ \<Rightarrow> (if msg_held t = None then Looping else Taken))"

text \<open>A thread is created, a message arrives, thread \<open>i\<close> passes the locked part of its loop, raises the counter,
  releases its message, lowers the counter, or is asked to leave by one of the assignments of \<open>StopAll\<close>.\<close>

inductive pool_step :: "threadpool \<times> pool_pc list \<Rightarrow> threadpool \<times> pool_pc list \<Rightarrow> bool" where
  create: "pool_step (p, cs) (p\<lparr>m_threadvec := m_threadvec p @ [ThreadItem_new]\<rparr>, cs @ [Looping])"
| arrive: "pool_step (p, cs) (InMsgRecv msg p, cs)"
| take_msg: "i < length cs \<Longrightarrow> cs ! i = Looping \<Longrightarrow> ThreadFunc_locked (m_threadvec p ! i) p = nxt \<Longrightarrow>
    next_of nxt = (t, p') \<Longrightarrow> pool_step (p, cs) (set_thread i t p', cs[i := pc_of nxt])"
| count: "i < length cs \<Longrightarrow> cs ! i = Taken \<Longrightarrow> pool_step (p, cs) (count_running p, cs[i := Counted])"
| release: "i < length cs \<Longrightarrow> cs ! i = Counted \<Longrightarrow>
    pool_step (p, cs) (set_thread i (release_message (m_threadvec p ! i)) p, cs[i := Released])"
| uncount: "i < length cs \<Longrightarrow> cs ! i = Released \<Longrightarrow> pool_step (p, cs) (uncount_running p, cs[i := Looping])"
| shutdown: "pool_step (p, cs) (p\<lparr>m_shutdown := True\<rparr>, cs)"
| ask: "i < length cs \<Longrightarrow>
    pool_step (p, cs) (set_thread i ((m_threadvec p ! i)\<lparr>ifshutdown := True\<rparr>) p, cs)"

inductive_cases pool_stepE: "pool_step x x'"

definition counts_running :: "pool_pc \<Rightarrow> bool" where
  "counts_running c \<longleftrightarrow> c = Counted \<or> c = Released"

definition threadpool_inv :: "threadpool \<times> pool_pc list \<Rightarrow> bool" where
  "threadpool_inv x \<longleftrightarrow> (let (p, cs) = x in
     msgqueue_inv p \<and> length (m_threadvec p) = length cs \<and>
     m_iRunningThread p = int (length (filter counts_running cs)) \<and>
     (\<forall>i < length cs. msg_held (m_threadvec p ! i) \<noteq> None \<longleftrightarrow> cs ! i = Taken \<or> cs ! i = Counted))"

lemma length_filter_update:
  "i < length xs \<Longrightarrow> int (length (filter P (xs[i := y]))) =
     int (length (filter P xs)) - (if P (xs ! i) then 1 else 0) + (if P y then 1 else 0)"
proof (induction xs arbitrary: i)
  case Nil
  then show ?case by simp
next
  case (Cons x xs)
  show ?case
  proof (cases i)
    case 0
    then show ?thesis by simp
  next
    case (Suc j)
    with Cons.prems have "j < length xs" by simp
    from Cons.IH [OF this] Suc show ?thesis by (cases "P x") (simp_all only: filter.simps list_update.simps
          nat.case nth_Cons_Suc if_True if_False length_Cons of_nat_Suc)
  qed
qed

lemma counts_running_simps [simp]:
  "\<not> counts_running Looping" "\<not> counts_running Taken" "counts_running Counted" "counts_running Released"
  "\<not> counts_running Left"
  by (simp_all add: counts_running_def)

lemma pc_of_idle: "\<not> counts_running (pc_of nxt)"
  by (simp add: pc_of_def split: thread_next.split)

lemma threadpool_inv_take:
  assumes inv: "threadpool_inv (p, cs)" and i: "i < length cs" "cs ! i = Looping"
    and nxt: "ThreadFunc_locked (m_threadvec p ! i) p = nxt" "next_of nxt = (t, p')"
  shows "threadpool_inv (set_thread i t p', cs[i := pc_of nxt])"
proof -
  have "msg_held (m_threadvec p ! i) = None"
    using inv i by (cases "msg_held (m_threadvec p ! i)") (auto simp: threadpool_inv_def)
  with nxt have held: "msg_held t \<noteq> None \<longleftrightarrow> pc_of nxt = Taken" "pc_of nxt \<noteq> Counted"
    by (auto simp: ThreadFunc_locked_def pc_of_def split: if_splits prod.splits)
  have "m_threadvec p' = m_threadvec p" "m_iRunningThread p' = m_iRunningThread p" "msgqueue_inv p'"
    using nxt inv by (auto simp: ThreadFunc_locked_def get_msg_item_def threadpool_inv_def msgqueue_inv_def
        split: if_splits prod.splits list.splits)
  with inv i held show ?thesis
    using length_filter_update [OF i(1), of counts_running "pc_of nxt"]
    by (auto simp: threadpool_inv_def set_thread_def msgqueue_inv_def pc_of_idle nth_list_update)
qed

lemma threadpool_inv_step:
  assumes "threadpool_inv x" "pool_step x x'"
  shows "threadpool_inv x'"
  using assms(2)
proof (cases rule: pool_step.cases)
  case (create p cs)
  with assms(1) show ?thesis
    by (auto simp: threadpool_inv_def msgqueue_inv_def nth_append ThreadItem_new_def less_Suc_eq)
next
  case (arrive p cs msg)
  with assms(1) show ?thesis by (simp add: threadpool_inv_def InMsgRecv_def msgqueue_inv_def)
next
  case (take_msg i cs p nxt t p')
  with assms(1) threadpool_inv_take show ?thesis by simp
next
  case (count i cs p)
  with assms(1) show ?thesis
    using length_filter_update [of i cs counts_running Counted]
    by (auto simp: threadpool_inv_def count_running_def msgqueue_inv_def nth_list_update)
next
  case (release i cs p)
  with assms(1) show ?thesis
    using length_filter_update [of i cs counts_running Released]
    by (auto simp: threadpool_inv_def release_message_def set_thread_def msgqueue_inv_def nth_list_update)
next
  case (uncount i cs p)
  with assms(1) show ?thesis
    using length_filter_update [of i cs counts_running Looping]
    by (auto simp: threadpool_inv_def uncount_running_def msgqueue_inv_def nth_list_update)
next
  case (shutdown p cs)
  with assms(1) show ?thesis by (simp add: threadpool_inv_def msgqueue_inv_def)
next
  case (ask i cs p)
  with assms(1) show ?thesis
    by (auto simp: threadpool_inv_def set_thread_def msgqueue_inv_def nth_list_update)
qed

interpretation workers: invariant_of "\<lambda>x. x = (CThreadPool_new, [])" pool_step threadpool_inv
proof
  fix x :: "threadpool \<times> pool_pc list"
  assume "x = (CThreadPool_new, [])"
  then show "threadpool_inv x" by (simp add: threadpool_inv_def CThreadPool_new_def msgqueue_inv_def)
qed (rule threadpool_inv_step)

lemma Create_eq:
  assumes "\<And>j. ok j"
  shows "create_threads ok i n p = Inr (p\<lparr>m_threadvec := m_threadvec p @ replicate n ThreadItem_new\<rparr>)"
  using assms by (induction n arbitrary: i p) (simp_all add: init_thread_item_def replicate_append_same [symmetric])

section \<open>Properties\<close>

text \<open>C23. The counters of the pool. Threads are created, messages arrive, and every thread goes through its loop
  in the single steps of the code, interleaved in any way. In every state that can be reached,
  \<open>m_iRunningThread\<close> is the number of threads between its two atomic updates, a thread holds a message from
  the region under the mutex up to the release behind its handler and at no other time, and
  \<open>m_msgqueue_size\<close> is the length of the queue. So the counter misses a thread that has its message but has not
  come to the first update, and still counts one that has given its message back: exactly by these it differs
  from the number of messages held.\<close>

theorem pool_counters_exact:
  assumes "reach (\<lambda>x. x = (CThreadPool_new, [])) pool_step (p, cs)"
  shows "m_iRunningThread p = int (length (filter counts_running cs)) \<and>
    (\<forall>i < length cs. msg_held (m_threadvec p ! i) \<noteq> None \<longleftrightarrow> cs ! i = Taken \<or> cs ! i = Counted) \<and>
    m_msgqueue_size p = of_nat (length (m_msgqueue p)) \<and> length (m_threadvec p) = length cs \<and>
    m_iRunningThread p + int (length (filter (\<lambda>c. c = Taken) cs)) =
      int (length (filter (\<lambda>t. msg_held t \<noteq> None) (m_threadvec p))) + int (length (filter (\<lambda>c. c = Released) cs))"
proof -
  from workers.reach_inv [OF assms] have inv: "msgqueue_inv p" "length (m_threadvec p) = length cs"
    "m_iRunningThread p = int (length (filter counts_running cs))"
    "\<forall>i < length cs. msg_held (m_threadvec p ! i) \<noteq> None \<longleftrightarrow> cs ! i = Taken \<or> cs ! i = Counted"
    by (simp_all add: threadpool_inv_def)
  have held: "length (filter (\<lambda>t. msg_held t \<noteq> None) (m_threadvec p)) = length (filter (\<lambda>c. c = Taken \<or> c = Counted) cs)"
    using inv(2,4) by (auto simp: length_filter_conv_card intro: arg_cong [of _ _ card])
  have "length (filter counts_running cs) + length (filter (\<lambda>c. c = Taken) cs) =
      length (filter (\<lambda>c. c = Taken \<or> c = Counted) cs) + length (filter (\<lambda>c. c = Released) cs)"
    by (induction cs) (auto simp: counts_running_def)
  with inv held show ?thesis by (simp add: msgqueue_inv_def)
qed

text \<open>One of two threads has taken the message that arrived: first the counter misses it, then it shows it.\<close>

theorem pool_counters_exact_witness:
  "\<exists>p q. reach (\<lambda>x. x = (CThreadPool_new, [])) pool_step (p, [Taken, Looping]) \<and>
     reach (\<lambda>x. x = (CThreadPool_new, [])) pool_step (q, [Counted, Looping]) \<and>
     m_iRunningThread p = 0 \<and> m_iRunningThread q = 1 \<and>
     msg_held (m_threadvec p ! 0) \<noteq> None \<and> msg_held (m_threadvec q ! 0) \<noteq> None \<and> m_msgqueue_size q = 0"
proof -
  let ?R = "reach (\<lambda>x. x = (CThreadPool_new, [])) pool_step"
  let ?two = "CThreadPool_new\<lparr>m_threadvec := [ThreadItem_new, ThreadItem_new]\<rparr>"
  let ?got = "ThreadItem_new\<lparr>msg_held := Some []\<rparr>"
  let ?p = "?two\<lparr>m_threadvec := [?got, ThreadItem_new]\<rparr>"
  have "?R (CThreadPool_new, [])" by (rule reach_init) (rule refl)
  from reach_step [OF this pool_step.create]
  have "?R (CThreadPool_new\<lparr>m_threadvec := [ThreadItem_new]\<rparr>, [Looping])" by (simp add: CThreadPool_new_def)
  from reach_step [OF this pool_step.create] have "?R (?two, [Looping, Looping])"
    by (simp add: CThreadPool_new_def)
  note this [THEN reach_step, OF pool_step.arrive [of ?two "[Looping, Looping]" "Some []"]]
  moreover have "pool_step (InMsgRecv (Some []) ?two, [Looping, Looping]) (?p, [Taken, Looping])"
    using pool_step.take_msg [of 0 "[Looping, Looping]" "InMsgRecv (Some []) ?two" _ ?got "?two", OF _ _ refl]
    by (simp add: ThreadFunc_locked_def InMsgRecv_def get_msg_item_def ThreadItem_new_def CThreadPool_new_def
        pc_of_def set_thread_def)
  ultimately have p: "?R (?p, [Taken, Looping])" by (rule reach_step)
  from reach_step [OF p pool_step.count [of 0]] have q: "?R (count_running ?p, [Counted, Looping])" by simp
  from pool_counters_exact [OF p] pool_counters_exact [OF q] p q show ?thesis
    by (intro exI [of _ ?p] exI [of _ "count_running ?p"])
      (simp_all add: count_running_def CThreadPool_new_def)
qed

fun get_msgs :: "nat \<Rightarrow> threadpool \<Rightarrow> msg_ptr list" where
  "get_msgs 0 p = []"
| "get_msgs (Suc n) p = (let (m, p') = get_msg_item p in m # get_msgs n p')"

lemma get_msgs_deqs: "get_msgs n p = fst (msgqueue.deqs n p)"
  by (induction n arbitrary: p) (simp_all add: Let_def split: prod.splits)

text \<open>Messages are handed out in the order they arrived: taking as many messages as are queued and
  as arrive yields the queued ones and then the new ones.\<close>

theorem messages_in_arrival_order:
  assumes "m_msgqueue_size p = of_nat (length (m_msgqueue p))"
  shows "get_msgs (length (m_msgqueue p) + length ms) (fold InMsgRecv ms p) = m_msgqueue p @ ms"
  using msgqueue.fifo_order [of p ms] assms by (simp add: get_msgs_deqs msgqueue_inv_def)

theorem messages_in_arrival_order_witness:
  "get_msgs 2 (fold InMsgRecv [Some [1], Some [2]] CThreadPool_new) = [Some [1], Some [2]]"
  using messages_in_arrival_order [of CThreadPool_new "[Some [1], Some [2]]"]
  by (simp add: CThreadPool_new_def numeral_2_eq_2)

text \<open>After a stop request no worker starts another message: the next time it takes the mutex it
  leaves, marked as not running, and the queue and the counters stay as they are; a second request
  is refused.\<close>

theorem stopped_worker_leaves:
  assumes "\<not> m_shutdown p" "i < length (m_threadvec p)"
  shows "let (ok, p') = StopAll_request p; t = m_threadvec p' ! i in
     ok \<and> ThreadFunc_take t p' = Leave (t\<lparr>running := False\<rparr>) p' \<and>
     m_msgqueue p' = m_msgqueue p \<and> m_iRunningThread p' = m_iRunningThread p \<and>
     StopAll_request p' = (False, p')"
  using assms by (simp add: StopAll_request_def ThreadFunc_take_eq Let_def)

theorem stopped_worker_leaves_witness:
  "\<exists>t p'. ThreadFunc_take (m_threadvec (snd (StopAll_request
       (CThreadPool_new\<lparr>m_threadvec := [ThreadItem_new], m_msgqueue := [Some []]\<rparr>))) ! 0)
      (snd (StopAll_request (CThreadPool_new\<lparr>m_threadvec := [ThreadItem_new], m_msgqueue := [Some []]\<rparr>)))
     = Leave t p' \<and> m_msgqueue p' = [Some []]"
  using stopped_worker_leaves [of "CThreadPool_new\<lparr>m_threadvec := [ThreadItem_new], m_msgqueue := [Some []]\<rparr>" 0]
  by (auto simp: CThreadPool_new_def Let_def split: prod.splits)

end
