(* ===== verification/Recv.thy ===== *)
theory Recv
  imports Pool ThreadPool
begin

text \<open>
  Receiving a packet (\<open>net/socket_request.cxx\<close>): the four-state machine that collects a packet
  header and a packet body from a non-blocking socket and queues the completed message for the
  thread pool. The abstract counterpart \<open>frames\<close> splits a byte stream into packets; the machine
  refines it for every way the stream can be cut into reads.
\<close>

section \<open>The world the handlers act on\<close>

text \<open>The globals \<open>g_socket\<close> and \<open>g_threadpool\<close>, and the static flag of the accept handler.\<close>

record world =
  g_socket :: csocket
  g_threadpool :: threadpool
  use_accept4 :: bool

text \<open>Answers of the operating system to one handler call.\<close>

record os_env =
  env_ctl_ok :: bool
  env_close_ok :: bool
  env_now :: int

record recv_ans =
  ra_n :: int
  ra_data :: "byte list"
  ra_errno :: int

abbreviation (input) EINTR :: int where "EINTR \<equiv> 4"
abbreviation (input) EAGAIN :: int where "EAGAIN \<equiv> 11"
abbreviation (input) ECONNRESET :: int where "ECONNRESET \<equiv> 104"

text \<open>What \<open>recv\<close> promises for a request of \<open>len\<close> bytes.\<close>

definition recv_ok :: "nat \<Rightarrow> recv_ans \<Rightarrow> bool" where
  "recv_ok len r \<longleftrightarrow>
     (ra_n r = int (length (ra_data r)) \<and> length (ra_data r) \<le> len) \<or> (ra_n r = -1 \<and> ra_data r = [])"

section \<open>Memory\<close>

text \<open>The bytes \<open>recv\<close> delivers go through \<open>p_recvbuf\<close>; a pointer into a block that is gone, or a
  write past its end, is a bad access.\<close>

definition recv_write :: "byte list \<Rightarrow> connection \<Rightarrow> fault + connection" where
  "recv_write ys c =
     (if ys = [] then Inr c
      else case p_recvbuf c of
        BufNull \<Rightarrow> Inl BadAccess
      | InHeader off \<Rightarrow> (case p_headerinfo c of
            HdrLive m \<Rightarrow> if off + length ys \<le> length m
                           then Inr (c\<lparr>p_headerinfo := HdrLive (write_at m off ys)\<rparr>) else Inl BadAccess
          | _ \<Rightarrow> Inl BadAccess)
      | InMsg off \<Rightarrow> (case p_msgrecv c of
            Some m \<Rightarrow> if off + length ys \<le> length m
                        then Inr (c\<lparr>p_msgrecv := Some (write_at m off ys)\<rparr>) else Inl BadAccess
          | None \<Rightarrow> Inl BadAccess))"

fun advance :: "nat \<Rightarrow> buf_ptr \<Rightarrow> buf_ptr" where
  "advance k BufNull = BufNull"
| "advance k (InHeader off) = InHeader (off + k)"
| "advance k (InMsg off) = InMsg (off + k)"

lemma advance_0 [simp]: "advance 0 b = b"
  by (cases b) simp_all

text \<open>\<open>AllocMemory(PKG_HEADER_LEN, true)\<close> and \<open>FreeMemory(p_headerinfo)\<close>.\<close>

definition AllocMemory :: "nat \<Rightarrow> byte list" where
  "AllocMemory memCount = replicate memCount 0"

definition FreeMemory_header :: "connection \<Rightarrow> fault + connection" where
  "FreeMemory_header c = (case p_headerinfo c of
      HdrNull \<Rightarrow> Inr c
    | HdrLive _ \<Rightarrow> Inr (c\<lparr>p_headerinfo := HdrFreed\<rparr>)
    | HdrFreed \<Rightarrow> Inl BadAccess)"

section \<open>The code\<close>

definition recvproc :: "os_env \<Rightarrow> recv_ans \<Rightarrow> addr \<Rightarrow> csocket \<Rightarrow> fault + (int \<times> csocket)" where
  "recvproc env r a s =
     bindE (recv_write (ra_data r) (conns s a)) (\<lambda>c.
       let s = upd_conn a (\<lambda>_. c) s;
           n = ra_n r;
           errno = ra_errno r;
           close = (\<lambda>s. bindE (close_accepted_connection (env_ctl_ok env) (env_close_ok env)
                       (env_now env) a False s) (\<lambda>s. Inr (-1, s)))
       in if n = 0 then
            (if errno = 0 then Inr (n, s)
             else if errno = EAGAIN then Inr (-1, s)
             else close s)
          else if n < 0 then
            (if errno = EINTR then Inr (0, s)
             else if errno = EAGAIN then Inr (-1, s)
             else close s)
          else Inr (n, s))"

text \<open>The bookkeeping after a read, shared by \<open>pkg_header_recv\<close> and \<open>pkg_body_recv\<close>.\<close>

definition recv_account :: "int \<Rightarrow> connection \<Rightarrow> connection" where
  "recv_account real_size c =
     (let c = (if real_size < int (recvlen c)
               then c\<lparr>p_recvbuf := advance (nat real_size) (p_recvbuf c),
                      recvlen := recvlen c - nat real_size\<rparr>
               else c)
      in c\<lparr>recvlen_already := recvlen_already c + nat real_size\<rparr>)"

definition pkg_header_recv :: "os_env \<Rightarrow> recv_ans \<Rightarrow> addr \<Rightarrow> csocket \<Rightarrow> fault + (int \<times> csocket)" where
  "pkg_header_recv env r a s =
     (if curstat (conns s a) \<noteq> PKG_HD_INIT \<and> curstat (conns s a) \<noteq> PKG_HD_RECVING then Inr (-1, s)
      else bindE (recvproc env r a s) (\<lambda>(real_size, s).
        if real_size = -1 then Inr (-1, s)
        else Inr (real_size, upd_conn a (recv_account real_size) s)))"

definition drop_message :: "connection \<Rightarrow> connection" where
  "drop_message c = c\<lparr>recv_str := False, p_msgrecv := None\<rparr>"

definition pkg_body_recv :: "os_env \<Rightarrow> recv_ans \<Rightarrow> addr \<Rightarrow> csocket \<Rightarrow> fault + (int \<times> csocket)" where
  "pkg_body_recv env r a s =
     (if curstat (conns s a) \<noteq> PKG_BD_INIT \<and> curstat (conns s a) \<noteq> PKG_BD_RECVING then
        bindE (FreeMemory_header (drop_message (conns s a))) (\<lambda>c. Inr (-1, upd_conn a (\<lambda>_. c) s))
      else bindE (recvproc env r a s) (\<lambda>(real_size, s).
        if real_size = -1 then Inr (-1, upd_conn a drop_message s)
        else Inr (real_size, upd_conn a (recv_account real_size) s)))"

definition pkg_body_proc :: "addr \<Rightarrow> world \<Rightarrow> fault + world" where
  "pkg_body_proc a w =
     (let c = conns (g_socket w) a;
          pool = InMsgRecv (p_msgrecv c) (g_threadpool w);
          c = c\<lparr>p_recvbuf := BufNull, recv_str := False, p_msgrecv := None\<rparr>
      in bindE (FreeMemory_header c) (\<lambda>c.
           Inr (w\<lparr>g_threadpool := pool,
                  g_socket := upd_conn a (\<lambda>_. PutToStateMach c) (g_socket w)\<rparr>)))"

definition pkg_header_proc :: "addr \<Rightarrow> world \<Rightarrow> fault + world" where
  "pkg_header_proc a w =
     (let c = conns (g_socket w) a in
      case p_headerinfo c of
        HdrLive hdr \<Rightarrow>
          let pkg_size = unat (ntohs (pkgLen (dec_pkg_header hdr))) in
          if pkg_size < PKG_HEADER_LEN \<or> pkg_size > PKG_MAX_LENGTH - 1000 then
            bindE (FreeMemory_header c) (\<lambda>c.
              Inr (w\<lparr>g_socket := upd_conn a (\<lambda>_. c\<lparr>curstat := PKG_HD_INIT\<rparr>) (g_socket w)\<rparr>))
          else
            let msg_size = MSG_HEADER_LEN + pkg_size;
                pkg_body_size = pkg_size - PKG_HEADER_LEN;
                m0 = replicate (msg_size + 1) 0;
                m1 = write_at m0 0 (enc_msg_header \<lparr>lp_curconn = a, msg_cursequence = sequence c\<rparr>);
                m2 = write_at m1 MSG_HEADER_LEN (take PKG_HEADER_LEN hdr);
                c' = c\<lparr>p_msgrecv := Some m2, recv_str := True,
                       p_recvbuf := InMsg (MSG_HEADER_LEN + PKG_HEADER_LEN),
                       recvlen := pkg_body_size\<rparr>
            in if pkg_body_size = 0
               then pkg_body_proc a (w\<lparr>g_socket := upd_conn a (\<lambda>_. c') (g_socket w)\<rparr>)
               else Inr (w\<lparr>g_socket := upd_conn a (\<lambda>_. c'\<lparr>curstat := PKG_BD_INIT\<rparr>) (g_socket w)\<rparr>)
      | _ \<Rightarrow> Inl BadAccess)"

text \<open>One read of a header (or a body) and what follows it.\<close>

definition header_event :: "os_env \<Rightarrow> recv_ans \<Rightarrow> addr \<Rightarrow> world \<Rightarrow> fault + world" where
  "header_event env r a w =
     (let suppose_size = recvlen (conns (g_socket w) a) in
      bindE (pkg_header_recv env r a (g_socket w)) (\<lambda>(recv_size, s).
        let w = w\<lparr>g_socket := s\<rparr> in
        if recv_size = -1 then Inr w
        else if recv_size = int suppose_size then pkg_header_proc a w
        else Inr (w\<lparr>g_socket := upd_conn a (\<lambda>c. c\<lparr>curstat := PKG_HD_RECVING\<rparr>) s\<rparr>)))"

definition body_event :: "os_env \<Rightarrow> recv_ans \<Rightarrow> addr \<Rightarrow> world \<Rightarrow> fault + world" where
  "body_event env r a w =
     (let suppose_size = recvlen (conns (g_socket w) a) in
      if suppose_size = 0 then Inr w
      else bindE (pkg_body_recv env r a (g_socket w)) (\<lambda>(recv_size, s).
        let w = w\<lparr>g_socket := s\<rparr> in
        if recv_size = -1 then Inr w
        else if recv_size = int suppose_size then pkg_body_proc a w
        else Inr (w\<lparr>g_socket := upd_conn a (\<lambda>c. c\<lparr>curstat := PKG_BD_RECVING\<rparr>) s\<rparr>)))"

definition readable_request :: "os_env \<Rightarrow> recv_ans \<Rightarrow> addr \<Rightarrow> world \<Rightarrow> fault + world" where
  "readable_request env r a w =
     (let c = conns (g_socket w) a in
      if curstat c = PKG_HD_INIT then
        header_event env r a (w\<lparr>g_socket := upd_conn a (\<lambda>c. c\<lparr>
            p_headerinfo := HdrLive (AllocMemory PKG_HEADER_LEN),
            p_recvbuf := InHeader 0, recvlen := PKG_HEADER_LEN\<rparr>) (g_socket w)\<rparr>)
      else if curstat c = PKG_HD_RECVING then
        (if recvlen c = 0 then Inr w else header_event env r a w)
      else if curstat c = PKG_BD_INIT then body_event env r a w
      else if curstat c = PKG_BD_RECVING then body_event env r a w
      else Inr w)"

section \<open>The abstract splitter\<close>

definition stream_pkg_size :: "byte list \<Rightarrow> nat" where
  "stream_pkg_size bs = unat (ntohs (pkgLen (dec_pkg_header bs)))"

definition valid_size :: "nat \<Rightarrow> bool" where
  "valid_size n \<longleftrightarrow> PKG_HEADER_LEN \<le> n \<and> n \<le> PKG_MAX_LENGTH - 1000"

text \<open>The packets in a byte stream and the incomplete rest; an illegal header is skipped.\<close>

function frames :: "byte list \<Rightarrow> byte list list \<times> byte list" where
  "frames bs =
     (if length bs < PKG_HEADER_LEN then ([], bs)
      else let n = stream_pkg_size bs in
        if \<not> valid_size n then frames (drop PKG_HEADER_LEN bs)
        else if length bs < n then ([], bs)
        else (take n bs # fst (frames (drop n bs)), snd (frames (drop n bs))))"
  by pat_completeness auto
termination
  by (relation "measure length") (auto simp: valid_size_def PKG_HEADER_LEN_def)

declare frames.simps [simp del]

lemma stream_pkg_size_append [simp]:
  "PKG_HEADER_LEN \<le> length bs \<Longrightarrow> stream_pkg_size (bs @ cs) = stream_pkg_size bs"
  by (simp add: stream_pkg_size_def dec_pkg_header_def PKG_HEADER_LEN_def)

lemma frames_short: "length bs < PKG_HEADER_LEN \<Longrightarrow> frames bs = ([], bs)"
  by (subst frames.simps) simp

lemma frames_skip:
  "PKG_HEADER_LEN \<le> length bs \<Longrightarrow> \<not> valid_size (stream_pkg_size bs) \<Longrightarrow>
   frames bs = frames (drop PKG_HEADER_LEN bs)"
  by (subst frames.simps) simp

lemma frames_wait:
  "PKG_HEADER_LEN \<le> length bs \<Longrightarrow> valid_size (stream_pkg_size bs) \<Longrightarrow>
   length bs < stream_pkg_size bs \<Longrightarrow> frames bs = ([], bs)"
  by (subst frames.simps) simp

lemma frames_cut:
  "PKG_HEADER_LEN \<le> length bs \<Longrightarrow> valid_size (stream_pkg_size bs) \<Longrightarrow>
   stream_pkg_size bs \<le> length bs \<Longrightarrow>
   frames bs = (take (stream_pkg_size bs) bs # fst (frames (drop (stream_pkg_size bs) bs)),
                snd (frames (drop (stream_pkg_size bs) bs)))"
  by (subst frames.simps) (simp add: Let_def)

lemma frames_induct [case_names short skip wait cut]:
  assumes "\<And>bs. length bs < PKG_HEADER_LEN \<Longrightarrow> P bs"
    and "\<And>bs. PKG_HEADER_LEN \<le> length bs \<Longrightarrow> \<not> valid_size (stream_pkg_size bs) \<Longrightarrow>
           P (drop PKG_HEADER_LEN bs) \<Longrightarrow> P bs"
    and "\<And>bs. PKG_HEADER_LEN \<le> length bs \<Longrightarrow> valid_size (stream_pkg_size bs) \<Longrightarrow>
           length bs < stream_pkg_size bs \<Longrightarrow> P bs"
    and "\<And>bs. PKG_HEADER_LEN \<le> length bs \<Longrightarrow> valid_size (stream_pkg_size bs) \<Longrightarrow>
           stream_pkg_size bs \<le> length bs \<Longrightarrow> P (drop (stream_pkg_size bs) bs) \<Longrightarrow> P bs"
  shows "P bs"
  by (induction bs rule: frames.induct) (metis assms not_less)

lemma frames_append:
  "frames (bs @ cs) = (fst (frames bs) @ fst (frames (snd (frames bs) @ cs)),
                       snd (frames (snd (frames bs) @ cs)))"
  by (induction bs rule: frames_induct)
    (simp_all add: frames_short frames_skip frames_wait frames_cut)

text \<open>What is left is never a complete packet.\<close>

lemma frames_rest: "frames (snd (frames bs)) = ([], snd (frames bs))"
  by (induction bs rule: frames_induct)
    (simp_all add: frames_short frames_skip frames_wait frames_cut)

section \<open>The machine and its abstraction\<close>

text \<open>The number of bytes the next read asks for.\<close>

definition recv_want :: "connection \<Rightarrow> nat" where
  "recv_want c = (if curstat c = PKG_HD_INIT then PKG_HEADER_LEN else recvlen c)"

text \<open>The bytes of the current packet received so far.\<close>

definition pending :: "connection \<Rightarrow> byte list" where
  "pending c =
     (if curstat c = PKG_HD_INIT then []
      else if curstat c = PKG_HD_RECVING then
        (case p_headerinfo c of HdrLive m \<Rightarrow>
           (case p_recvbuf c of InHeader off \<Rightarrow> take off m | _ \<Rightarrow> []) | _ \<Rightarrow> [])
      else
        (case p_msgrecv c of Some m \<Rightarrow>
           (case p_recvbuf c of InMsg off \<Rightarrow> take (off - MSG_HEADER_LEN) (drop MSG_HEADER_LEN m)
            | _ \<Rightarrow> []) | None \<Rightarrow> []))"

text \<open>What the machine keeps between two reads, for the connection at \<open>a\<close>.\<close>

definition recv_wf :: "addr \<Rightarrow> connection \<Rightarrow> bool" where
  "recv_wf a c =
     (if curstat c = PKG_HD_INIT then True
      else if curstat c = PKG_HD_RECVING then
        (case p_headerinfo c of HdrLive m \<Rightarrow>
           (case p_recvbuf c of InHeader off \<Rightarrow>
              length m = PKG_HEADER_LEN \<and> off < PKG_HEADER_LEN \<and> recvlen c = PKG_HEADER_LEN - off
            | _ \<Rightarrow> False) | _ \<Rightarrow> False)
      else if curstat c = PKG_BD_INIT \<or> curstat c = PKG_BD_RECVING then
        (case p_headerinfo c of HdrLive h \<Rightarrow>
           (case p_msgrecv c of Some m \<Rightarrow>
              (case p_recvbuf c of InMsg off \<Rightarrow>
                 (let n = stream_pkg_size h in
                  length h = PKG_HEADER_LEN \<and> valid_size n \<and> length m = MSG_HEADER_LEN + n + 1 \<and>
                  MSG_HEADER_LEN + PKG_HEADER_LEN \<le> off \<and> off < MSG_HEADER_LEN + n \<and>
                  recvlen c = MSG_HEADER_LEN + n - off \<and>
                  take (MSG_HEADER_LEN + PKG_HEADER_LEN) m =
                    enc_msg_header \<lparr>lp_curconn = a, msg_cursequence = sequence c\<rparr> @ h \<and>
                  drop (MSG_HEADER_LEN + n) m = [0])
               | _ \<Rightarrow> False) | None \<Rightarrow> False) | _ \<Rightarrow> False)
      else False)"

text \<open>An answer that delivers bytes, or delivers none and leaves the connection alone.\<close>

definition quiet_ans :: "connection \<Rightarrow> recv_ans \<Rightarrow> bool" where
  "quiet_ans c r \<longleftrightarrow>
     (if ra_data r \<noteq> [] then ra_n r = int (length (ra_data r)) \<and> length (ra_data r) \<le> recv_want c
      else (ra_n r = 0 \<and> ra_errno r = 0) \<or> (ra_n r = -1 \<and> ra_errno r = EINTR) \<or>
           (ra_n r = -1 \<and> ra_errno r = EAGAIN \<and>
            (curstat c = PKG_HD_INIT \<or> curstat c = PKG_HD_RECVING)))"

text \<open>The queued message of a packet: message header, packet, terminating zero.\<close>

definition message_of :: "addr \<Rightarrow> u64 \<Rightarrow> byte list \<Rightarrow> byte list" where
  "message_of a sq p = enc_msg_header \<lparr>lp_curconn = a, msg_cursequence = sq\<rparr> @ p @ [0]"

lemma header_event_data:
  assumes c: "c = conns (g_socket w) a" "curstat c = PKG_HD_INIT \<or> curstat c = PKG_HD_RECVING"
    and hdr: "p_headerinfo c = HdrLive m" "length m = PKG_HEADER_LEN" "p_recvbuf c = InHeader off"
      "off < PKG_HEADER_LEN" "recvlen c = PKG_HEADER_LEN - off"
    and r: "ra_data r = d" "d \<noteq> []" "ra_n r = int (length d)" "off + length d \<le> PKG_HEADER_LEN"
  shows "header_event env r a w =
    (if off + length d = PKG_HEADER_LEN
     then pkg_header_proc a (w\<lparr>g_socket := upd_conn a (\<lambda>c. c\<lparr>p_headerinfo := HdrLive (take off m @ d),
            recvlen_already := recvlen_already c + length d\<rparr>) (g_socket w)\<rparr>)
     else Inr (w\<lparr>g_socket := upd_conn a (\<lambda>c. c\<lparr>p_headerinfo := HdrLive (write_at m off d),
            p_recvbuf := InHeader (off + length d), recvlen := PKG_HEADER_LEN - (off + length d),
            recvlen_already := recvlen_already c + length d,
            curstat := PKG_HD_RECVING\<rparr>) (g_socket w)\<rparr>))"
proof -
  have n0: "ra_n r \<noteq> 0" "\<not> ra_n r < 0" "ra_n r \<noteq> -1" using r by auto
  have full: "write_at m off d = take off m @ d" if "off + length d = PKG_HEADER_LEN"
    using that hdr by (simp add: write_at_def)
  have rw: "recv_write d c = Inr (c\<lparr>p_headerinfo := HdrLive (write_at m off d)\<rparr>)"
    using hdr r by (simp add: recv_write_def)
  have rp: "recvproc env r a (g_socket w) =
      Inr (int (length d), upd_conn a (\<lambda>c. c\<lparr>p_headerinfo := HdrLive (write_at m off d)\<rparr>) (g_socket w))"
    using rw r n0 by (simp add: recvproc_def c(1) upd_conn_def)
  show ?thesis
    using c hdr r full
    by (auto simp: header_event_def pkg_header_recv_def rp recv_account_def upd_conn_def)
qed

text \<open>After a complete header: skip it, or queue an empty packet, or prepare for the body.\<close>

lemma pkg_header_proc_cases:
  assumes c: "c = conns (g_socket w) a" and hdr: "p_headerinfo c = HdrLive h" "length h = PKG_HEADER_LEN"
  defines "n \<equiv> stream_pkg_size h"
  defines "head \<equiv> enc_msg_header \<lparr>lp_curconn = a, msg_cursequence = sequence c\<rparr>"
  shows "pkg_header_proc a w =
    (if \<not> valid_size n then
       Inr (w\<lparr>g_socket := upd_conn a (\<lambda>_. c\<lparr>p_headerinfo := HdrFreed, curstat := PKG_HD_INIT\<rparr>) (g_socket w)\<rparr>)
     else if n = PKG_HEADER_LEN then
       Inr (w\<lparr>g_threadpool := InMsgRecv (Some (head @ h @ [0])) (g_threadpool w),
              g_socket := upd_conn a (\<lambda>_. PutToStateMach c) (g_socket w)\<rparr>)
     else
       Inr (w\<lparr>g_socket := upd_conn a (\<lambda>_. c\<lparr>p_msgrecv := Some (head @ h @ replicate (n - PKG_HEADER_LEN + 1) 0),
              recv_str := True, p_recvbuf := InMsg (MSG_HEADER_LEN + PKG_HEADER_LEN),
              recvlen := n - PKG_HEADER_LEN, curstat := PKG_BD_INIT\<rparr>) (g_socket w)\<rparr>))"
proof -
  have buf: "write_at (write_at (replicate (MSG_HEADER_LEN + n + 1) 0) 0 head) MSG_HEADER_LEN
      (take PKG_HEADER_LEN h) = head @ h @ replicate (n - PKG_HEADER_LEN + 1) 0"
    if "valid_size n"
  proof -
    have len: "length head = MSG_HEADER_LEN" by (simp add: head_def)
    have "MSG_HEADER_LEN + n + 1 = MSG_HEADER_LEN + (PKG_HEADER_LEN + (n - PKG_HEADER_LEN + 1))"
      using that by (auto simp: valid_size_def)
    then have "replicate (MSG_HEADER_LEN + n + 1) (0 :: byte) =
        replicate MSG_HEADER_LEN 0 @ replicate PKG_HEADER_LEN 0 @ replicate (n - PKG_HEADER_LEN + 1) 0"
      by (simp only: replicate_add)
    then show ?thesis
      using hdr by (simp only: write_at_def len) (simp add: len)
  qed
  have n: "unat (ntohs (pkgLen (dec_pkg_header h))) = n"
    by (simp add: n_def stream_pkg_size_def)
  show ?thesis
    using c hdr(1) buf
    by (auto simp: pkg_header_proc_def pkg_body_proc_def n Let_def FreeMemory_header_def upd_conn_def
        valid_size_def head_def PutToStateMach_def not_less not_le)
qed

lemma body_event_data:
  assumes c: "c = conns (g_socket w) a" "curstat c = PKG_BD_INIT \<or> curstat c = PKG_BD_RECVING"
    and hdr: "p_headerinfo c = HdrLive h" and msg: "p_msgrecv c = Some m" "p_recvbuf c = InMsg off"
    and len: "recvlen c = k" "off + k \<le> length m"
    and r: "ra_data r = d" "d \<noteq> []" "ra_n r = int (length d)" "length d \<le> k"
  shows "body_event env r a w =
    (if length d = k
     then Inr (w\<lparr>g_threadpool := InMsgRecv (Some (write_at m off d)) (g_threadpool w),
                 g_socket := upd_conn a (\<lambda>_. PutToStateMach c) (g_socket w)\<rparr>)
     else Inr (w\<lparr>g_socket := upd_conn a (\<lambda>_. c\<lparr>p_msgrecv := Some (write_at m off d),
            p_recvbuf := InMsg (off + length d), recvlen := k - length d,
            recvlen_already := recvlen_already c + length d,
            curstat := PKG_BD_RECVING\<rparr>) (g_socket w)\<rparr>))"
proof -
  have n0: "ra_n r \<noteq> 0" "\<not> ra_n r < 0" "ra_n r \<noteq> -1"
    by (use r in auto)
  have "0 < length d" using r by simp
  then have k: "k \<noteq> 0" "0 < k" using r by linarith+
  have rw: "recv_write d c = Inr (c\<lparr>p_msgrecv := Some (write_at m off d)\<rparr>)"
    using msg len r by (simp add: recv_write_def)
  have rp: "recvproc env r a (g_socket w) =
      Inr (int (length d), upd_conn a (\<lambda>c. c\<lparr>p_msgrecv := Some (write_at m off d)\<rparr>) (g_socket w))"
    using rw r n0 by (simp add: recvproc_def c(1) upd_conn_def)
  show ?thesis
    using c hdr msg len r k
    by (auto simp: body_event_def pkg_body_recv_def rp recv_account_def pkg_body_proc_def
        FreeMemory_header_def PutToStateMach_def upd_conn_def Let_def)
qed

text \<open>An answer without bytes changes at most the state name.\<close>

lemma header_event_quiet:
  assumes c: "c = conns (g_socket w) a" "curstat c = PKG_HD_INIT \<or> curstat c = PKG_HD_RECVING"
    and pos: "0 < recvlen c" and r: "ra_data r = []" "quiet_ans c r"
  shows "header_event env r a w =
    Inr (if ra_errno r = EAGAIN then w
         else w\<lparr>g_socket := upd_conn a (\<lambda>_. c\<lparr>curstat := PKG_HD_RECVING\<rparr>) (g_socket w)\<rparr>)"
  using assms
  by (auto simp: header_event_def pkg_header_recv_def recvproc_def recv_write_def quiet_ans_def
      recv_account_def upd_conn_def Let_def split: buf_ptr.splits)

section \<open>Refinement of the splitter\<close>

lemma frames_Nil [simp]: "frames [] = ([], [])"
  by (simp add: frames_short PKG_HEADER_LEN_def)

lemma frames_header:
  "length h = PKG_HEADER_LEN \<Longrightarrow> frames h =
     (if \<not> valid_size (stream_pkg_size h) then ([], [])
      else if stream_pkg_size h = PKG_HEADER_LEN then ([h], []) else ([], h))"
  by (auto simp: frames_skip frames_cut frames_wait valid_size_def)

lemma frames_body:
  assumes "length h = PKG_HEADER_LEN" "valid_size (stream_pkg_size h)"
    and "length (h @ p) \<le> stream_pkg_size h"
  shows "frames (h @ p) = (if length (h @ p) = stream_pkg_size h then ([h @ p], []) else ([], h @ p))"
proof (cases "length (h @ p) = stream_pkg_size h")
  case True
  with assms show ?thesis using frames_cut [of "h @ p"] by simp
next
  case False
  with assms show ?thesis using frames_wait [of "h @ p"] by simp
qed

text \<open>\<open>w'\<close> is what the splitter makes of \<open>w\<close> when the packet bytes collected on the connection
  \<open>a\<close> are \<open>bs\<close>: the complete packets are queued, the rest stays with the connection.\<close>

definition consumes :: "addr \<Rightarrow> byte list \<Rightarrow> world \<Rightarrow> world \<Rightarrow> bool" where
  "consumes a bs w w' \<longleftrightarrow>
     (let c = conns (g_socket w) a; c' = conns (g_socket w') a; res = frames bs in
      recv_wf a c' \<and> sequence c' = sequence c \<and> pending c' = snd res \<and>
      m_msgqueue (g_threadpool w') = m_msgqueue (g_threadpool w) @
        map (\<lambda>p. Some (message_of a (sequence c) p)) (fst res) \<and>
      m_msgqueue_size (g_threadpool w') = m_msgqueue_size (g_threadpool w) + of_nat (length (fst res)) \<and>
      (\<forall>b. b \<noteq> a \<longrightarrow> conns (g_socket w') b = conns (g_socket w) b))"

lemma consumes_start:
  "consumes a bs (w\<lparr>g_socket := upd_conn a f (g_socket w)\<rparr>) w' \<Longrightarrow>
   sequence (f (conns (g_socket w) a)) = sequence (conns (g_socket w) a) \<Longrightarrow> consumes a bs w w'"
  by (simp add: consumes_def Let_def)

lemmas state_names = recv_wf_def pending_def recv_want_def

lemma pkg_header_proc_consumes:
  assumes hdr: "p_headerinfo (conns (g_socket w) a) = HdrLive h" "length h = PKG_HEADER_LEN"
  shows "\<exists>w'. pkg_header_proc a w = Inr w' \<and> consumes a h w w'"
proof -
  have "PKG_HEADER_LEN < stream_pkg_size h"
    if "valid_size (stream_pkg_size h)" "stream_pkg_size h \<noteq> PKG_HEADER_LEN"
    using that by (simp add: valid_size_def)
  then show ?thesis
    by (auto simp: pkg_header_proc_cases [OF refl hdr] frames_header [OF hdr(2)] consumes_def
        state_names PutToStateMach_def InMsgRecv_def message_of_def Let_def hdr)
qed

lemma header_event_consumes:
  assumes c: "c = conns (g_socket w) a" "curstat c = PKG_HD_INIT \<or> curstat c = PKG_HD_RECVING"
    and hdr: "p_headerinfo c = HdrLive m" "length m = PKG_HEADER_LEN" "p_recvbuf c = InHeader off"
      "off < PKG_HEADER_LEN" "recvlen c = PKG_HEADER_LEN - off"
    and r: "ra_data r \<noteq> []" "ra_n r = int (length (ra_data r))" "off + length (ra_data r) \<le> PKG_HEADER_LEN"
  shows "\<exists>w'. header_event env r a w = Inr w' \<and> consumes a (take off m @ ra_data r) w w'"
proof -
  let ?d = "ra_data r"
  note ev = header_event_data [OF c hdr refl r, of env]
  show ?thesis
  proof (cases "off + length ?d = PKG_HEADER_LEN")
    case True
    let ?f = "\<lambda>c. c\<lparr>p_headerinfo := HdrLive (take off m @ ?d),
            recvlen_already := recvlen_already c + length ?d\<rparr>"
    let ?w = "w\<lparr>g_socket := upd_conn a ?f (g_socket w)\<rparr>"
    have "\<exists>w'. pkg_header_proc a ?w = Inr w' \<and> consumes a (take off m @ ?d) ?w w'"
      by (rule pkg_header_proc_consumes) (use True hdr in simp_all)
    then obtain w' where w': "pkg_header_proc a ?w = Inr w'" "consumes a (take off m @ ?d) ?w w'"
      by blast
    have "consumes a (take off m @ ?d) w w'"
      by (rule consumes_start [OF w'(2)]) simp
    with True ev w'(1) show ?thesis by simp
  next
    case False
    with r have less: "off + length ?d < PKG_HEADER_LEN" by simp
    then have "length (take off m @ ?d) < PKG_HEADER_LEN" using hdr by simp
    note fr = frames_short [OF this]
    have "take (off + length ?d) (write_at m off ?d) = take off m @ ?d"
      using less hdr by simp
    with False ev less hdr fr show ?thesis
      by (simp add: consumes_def c(1) Let_def recv_wf_def pending_def)
  qed
qed

lemma start_state [simp]:
  "recv_wf a (PutToStateMach c)" "pending (PutToStateMach c) = []"
  by (simp_all add: recv_wf_def pending_def PutToStateMach_def)

lemma body_shape:
  assumes "recv_wf a c" "curstat c = PKG_BD_INIT \<or> curstat c = PKG_BD_RECVING"
  obtains h m off where "p_headerinfo c = HdrLive h" "p_msgrecv c = Some m" "p_recvbuf c = InMsg off"
    and "length h = PKG_HEADER_LEN" "valid_size (stream_pkg_size h)"
    and "length m = MSG_HEADER_LEN + stream_pkg_size h + 1"
    and "MSG_HEADER_LEN + PKG_HEADER_LEN \<le> off" "off < MSG_HEADER_LEN + stream_pkg_size h"
    and "recvlen c = MSG_HEADER_LEN + stream_pkg_size h - off"
    and "take (MSG_HEADER_LEN + PKG_HEADER_LEN) m =
           enc_msg_header \<lparr>lp_curconn = a, msg_cursequence = sequence c\<rparr> @ h"
    and "drop (MSG_HEADER_LEN + stream_pkg_size h) m = [0]"
    and "pending c = take (off - MSG_HEADER_LEN) (drop MSG_HEADER_LEN m)"
  using assms by (auto simp: state_names Let_def split: hdr_ptr.splits option.splits buf_ptr.splits)

text \<open>The message under construction is header, pending bytes, unwritten rest.\<close>

lemma body_message:
  assumes "take (MSG_HEADER_LEN + PKG_HEADER_LEN) m = e @ h" "length e = MSG_HEADER_LEN"
    and "MSG_HEADER_LEN + PKG_HEADER_LEN \<le> off" "off \<le> length m"
  shows "take off m = e @ take (off - MSG_HEADER_LEN) (drop MSG_HEADER_LEN m)"
    and "take PKG_HEADER_LEN (take (off - MSG_HEADER_LEN) (drop MSG_HEADER_LEN m)) = h"
proof -
  have m: "m = e @ h @ drop (MSG_HEADER_LEN + PKG_HEADER_LEN) m"
    using append_take_drop_id [of "MSG_HEADER_LEN + PKG_HEADER_LEN" m] assms(1) by simp
  have "length (e @ h) = MSG_HEADER_LEN + PKG_HEADER_LEN"
    using assms(3,4) by (simp flip: assms(1))
  then have h: "length h = PKG_HEADER_LEN" using assms(2) by simp
  show "take off m = e @ take (off - MSG_HEADER_LEN) (drop MSG_HEADER_LEN m)"
    using assms(2,3) by (subst (1 2) m) simp
  show "take PKG_HEADER_LEN (take (off - MSG_HEADER_LEN) (drop MSG_HEADER_LEN m)) = h"
    using assms(2,3) h by (subst m) simp
qed

lemma body_event_consumes:
  assumes wf: "recv_wf a (conns (g_socket w) a)"
    and st: "curstat (conns (g_socket w) a) = PKG_BD_INIT \<or> curstat (conns (g_socket w) a) = PKG_BD_RECVING"
    and r: "ra_data r \<noteq> []" "ra_n r = int (length (ra_data r))"
      "length (ra_data r) \<le> recvlen (conns (g_socket w) a)"
  shows "\<exists>w'. body_event env r a w = Inr w' \<and>
    consumes a (pending (conns (g_socket w) a) @ ra_data r) w w'"
proof -
  let ?c = "conns (g_socket w) a" and ?d = "ra_data r"
  let ?e = "enc_msg_header \<lparr>lp_curconn = a, msg_cursequence = sequence ?c\<rparr>"
  from body_shape [OF wf st] obtain h m off
    where ptr: "p_headerinfo ?c = HdrLive h" "p_msgrecv ?c = Some m" "p_recvbuf ?c = InMsg off"
    and h: "length h = PKG_HEADER_LEN" "valid_size (stream_pkg_size h)"
    and m: "length m = MSG_HEADER_LEN + stream_pkg_size h + 1"
    and off: "MSG_HEADER_LEN + PKG_HEADER_LEN \<le> off" "off < MSG_HEADER_LEN + stream_pkg_size h"
    and k: "recvlen ?c = MSG_HEADER_LEN + stream_pkg_size h - off"
    and head: "take (MSG_HEADER_LEN + PKG_HEADER_LEN) m = ?e @ h"
    and tail: "drop (MSG_HEADER_LEN + stream_pkg_size h) m = [0]"
    and pend: "pending ?c = take (off - MSG_HEADER_LEN) (drop MSG_HEADER_LEN m)"
    by metis
  let ?n = "stream_pkg_size h"
  have "length ?e = MSG_HEADER_LEN" "off \<le> length m" using off m by simp_all
  note msg = body_message [OF head this(1) off(1) this(2), folded pend]
  have d: "off + length ?d \<le> MSG_HEADER_LEN + ?n" "off + recvlen ?c \<le> length m"
    using r(3) k off m by auto
  obtain p where p: "pending ?c = h @ p"
    using msg(2) by (metis append_take_drop_id)
  have len: "length (pending ?c) = off - MSG_HEADER_LEN" using off m by (simp add: pend)
  then have fl: "length (h @ p @ ?d) = off - MSG_HEADER_LEN + length ?d" using p by simp
  have fr: "frames (pending ?c @ ?d) =
      (if off + length ?d = MSG_HEADER_LEN + ?n then ([pending ?c @ ?d], []) else ([], pending ?c @ ?d))"
    using frames_body [OF h, of "p @ ?d"] fl off d by (auto simp: p)
  note ev = body_event_data [OF refl st ptr refl d(2) refl r, of env]
  show ?thesis
  proof (cases "off + length ?d = MSG_HEADER_LEN + ?n")
    case True
    then have "length ?d = recvlen ?c" using k off by simp
    moreover have "write_at m off ?d = ?e @ (pending ?c @ ?d) @ [0]"
      by (simp add: write_at_def msg(1) True tail)
    ultimately show ?thesis
      using ev True by (simp add: consumes_def fr Let_def InMsgRecv_def message_of_def
          PutToStateMach_frame)
  next
    case False
    with d off have less: "off + length ?d < MSG_HEADER_LEN + ?n" by simp
    then have ne: "length ?d \<noteq> recvlen ?c" using k by simp
    have w1: "take (MSG_HEADER_LEN + PKG_HEADER_LEN) (write_at m off ?d) = ?e @ h"
      using off m head by simp
    have w2: "drop (MSG_HEADER_LEN + ?n) (write_at m off ?d) = [0]"
      using less m off tail by (simp add: write_at_def)
    have "take (off + length ?d) (write_at m off ?d) = take off m @ ?d"
      using less m by simp
    then have w3: "take (off + length ?d - MSG_HEADER_LEN) (drop MSG_HEADER_LEN (write_at m off ?d)) =
        pending ?c @ ?d"
      using off by (simp add: take_drop msg(1))
    let ?c' = "?c\<lparr>p_msgrecv := Some (write_at m off ?d), p_recvbuf := InMsg (off + length ?d),
        recvlen := recvlen ?c - length ?d, recvlen_already := recvlen_already ?c + length ?d,
        curstat := PKG_BD_RECVING\<rparr>"
    have "recv_wf a ?c'"
      using less ptr h m off k w1 w2 by (simp add: recv_wf_def Let_def)
    moreover have "pending ?c' = pending ?c @ ?d"
      using w3 by (simp add: pending_def [of ?c'])
    ultimately show ?thesis
      using ev ne False by (simp add: consumes_def fr Let_def)
  qed
qed

lemma body_event_quiet:
  assumes c: "c = conns (g_socket w) a" "curstat c = PKG_BD_INIT \<or> curstat c = PKG_BD_RECVING"
    and pos: "0 < recvlen c" and r: "ra_data r = []" "quiet_ans c r"
  shows "body_event env r a w =
    Inr (w\<lparr>g_socket := upd_conn a (\<lambda>_. c\<lparr>curstat := PKG_BD_RECVING\<rparr>) (g_socket w)\<rparr>)"
  using assms
  by (auto simp: body_event_def pkg_body_recv_def recvproc_def recv_write_def quiet_ans_def
      recv_account_def upd_conn_def Let_def)

lemma header_shape:
  assumes "recv_wf a c" "curstat c = PKG_HD_RECVING"
  obtains m off where "p_headerinfo c = HdrLive m" "p_recvbuf c = InHeader off"
    and "length m = PKG_HEADER_LEN" "off < PKG_HEADER_LEN" "recvlen c = PKG_HEADER_LEN - off"
    and "pending c = take off m"
  using assms by (auto simp: state_names split: hdr_ptr.splits buf_ptr.splits)

lemma wf_states:
  "recv_wf a c \<Longrightarrow> curstat c = PKG_HD_INIT \<or> curstat c = PKG_HD_RECVING \<or>
     curstat c = PKG_BD_INIT \<or> curstat c = PKG_BD_RECVING"
  by (simp add: recv_wf_def split: if_splits)

text \<open>The pending bytes never hold a complete packet, and the machine always waits for something.\<close>

lemma frames_pending:
  assumes "recv_wf a c"
  shows "frames (pending c) = ([], pending c)"
  using wf_states [OF assms]
proof (elim disjE)
  assume "curstat c = PKG_HD_INIT"
  then show ?thesis by (simp add: pending_def)
next
  assume "curstat c = PKG_HD_RECVING"
  from header_shape [OF assms this] show ?thesis by (metis frames_short length_take min.strict_coboundedI2)
next
  have *: ?thesis if st: "curstat c = PKG_BD_INIT \<or> curstat c = PKG_BD_RECVING"
  proof -
    from body_shape [OF assms st] obtain h m off
      where h: "length h = PKG_HEADER_LEN" "valid_size (stream_pkg_size h)"
      and m: "length m = MSG_HEADER_LEN + stream_pkg_size h + 1"
      and off: "MSG_HEADER_LEN + PKG_HEADER_LEN \<le> off" "off < MSG_HEADER_LEN + stream_pkg_size h"
      and head: "take (MSG_HEADER_LEN + PKG_HEADER_LEN) m =
           enc_msg_header \<lparr>lp_curconn = a, msg_cursequence = sequence c\<rparr> @ h"
      and pend: "pending c = take (off - MSG_HEADER_LEN) (drop MSG_HEADER_LEN m)"
      by metis
    have "take PKG_HEADER_LEN (pending c) = h"
      using body_message(2) [OF head _ off(1)] off m by (simp add: pend)
    then obtain p where p: "pending c = h @ p"
      by (metis append_take_drop_id)
    have "length (pending c) < stream_pkg_size h" using off m by (simp add: pend)
    then show ?thesis using frames_body [OF h, of p] by (simp add: p)
  qed
  { assume "curstat c = PKG_BD_INIT" with * show ?thesis by simp }
  { assume "curstat c = PKG_BD_RECVING" with * show ?thesis by simp }
qed

lemma recv_want_pos: "recv_wf a c \<Longrightarrow> 0 < recv_want c"
  using wf_states [of a c]
  by (auto simp: recv_want_def PKG_HEADER_LEN_def elim: header_shape body_shape)

lemma body_want_bound:
  "valid_size n \<Longrightarrow> MSG_HEADER_LEN + PKG_HEADER_LEN \<le> off \<Longrightarrow>
   MSG_HEADER_LEN + n - off \<le> PKG_MAX_LENGTH - 1000 - PKG_HEADER_LEN"
  by (auto simp: valid_size_def)

lemma recv_want_bound:
  assumes "recv_wf a c"
  shows "recv_want c \<le> PKG_MAX_LENGTH - 1000 - PKG_HEADER_LEN"
  using wf_states [OF assms]
proof (elim disjE)
  assume "curstat c = PKG_HD_INIT"
  then show ?thesis by (simp add: recv_want_def len_defs)
next
  assume st: "curstat c = PKG_HD_RECVING"
  from assms st obtain off where "recvlen c = PKG_HEADER_LEN - off" by (rule header_shape)
  with st show ?thesis by (simp add: recv_want_def len_defs)
next
  have *: "recvlen c \<le> PKG_MAX_LENGTH - 1000 - PKG_HEADER_LEN"
    if st: "curstat c = PKG_BD_INIT \<or> curstat c = PKG_BD_RECVING"
    using body_shape [OF assms st] by (metis (no_types) body_want_bound)
  { assume "curstat c = PKG_BD_INIT" with * show ?thesis by (simp add: recv_want_def) }
  { assume "curstat c = PKG_BD_RECVING" with * show ?thesis by (simp add: recv_want_def) }
qed

text \<open>A change of the connection that keeps its sequence and its pending bytes consumes nothing.\<close>

lemma consumes_idle:
  assumes "recv_wf a (conns (g_socket w) a)"
    and "recv_wf a c'" "sequence c' = sequence (conns (g_socket w) a)"
      "pending c' = pending (conns (g_socket w) a)"
  shows "consumes a (pending (conns (g_socket w) a)) w
    (w\<lparr>g_socket := upd_conn a (\<lambda>_. c') (g_socket w)\<rparr>)"
  using assms frames_pending [OF assms(1)] by (simp add: consumes_def Let_def)

lemma readable_request_consumes:
  assumes wf: "recv_wf a (conns (g_socket w) a)" and q: "quiet_ans (conns (g_socket w) a) r"
  shows "\<exists>w'. readable_request env r a w = Inr w' \<and>
    consumes a (pending (conns (g_socket w) a) @ ra_data r) w w'"
proof -
  let ?c = "conns (g_socket w) a"
  let ?start = "\<lambda>c. c\<lparr>p_headerinfo := HdrLive (AllocMemory PKG_HEADER_LEN),
            p_recvbuf := InHeader 0, recvlen := PKG_HEADER_LEN\<rparr>"
  let ?w = "w\<lparr>g_socket := upd_conn a ?start (g_socket w)\<rparr>"
  consider (init) "curstat ?c = PKG_HD_INIT" | (hdr) "curstat ?c = PKG_HD_RECVING"
    | (bdy) "curstat ?c = PKG_BD_INIT \<or> curstat ?c = PKG_BD_RECVING"
    using wf_states [OF wf] by blast
  then show ?thesis
  proof cases
    case init
    have ev: "readable_request env r a w = header_event env r a ?w"
      using init by (simp add: readable_request_def)
    have pend: "pending ?c = []" using init by (simp add: pending_def)
    have len: "length (AllocMemory PKG_HEADER_LEN) = PKG_HEADER_LEN" "0 < PKG_HEADER_LEN"
      by (simp_all add: AllocMemory_def PKG_HEADER_LEN_def)
    show ?thesis
    proof (cases "ra_data r = []")
      case True
      have ev': "header_event env r a ?w = Inr (if ra_errno r = EAGAIN then ?w
         else ?w\<lparr>g_socket := upd_conn a (\<lambda>_. (?start ?c)\<lparr>curstat := PKG_HD_RECVING\<rparr>) (g_socket ?w)\<rparr>)"
        by (rule header_event_quiet) (use init len True q in \<open>auto simp: quiet_ans_def recv_want_def\<close>)
      show ?thesis
        using ev ev' True init pend len
        by (auto simp: consumes_def Let_def state_names)
    next
      case False
      have "\<exists>w'. header_event env r a ?w = Inr w' \<and>
          consumes a (take 0 (AllocMemory PKG_HEADER_LEN) @ ra_data r) ?w w'"
        by (rule header_event_consumes [OF refl])
          (use init len False q in \<open>auto simp: quiet_ans_def recv_want_def\<close>)
      with ev pend show ?thesis by (auto dest: consumes_start)
    qed
  next
    case hdr
    from header_shape [OF wf hdr] obtain m off
      where m: "p_headerinfo ?c = HdrLive m" "length m = PKG_HEADER_LEN" "p_recvbuf ?c = InHeader off"
        "off < PKG_HEADER_LEN" "recvlen ?c = PKG_HEADER_LEN - off" and pend: "pending ?c = take off m"
      by metis
    have ev: "readable_request env r a w = header_event env r a w"
      using hdr m by (simp add: readable_request_def)
    show ?thesis
    proof (cases "ra_data r = []")
      case True
      have same: "?c\<lparr>curstat := PKG_HD_RECVING\<rparr> = ?c" using hdr by simp
      have ev': "header_event env r a w = Inr w"
        using header_event_quiet [OF refl _ _ True q, of env] hdr m by (simp add: same)
      show ?thesis
        using ev ev' True consumes_idle [OF wf wf refl refl] by simp
    next
      case False
      have "\<exists>w'. header_event env r a w = Inr w' \<and> consumes a (take off m @ ra_data r) w w'"
        by (rule header_event_consumes [OF refl _ m])
          (use hdr m False q in \<open>auto simp: quiet_ans_def recv_want_def\<close>)
      with ev pend show ?thesis by simp
    qed
  next
    case bdy
    have ev: "readable_request env r a w = body_event env r a w"
      using bdy by (auto simp: readable_request_def)
    have want: "recv_want ?c = recvlen ?c" "0 < recvlen ?c"
      using bdy recv_want_pos [OF wf] by (auto simp: recv_want_def)
    show ?thesis
    proof (cases "ra_data r = []")
      case True
      have "recv_wf a (?c\<lparr>curstat := PKG_BD_RECVING\<rparr>)" "pending (?c\<lparr>curstat := PKG_BD_RECVING\<rparr>) = pending ?c"
        using wf bdy by (auto simp: state_names Let_def cong: hdr_ptr.case_cong option.case_cong buf_ptr.case_cong)
      then show ?thesis
        using ev body_event_quiet [OF refl bdy want(2) True q, of env] True consumes_idle [OF wf]
        by simp
    next
      case False
      have "\<exists>w'. body_event env r a w = Inr w' \<and> consumes a (pending ?c @ ra_data r) w w'"
        by (rule body_event_consumes [OF wf bdy]) (use False q want in \<open>auto simp: quiet_ans_def\<close>)
      with ev show ?thesis by simp
    qed
  qed
qed

section \<open>Runs of the machine\<close>

text \<open>The handler called once for every readable event of the connection.\<close>

fun recv_run :: "(os_env \<times> recv_ans) list \<Rightarrow> addr \<Rightarrow> world \<Rightarrow> fault + world" where
  "recv_run [] a w = Inr w"
| "recv_run ((env, r) # rs) a w = bindE (readable_request env r a w) (recv_run rs a)"

fun quiet_run :: "(os_env \<times> recv_ans) list \<Rightarrow> addr \<Rightarrow> world \<Rightarrow> bool" where
  "quiet_run [] a w = True"
| "quiet_run ((env, r) # rs) a w =
     (quiet_ans (conns (g_socket w) a) r \<and>
      (case readable_request env r a w of Inl _ \<Rightarrow> False | Inr w' \<Rightarrow> quiet_run rs a w'))"

definition run_bytes :: "(os_env \<times> recv_ans) list \<Rightarrow> byte list" where
  "run_bytes rs = concat (map (\<lambda>x. ra_data (snd x)) rs)"

lemma run_bytes_simps [simp]:
  "run_bytes [] = []" "run_bytes ((env, r) # rs) = ra_data r @ run_bytes rs"
  by (simp_all add: run_bytes_def)

lemma consumes_trans:
  assumes "consumes a bs w w1" "consumes a (pending (conns (g_socket w1) a) @ d) w1 w2"
  shows "consumes a (bs @ d) w w2"
  using assms by (simp add: consumes_def Let_def frames_append [of bs d])

lemma consumes_wf: "consumes a bs w w' \<Longrightarrow> recv_wf a (conns (g_socket w') a)"
  by (simp add: consumes_def Let_def)

lemma recv_run_consumes:
  "recv_wf a (conns (g_socket w) a) \<Longrightarrow> quiet_run rs a w \<Longrightarrow>
   \<exists>w'. recv_run rs a w = Inr w' \<and>
     consumes a (pending (conns (g_socket w) a) @ run_bytes rs) w w'"
proof (induction rs arbitrary: w)
  case Nil
  have "consumes a (pending (conns (g_socket w) a)) w w"
    using consumes_idle [OF Nil(1) Nil(1) refl refl] by simp
  then show ?case by simp
next
  case (Cons x rs)
  obtain env r where x: "x = (env, r)" by (cases x)
  from Cons.prems(2) x have q: "quiet_ans (conns (g_socket w) a) r" by simp
  from readable_request_consumes [OF Cons.prems(1) q, of env] obtain w1
    where w1: "readable_request env r a w = Inr w1"
      "consumes a (pending (conns (g_socket w) a) @ ra_data r) w w1" by blast
  from Cons.prems(2) x w1 have "quiet_run rs a w1" by simp
  from Cons.IH [OF consumes_wf [OF w1(2)] this] obtain w2
    where "recv_run rs a w1 = Inr w2"
      "consumes a (pending (conns (g_socket w1) a) @ run_bytes rs) w1 w2" by blast
  with w1 x consumes_trans [OF w1(2)] show ?case by simp
qed

text \<open>A packet a client may send: a header whose length field is the length of the whole.\<close>

definition valid_packet :: "byte list \<Rightarrow> bool" where
  "valid_packet p \<longleftrightarrow> PKG_HEADER_LEN \<le> length p \<and> stream_pkg_size p = length p \<and> valid_size (length p)"

lemma frames_valid_packets:
  "\<forall>p \<in> set ps. valid_packet p \<Longrightarrow> frames (concat ps) = (ps, [])"
proof (induction ps)
  case Nil
  then show ?case by simp
next
  case (Cons p ps)
  then have p: "PKG_HEADER_LEN \<le> length p" "stream_pkg_size p = length p" "valid_size (length p)"
    and ps: "frames (concat ps) = (ps, [])"
    by (simp_all add: valid_packet_def)
  have "frames p = ([p], [])" using p by (simp add: frames_cut)
  with ps show ?case using frames_append [of p "concat ps"] by simp
qed

lemma build_packet_valid:
  assumes "valid_size (PKG_HEADER_LEN + length body)"
  shows "valid_packet (enc_pkg_header \<lparr>pkgLen = htons (of_nat (PKG_HEADER_LEN + length body)),
      msgCode = code, crc32 = crc\<rparr> @ body)"
proof -
  have u: "unat (of_nat k :: u16) = k" if "k < 2 ^ 16" for k
    using that by (simp add: unsigned_of_nat take_bit_nat_eq_self)
  have "PKG_HEADER_LEN + length body < 2 ^ 16"
    using assms by (simp add: valid_size_def len_defs)
  then have "unat (of_nat (PKG_HEADER_LEN + length body) :: u16) = PKG_HEADER_LEN + length body"
    by (rule u)
  with assms show ?thesis
    by (simp add: valid_packet_def stream_pkg_size_def)
qed

section \<open>Answers that are not quiet\<close>

lemma close_never_bad_access:
  "close_accepted_connection ok1 ok2 now a t s \<noteq> Inl BadAccess"
  by (simp add: close_accepted_connection_cases)

lemma recvproc_no_data:
  assumes "ra_data r = []" "ra_n r = 0 \<or> ra_n r = -1" "\<not> (ra_n r = 0 \<and> ra_errno r = 0)"
    "\<not> (ra_n r = -1 \<and> ra_errno r = EINTR)"
  obtains (stay) "ra_errno r = EAGAIN" "recvproc env r a s = Inr (-1, s)"
    | (close) "ra_errno r \<noteq> EAGAIN" "recvproc env r a s = bindE (close_accepted_connection (env_ctl_ok env)
        (env_close_ok env) (env_now env) a False s) (\<lambda>s. Inr (-1, s))"
  using assms by (cases "ra_errno r = EAGAIN") (auto simp: recvproc_def recv_write_def Let_def)

lemma not_quiet_no_data:
  assumes "recv_ok (recv_want c) r" "\<not> quiet_ans c r"
  shows "ra_data r = []" "ra_n r = 0 \<or> ra_n r = -1" "\<not> (ra_n r = 0 \<and> ra_errno r = 0)"
    "\<not> (ra_n r = -1 \<and> ra_errno r = EINTR)"
  using assms by (auto simp: recv_ok_def quiet_ans_def split: if_splits)

text \<open>Whatever \<open>recv\<close> answers, a well-formed connection is read without a bad access.\<close>

lemma readable_request_safe:
  assumes wf: "recv_wf a (conns (g_socket w) a)" and r: "recv_ok (recv_want (conns (g_socket w) a)) r"
  shows "readable_request env r a w \<noteq> Inl BadAccess"
proof (cases "quiet_ans (conns (g_socket w) a) r")
  case True
  with readable_request_consumes [OF wf, of r env] show ?thesis by auto
next
  case False
  note nd = not_quiet_no_data [OF r False]
  have rp: "recvproc env r a s \<noteq> Inl BadAccess \<and> (\<forall>x. recvproc env r a s = Inr x \<longrightarrow> fst x = -1)" for s
    using nd by (rule recvproc_no_data [where s = s and a = a and env = env])
      (auto simp: bindE_def close_never_bad_access split: sum.splits)
  have h: "header_event env r a w' \<noteq> Inl BadAccess" for w'
    using rp [of "g_socket w'"]
    by (auto simp: header_event_def pkg_header_recv_def bindE_def Let_def split: sum.splits prod.splits)
  have b: "body_event env r a w \<noteq> Inl BadAccess"
    if "curstat (conns (g_socket w) a) = PKG_BD_INIT \<or> curstat (conns (g_socket w) a) = PKG_BD_RECVING"
    using rp [of "g_socket w"] that
    by (auto simp: body_event_def pkg_body_recv_def bindE_def Let_def split: sum.splits prod.splits)
  from wf_states [OF wf] h b show ?thesis
    by (auto simp: readable_request_def Let_def)
qed

lemma body_event_eagain:
  assumes c: "c = conns (g_socket w) a" "curstat c = PKG_BD_INIT \<or> curstat c = PKG_BD_RECVING"
    and pos: "0 < recvlen c" and r: "ra_data r = []" "ra_n r = -1" "ra_errno r = EAGAIN"
  shows "body_event env r a w = Inr (w\<lparr>g_socket := upd_conn a (\<lambda>_. drop_message c) (g_socket w)\<rparr>)"
  using assms
  by (auto simp: body_event_def pkg_body_recv_def recvproc_def recv_write_def upd_conn_def Let_def)

lemma body_data_dangling:
  assumes "curstat (conns (g_socket w) a) = PKG_BD_INIT \<or> curstat (conns (g_socket w) a) = PKG_BD_RECVING"
    and "0 < recvlen (conns (g_socket w) a)" "p_msgrecv (conns (g_socket w) a) = None"
    and "p_recvbuf (conns (g_socket w) a) = InMsg off" "ra_data r \<noteq> []"
  shows "body_event env r a w = Inl BadAccess"
  using assms
  by (auto simp: body_event_def pkg_body_recv_def recvproc_def recv_write_def Let_def)

section \<open>Properties\<close>

text \<open>A connection with descriptor 7 that waits for its first packet, and a packet without body.\<close>

definition recv_example :: world where
  "recv_example = \<lparr>g_socket = CSocket_new ((\<lambda>_. zero_connection)(1 := zero_connection\<lparr>fd := 7, sequence := 1\<rparr>)),
     g_threadpool = CThreadPool_new, use_accept4 = True\<rparr>"

definition quiet_env :: os_env where
  "quiet_env = \<lparr>env_ctl_ok = True, env_close_ok = True, env_now = 0\<rparr>"

definition got :: "byte list \<Rightarrow> os_env \<times> recv_ans" where
  "got bs = (quiet_env, \<lparr>ra_n = int (length bs), ra_data = bs, ra_errno = 0\<rparr>)"

definition got_eagain :: "os_env \<times> recv_ans" where
  "got_eagain = (quiet_env, \<lparr>ra_n = -1, ra_data = [], ra_errno = EAGAIN\<rparr>)"

text \<open>C8. The four-state receiver implements the splitter. However the byte stream of a connection is
  cut into reads, and however often a read is interrupted or comes too early (outside a body), the
  run of the handler succeeds, it queues exactly the packets the splitter finds in the bytes it
  already held followed by the bytes read -- each behind the connection's address and sequence, in
  order -- keeps exactly the incomplete rest, and touches no other connection.\<close>

theorem recv_run_refines_frames:
  assumes "recv_wf a (conns (g_socket w) a)" "quiet_run rs a w"
  shows "\<exists>w'. recv_run rs a w = Inr w' \<and>
    (let c = conns (g_socket w) a; (packets, rest) = frames (pending c @ run_bytes rs) in
     m_msgqueue (g_threadpool w') =
       m_msgqueue (g_threadpool w) @ map (\<lambda>p. Some (message_of a (sequence c) p)) packets \<and>
     pending (conns (g_socket w') a) = rest \<and> recv_wf a (conns (g_socket w') a) \<and>
     (\<forall>b. b \<noteq> a \<longrightarrow> conns (g_socket w') b = conns (g_socket w) b))"
  using recv_run_consumes [OF assms]
  by (auto simp: consumes_def Let_def split: prod.splits)

theorem recv_run_refines_frames_witness:
  "\<exists>w'. recv_run [got [0, 8, 0], got_eagain, got [0, 0, 0, 0, 0], got [0, 10]] 1 recv_example = Inr w' \<and>
     m_msgqueue (g_threadpool w') = [Some (message_of 1 1 [0, 8, 0, 0, 0, 0, 0, 0])] \<and>
     pending (conns (g_socket w') 1) = [0, 10]"
proof -
  let ?rs = "[got [0, 8, 0], got_eagain, got [0, 0, 0, 0, 0], got [0, 10]]"
  have wf: "recv_wf 1 (conns (g_socket recv_example) 1)" by code_simp
  have q: "quiet_run ?rs 1 recv_example" by code_simp
  have fr: "frames (pending (conns (g_socket recv_example) 1) @ run_bytes ?rs) =
      ([[0, 8, 0, 0, 0, 0, 0, 0]], [0, 10])" by code_simp
  have init: "m_msgqueue (g_threadpool recv_example) = []" "sequence (conns (g_socket recv_example) 1) = 1"
    by (simp_all add: recv_example_def CThreadPool_new_def CSocket_new_def)
  from recv_run_refines_frames [OF wf q] show ?thesis
    unfolding fr Let_def init by auto
qed

text \<open>C19. Packets survive fragmentation: when the bytes of any sequence of valid packets arrive on a
  connection between packets, in whatever pieces, exactly these packets are queued, in order, and
  nothing is left over.\<close>

theorem valid_packets_received:
  assumes "curstat (conns (g_socket w) a) = PKG_HD_INIT" "quiet_run rs a w"
    and "run_bytes rs = concat ps" "\<forall>p \<in> set ps. valid_packet p"
  shows "\<exists>w'. recv_run rs a w = Inr w' \<and>
    m_msgqueue (g_threadpool w') = m_msgqueue (g_threadpool w) @
      map (\<lambda>p. Some (message_of a (sequence (conns (g_socket w) a)) p)) ps \<and>
    pending (conns (g_socket w') a) = []"
proof -
  have "recv_wf a (conns (g_socket w) a)" "pending (conns (g_socket w) a) = []"
    using assms(1) by (simp_all add: recv_wf_def pending_def)
  with recv_run_consumes [OF this(1) assms(2)] show ?thesis
    by (auto simp: consumes_def Let_def assms(3) frames_valid_packets [OF assms(4)])
qed

theorem valid_packets_received_witness:
  "\<exists>w'. recv_run [got [0, 8, 0], got [0, 0, 0, 0, 0], got [0, 8, 0, 0, 0, 0, 0, 0]] 1 recv_example = Inr w' \<and>
     length (m_msgqueue (g_threadpool w')) = 2"
proof -
  let ?rs = "[got [0, 8, 0], got [0, 0, 0, 0, 0], got [0, 8, 0, 0, 0, 0, 0, 0]]"
  have init: "curstat (conns (g_socket recv_example) 1) = PKG_HD_INIT" by code_simp
  have q: "quiet_run ?rs 1 recv_example" by code_simp
  have bytes: "run_bytes ?rs = concat [[0, 8, 0, 0, 0, 0, 0, 0], [0, 8, 0, 0, 0, 0, 0, 0]]" by code_simp
  have valid: "\<forall>p \<in> set [[0, 8, 0, 0, 0, 0, 0, 0], [0, 8, 0, 0, 0, 0, 0, 0]]. valid_packet p" by code_simp
  have "m_msgqueue (g_threadpool recv_example) = []"
    by (simp add: recv_example_def CThreadPool_new_def)
  with valid_packets_received [OF init q bytes valid] show ?thesis by auto
qed

text \<open>C15. Reading is memory safe: on a well-formed connection no answer \<open>recv\<close> may give makes the handler
  follow a dangling pointer or write outside its block, and no read asks for nothing or for more
  than a packet body may have.\<close>

theorem readable_request_no_bad_access:
  assumes "recv_wf a (conns (g_socket w) a)" "recv_ok (recv_want (conns (g_socket w) a)) r"
  shows "readable_request env r a w \<noteq> Inl BadAccess \<and>
    0 < recv_want (conns (g_socket w) a) \<and> recv_want (conns (g_socket w) a) \<le> 28992"
  using readable_request_safe [OF assms] recv_want_pos [OF assms(1)] recv_want_bound [OF assms(1)]
  by (simp add: len_defs)

theorem readable_request_no_bad_access_witness:
  "readable_request quiet_env \<lparr>ra_n = 3, ra_data = [0, 8, 0], ra_errno = 0\<rparr> 1 recv_example \<noteq> Inl BadAccess"
proof -
  have "recv_wf 1 (conns (g_socket recv_example) 1)" by code_simp
  moreover have "recv_ok (recv_want (conns (g_socket recv_example) 1)) \<lparr>ra_n = 3, ra_data = [0, 8, 0], ra_errno = 0\<rparr>"
    by code_simp
  ultimately show ?thesis using readable_request_no_bad_access by blast
qed

text \<open>C32. A read that comes too early inside a body (\<open>EAGAIN\<close>) discards the message but keeps the
  state and the pointer into it: the next bytes of the body are written through that pointer.\<close>

theorem eagain_in_body_dangles:
  assumes "recv_wf a (conns (g_socket w) a)"
    and "curstat (conns (g_socket w) a) = PKG_BD_INIT \<or> curstat (conns (g_socket w) a) = PKG_BD_RECVING"
    and "ra_n r = -1" "ra_data r = []" "ra_errno r = EAGAIN" "ra_data r2 \<noteq> []"
  shows "\<exists>w'. readable_request env r a w = Inr w' \<and> readable_request env2 r2 a w' = Inl BadAccess"
proof -
  let ?c = "conns (g_socket w) a"
  let ?w' = "w\<lparr>g_socket := upd_conn a (\<lambda>_. drop_message ?c) (g_socket w)\<rparr>"
  from body_shape [OF assms(1,2)] obtain off where buf: "p_recvbuf ?c = InMsg off" by metis
  have pos: "0 < recvlen ?c"
    using recv_want_pos [OF assms(1)] assms(2) by (auto simp: recv_want_def)
  have first: "readable_request env r a w = Inr ?w'"
    using body_event_eagain [OF refl assms(2) pos assms(4,3,5), of env] assms(2)
    by (auto simp: readable_request_def)
  have "body_event env2 r2 a ?w' = Inl BadAccess"
    by (rule body_data_dangling [of _ _ off]) (use assms(2,6) pos buf in \<open>simp_all add: drop_message_def\<close>)
  then have "readable_request env2 r2 a ?w' = Inl BadAccess"
    using assms(2) by (auto simp: readable_request_def drop_message_def)
  with first show ?thesis by blast
qed

theorem eagain_in_body_dangles_witness:
  "\<exists>w w'. recv_run [got [0, 9, 0, 0, 0, 0, 0, 0]] 1 recv_example = Inr w \<and>
     readable_request quiet_env (snd got_eagain) 1 w = Inr w' \<and>
     readable_request quiet_env (snd (got [1])) 1 w' = Inl BadAccess"
proof -
  have "case recv_run [got [0, 9, 0, 0, 0, 0, 0, 0]] 1 recv_example of Inl _ \<Rightarrow> False
     | Inr w \<Rightarrow> recv_wf 1 (conns (g_socket w) 1) \<and> curstat (conns (g_socket w) 1) = PKG_BD_INIT"
    by code_simp
  then obtain w where run: "recv_run [got [0, 9, 0, 0, 0, 0, 0, 0]] 1 recv_example = Inr w"
    and wf: "recv_wf 1 (conns (g_socket w) 1)" and st: "curstat (conns (g_socket w) 1) = PKG_BD_INIT"
    by (auto split: sum.splits)
  from eagain_in_body_dangles [OF wf disjI1 [OF st], of "snd got_eagain" "snd (got [1])" quiet_env quiet_env]
  show ?thesis using run by (auto simp: got_eagain_def got_def)
qed

text \<open>A peer that closes its side between two packets is not noticed when \<open>errno\<close> still holds 0 or
  \<open>EAGAIN\<close> from an earlier call: the read of length 0 leaves the connection open, sends no request
  to the operating system and does not queue the connection for recycling.\<close>

theorem shutdown_not_noticed:
  assumes "curstat (conns (g_socket w) a) = PKG_HD_INIT"
    and "ra_n r = 0" "ra_data r = []" "ra_errno r = 0 \<or> ra_errno r = EAGAIN"
  shows "\<exists>w'. readable_request env r a w = Inr w' \<and>
    fd (conns (g_socket w') a) = fd (conns (g_socket w) a) \<and>
    os_trace (g_socket w') = os_trace (g_socket w) \<and>
    m_recy_connectionList (g_socket w') = m_recy_connectionList (g_socket w)"
  using assms
  by (auto simp: readable_request_def header_event_def pkg_header_recv_def recvproc_def recv_write_def
      recv_account_def Let_def PKG_HEADER_LEN_def)

theorem shutdown_not_noticed_witness:
  "\<exists>w'. readable_request quiet_env \<lparr>ra_n = 0, ra_data = [], ra_errno = EAGAIN\<rparr> 1 recv_example = Inr w' \<and>
     fd (conns (g_socket w') 1) = 7 \<and> m_recy_connectionList (g_socket w') = []"
  using shutdown_not_noticed [of recv_example 1 "\<lparr>ra_n = 0, ra_data = [], ra_errno = EAGAIN\<rparr>" quiet_env]
  by (auto simp: recv_example_def CSocket_new_def zero_connection_def)

end
