(* ===== verification/Send.thy ===== *)
theory Send
  imports Recv
begin

text \<open>
  The sending side: \<open>MsgSendInQueue\<close> and the send thread (\<open>net/c_socket.cxx\<close>), \<open>sendproc\<close> and the
  \<open>EPOLLOUT\<close> handler (\<open>net/socket_request.cxx\<close>). A message is removed from the queue when its first
  bytes are offered to the socket; the rest is driven by \<open>EPOLLOUT\<close>. The abstract view of a
  connection is the stream of bytes still owed to its peer.
\<close>

section \<open>sendproc\<close>

text \<open>What \<open>send\<close> answers: it takes as many of the offered bytes as there is space for, or fails
  with an error number.\<close>

datatype send_ans = SendSpace nat | SendErr int

text \<open>The bytes at \<open>p_sendbuf\<close>. Reading through a null pointer, or beyond the message, is a bad
  access as soon as bytes are taken.\<close>

definition offered :: "connection \<Rightarrow> nat \<Rightarrow> byte list option" where
  "offered c n = (if n = 0 then Some [] else
     case p_sendbuf c of None \<Rightarrow> None
     | Some off \<Rightarrow> (case p_msgsend c of None \<Rightarrow> None
         | Some m \<Rightarrow> if off + n \<le> length m then Some (take n (drop off m)) else None))"

text \<open>\<open>sendproc\<close> is called with \<open>p_sendbuf\<close> and \<open>sendlen\<close> of the connection; it tries again when
  it was interrupted. The answers it did not use are returned.\<close>

fun sendproc :: "send_ans list \<Rightarrow> addr \<Rightarrow> csocket \<Rightarrow> fault + (int \<times> send_ans list \<times> csocket)" where
  "sendproc [] a s = Inl Waiting"
| "sendproc (SendErr errno # ans) a s =
     (if errno = EINTR then sendproc ans a s
      else if errno = EAGAIN then Inr (0, ans, s)
      else Inr (-1, ans, s))"
| "sendproc (SendSpace k # ans) a s =
     (let n = min k (sendlen (conns s a)) in
      if n = 0 then Inr (-1, ans, s)
      else case offered (conns s a) n of
          None \<Rightarrow> Inl BadAccess
        | Some bs \<Rightarrow> Inr (int n, ans, os_request (OsSend (fd (conns s a)) bs) s))"

section \<open>Queueing a message\<close>

definition msg_head :: "byte list \<Rightarrow> msg_header" where
  "msg_head m = dec_msg_header m"

definition pkg_head :: "byte list \<Rightarrow> pkg_header" where
  "pkg_head m = dec_pkg_header (drop MSG_HEADER_LEN m)"

text \<open>\<open>MsgSendInQueue\<close> in the parts between which other threads can act. First it takes the mutex and
  compares the counters with their limits; the two branches that drop the message return with the mutex
  still locked.\<close>

definition MsgSendInQueue_check :: "byte list \<Rightarrow> csocket \<Rightarrow> fault + bool \<times> csocket" where
  "MsgSendInQueue_check msg s =
     (if m_sendmutex s then Inl Deadlock
      else
        let s = s\<lparr>m_sendmutex := True\<rparr>;
            a = lp_curconn (msg_head msg)
        in if m_msgtosend_count s > 1000 then Inr (False, s)
           else if isend_count (conns s a) > 400 then Inr (False, s)
           else Inr (True, s))"

definition append_message :: "byte list \<Rightarrow> csocket \<Rightarrow> csocket" where
  "append_message msg s = s\<lparr>m_send_msgList := m_send_msgList s @ [msg], m_sendmutex := False\<rparr>"

text \<open>Behind the unlock: the two atomic counters, one after the other, and the semaphore.\<close>

definition count_reply :: "addr \<Rightarrow> csocket \<Rightarrow> csocket" where
  "count_reply a s = upd_conn a (\<lambda>c. c\<lparr>isend_count := isend_count c + 1\<rparr>) s"

definition count_message :: "csocket \<Rightarrow> csocket" where
  "count_message s = s\<lparr>m_msgtosend_count := m_msgtosend_count s + 1\<rparr>"

definition post_message :: "csocket \<Rightarrow> csocket" where
  "post_message s = s\<lparr>m_sendsem := m_sendsem s + 1\<rparr>"

text \<open>A call that no other thread interrupts.\<close>

definition MsgSendInQueue :: "byte list \<Rightarrow> csocket \<Rightarrow> fault + csocket" where
  "MsgSendInQueue msg s = bindE (MsgSendInQueue_check msg s) (\<lambda>(go, s).
     Inr (if go
          then post_message (count_message (count_reply (lp_curconn (msg_head msg)) (append_message msg s)))
          else s))"

lemma MsgSendInQueue_eq:
  "MsgSendInQueue msg s =
     (if m_sendmutex s then Inl Deadlock
      else
        let s = s\<lparr>m_sendmutex := True\<rparr>;
            a = lp_curconn (msg_head msg)
        in if m_msgtosend_count s > 1000 then Inr s
           else if isend_count (conns s a) > 400 then Inr s
           else Inr ((upd_conn a (\<lambda>c. c\<lparr>isend_count := isend_count c + 1\<rparr>)
                  (s\<lparr>m_send_msgList := m_send_msgList s @ [msg], m_sendmutex := False\<rparr>))
                  \<lparr>m_msgtosend_count := m_msgtosend_count s + 1, m_sendsem := m_sendsem s + 1\<rparr>))"
  by (simp add: MsgSendInQueue_def MsgSendInQueue_check_def append_message_def count_reply_def count_message_def
      post_message_def upd_conn_def Let_def)

section \<open>The send thread\<close>

definition clear_send :: "connection \<Rightarrow> connection" where
  "clear_send c = c\<lparr>send_str := False, p_sendbuf := None, p_msgsend := None\<rparr>"

definition take_message :: "byte list \<Rightarrow> connection \<Rightarrow> connection" where
  "take_message m c = c\<lparr>p_msgsend := Some m, send_str := True, isend_count := isend_count c - 1,
     sendlen_already := 0, p_sendbuf := Some MSG_HEADER_LEN,
     sendlen := unat (ntohs (pkgLen (pkg_head m)))\<rparr>"

text \<open>\<open>p_sendbuf += real_size\<close> and the two lengths.\<close>

definition sent_part :: "nat \<Rightarrow> connection \<Rightarrow> connection" where
  "sent_part n c = c\<lparr>p_sendbuf := map_option (\<lambda>off. off + n) (p_sendbuf c),
     sendlen := sendlen c - n, sendlen_already := sendlen_already c + n\<rparr>"

lemma send_part_frame [simp]:
  "fd (clear_send c) = fd c" "sequence (clear_send c) = sequence c" "inrecyList (clear_send c) = inrecyList c"
  "iThrowsendCount (clear_send c) = iThrowsendCount c"
  "fd (take_message m c) = fd c" "sequence (take_message m c) = sequence c"
  "inrecyList (take_message m c) = inrecyList c"
  "iThrowsendCount (take_message m c) = iThrowsendCount c"
  "fd (sent_part n c) = fd c" "sequence (sent_part n c) = sequence c"
  "inrecyList (sent_part n c) = inrecyList c" "iThrowsendCount (sent_part n c) = iThrowsendCount c"
  by (simp_all add: clear_send_def take_message_def sent_part_def)

text \<open>How a visit of the queue ends: at its end, or with the thread returning from the middle.\<close>

datatype scan_end = ScanDone | ScanReturn

text \<open>The visit of the queue, from one position on; the result has the messages that stay.\<close>

fun send_scan :: "bool \<Rightarrow> send_ans list \<Rightarrow> byte list list \<Rightarrow> csocket \<Rightarrow>
    fault + (scan_end \<times> byte list list \<times> send_ans list \<times> csocket)" where
  "send_scan ctl_ok ans [] s = Inr (ScanDone, [], ans, s)"
| "send_scan ctl_ok ans (m # ms) s =
     (let h = msg_head m; a = lp_curconn h in
      if \<not> judge_token (conns s a) (msg_cursequence h) then
        send_scan ctl_ok ans ms (upd_conn a clear_send s)
      else if iThrowsendCount (conns s a) > 0 then
        bindE (send_scan ctl_ok ans ms s) (\<lambda>(e, kept, r). Inr (e, m # kept, r))
      else
        let s = (upd_conn a (take_message m) s)\<lparr>m_msgtosend_count := m_msgtosend_count s - 1\<rparr>;
            suppose_size = sendlen (conns s a)
        in bindE (sendproc ans a s) (\<lambda>(real_size, ans, s).
          if real_size = -1 then
            send_scan ctl_ok ans ms (upd_conn a (\<lambda>c. (clear_send c)\<lparr>iThrowsendCount := 0\<rparr>) s)
          else if real_size < int suppose_size then
            let s = upd_conn a (\<lambda>c. (sent_part (nat real_size) c)
                                       \<lparr>iThrowsendCount := iThrowsendCount c + 1\<rparr>) s
            in send_scan ctl_ok ans ms
                 (snd (epoll_oper_event ctl_ok (fd (conns s a)) EPOLL_CTL_MOD EPOLLOUT 0 a s))
          else
            let s = upd_conn a (\<lambda>c. c\<lparr>sendlen_already := sendlen_already c + nat real_size\<rparr>) s in
            if sendlen_already (conns s a) \<noteq> sendlen_suppose (conns s a) then
              Inr (ScanReturn, ms, ans, s)
            else send_scan ctl_ok ans ms
                   (upd_conn a (\<lambda>c. (clear_send c)\<lparr>iThrowsendCount := 0\<rparr>) s)))"

text \<open>One round of the thread: it waits for the semaphore, and for the mutex if there is something to
  send. Returning from the middle of the visit leaves the mutex locked and \<open>running\<close> set.\<close>

definition SendMsgThread_visit ::
  "bool \<Rightarrow> send_ans list \<Rightarrow> csocket \<Rightarrow> fault + (bool \<times> send_ans list \<times> csocket)" where
  "SendMsgThread_visit ctl_ok ans s =
     (if m_sendmutex s then Inl Deadlock
      else bindE (send_scan ctl_ok ans (m_send_msgList s) s) (\<lambda>(e, kept, ans, s).
        let s = s\<lparr>m_send_msgList := kept\<rparr> in
        case e of
          ScanReturn \<Rightarrow> Inr (True, ans, s\<lparr>m_sendmutex := True\<rparr>)
        | ScanDone \<Rightarrow> Inr (False, ans, s)))"

definition SendMsgThread_round ::
  "bool \<Rightarrow> bool \<Rightarrow> send_ans list \<Rightarrow> thread_item \<Rightarrow> csocket \<Rightarrow>
   fault + (bool \<times> thread_item \<times> send_ans list \<times> csocket)" where
  "SendMsgThread_round stopEvent ctl_ok ans t s =
     (if m_sendsem s = 0 then Inl Waiting
      else
        let s = s\<lparr>m_sendsem := m_sendsem s - 1\<rparr> in
        if stopEvent \<or> ifshutdown t then Inr (True, t\<lparr>running := False\<rparr>, ans, s)
        else
          let t = t\<lparr>running := True\<rparr> in
          if m_msgtosend_count s > 0 then
            bindE (SendMsgThread_visit ctl_ok ans s) (\<lambda>(leave, ans, s). Inr (leave, t, ans, s))
          else Inr (False, t, ans, s))"

lemma SendMsgThread_round_eq:
  "SendMsgThread_round stopEvent ctl_ok ans t s =
     (if m_sendsem s = 0 then Inl Waiting
      else
        let s = s\<lparr>m_sendsem := m_sendsem s - 1\<rparr> in
        if stopEvent \<or> ifshutdown t then Inr (True, t\<lparr>running := False\<rparr>, ans, s)
        else
          let t = t\<lparr>running := True\<rparr> in
          if m_msgtosend_count s > 0 then
            if m_sendmutex s then Inl Deadlock
            else bindE (send_scan ctl_ok ans (m_send_msgList s) s) (\<lambda>(e, kept, ans, s).
              let s = s\<lparr>m_send_msgList := kept\<rparr> in
              case e of
                ScanReturn \<Rightarrow> Inr (True, t, ans, s\<lparr>m_sendmutex := True\<rparr>)
              | ScanDone \<Rightarrow> Inr (False, t, ans, s))
          else Inr (False, t, ans, s))"
proof -
  have "bindE (SendMsgThread_visit ctl_ok ans s) (\<lambda>(leave, ans, s). Inr (leave, u, ans, s)) =
     (if m_sendmutex s then Inl Deadlock
      else bindE (send_scan ctl_ok ans (m_send_msgList s) s) (\<lambda>(e, kept, ans, s).
        let s = s\<lparr>m_send_msgList := kept\<rparr> in
        case e of
          ScanReturn \<Rightarrow> Inr (True, u, ans, s\<lparr>m_sendmutex := True\<rparr>)
        | ScanDone \<Rightarrow> Inr (False, u, ans, s)))" for u :: thread_item and s
    by (cases "send_scan ctl_ok ans (m_send_msgList s) s")
      (auto simp: SendMsgThread_visit_def Let_def split: scan_end.split)
  then show ?thesis by (simp only: SendMsgThread_round_def)
qed

section \<open>The EPOLLOUT handler\<close>

definition writable_request ::
  "bool \<Rightarrow> send_ans list \<Rightarrow> addr \<Rightarrow> csocket \<Rightarrow> fault + (send_ans list \<times> csocket)" where
  "writable_request ctl_ok ans a s =
     (let suppose_size = int (sendlen (conns s a));
          finish = (\<lambda>s. upd_conn a (\<lambda>c. (clear_send c)\<lparr>iThrowsendCount := 0\<rparr>)
                          (s\<lparr>m_sendsem := m_sendsem s + 1\<rparr>))
      in bindE (sendproc ans a s) (\<lambda>(real_size, ans, s).
        if real_size \<ge> 0 then
          if real_size < suppose_size then Inr (ans, upd_conn a (sent_part (nat real_size)) s)
          else
            let s = upd_conn a (\<lambda>c. c\<lparr>sendlen_already := sendlen_already c + nat real_size\<rparr>) s in
            if sendlen_already (conns s a) \<noteq> sendlen_suppose (conns s a) then Inr (ans, s)
            else Inr (ans, finish
              (snd (epoll_oper_event ctl_ok (fd (conns s a)) EPOLL_CTL_MOD EPOLLOUT 1 a s)))
        else Inr (ans, finish s)))"

definition sendmsglist_clean :: "csocket \<Rightarrow> csocket" where
  "sendmsglist_clean s = s\<lparr>m_send_msgList := []\<rparr>"

section \<open>The stream owed to a peer\<close>

definition packet_bytes :: "byte list \<Rightarrow> byte list" where
  "packet_bytes m = take (unat (ntohs (pkgLen (pkg_head m)))) (drop MSG_HEADER_LEN m)"

text \<open>A message that can be sent: its length field is positive and stays inside the array.\<close>

definition wf_msg :: "byte list \<Rightarrow> bool" where
  "wf_msg m \<longleftrightarrow> 0 < unat (ntohs (pkgLen (pkg_head m))) \<and>
     MSG_HEADER_LEN + unat (ntohs (pkgLen (pkg_head m))) \<le> length m"

text \<open>The unsent part of a message whose sending has begun.\<close>

definition in_flight :: "connection \<Rightarrow> byte list" where
  "in_flight c = (if iThrowsendCount c > 0 then
     (case p_sendbuf c of Some off \<Rightarrow>
        (case p_msgsend c of Some m \<Rightarrow> take (sendlen c) (drop off m) | None \<Rightarrow> []) | None \<Rightarrow> []) else [])"

definition queued_for :: "addr \<Rightarrow> byte list list \<Rightarrow> byte list" where
  "queued_for a ms = concat (map packet_bytes (filter (\<lambda>m. lp_curconn (msg_head m) = a) ms))"

definition owed :: "addr \<Rightarrow> byte list list \<Rightarrow> csocket \<Rightarrow> byte list" where
  "owed a ms s = in_flight (conns s a) @ queued_for a ms"

text \<open>The bytes the socket with descriptor \<open>f\<close> has taken.\<close>

definition sent_on :: "int \<Rightarrow> os_call list \<Rightarrow> byte list" where
  "sent_on f tr = concat (map (\<lambda>r. case r of OsSend g bs \<Rightarrow> if g = f then bs else [] | _ \<Rightarrow> []) tr)"

lemma sent_on_simps [simp]:
  "sent_on f [] = []"
  "sent_on f (tr @ [OsSend g bs]) = sent_on f tr @ (if g = f then bs else [])"
  "sent_on f (tr @ [EpollCtl x y z]) = sent_on f tr"
  "sent_on f (tr @ [OsClose g]) = sent_on f tr"
  by (simp_all add: sent_on_def)

lemma queued_for_simps [simp]:
  "queued_for a [] = []"
  "queued_for a (m # ms) = (if lp_curconn (msg_head m) = a then packet_bytes m else []) @ queued_for a ms"
  "queued_for a (ms @ ns) = queued_for a ms @ queued_for a ns"
  by (simp_all add: queued_for_def)

text \<open>Answers without a failure: the socket takes something, is full, or the call was interrupted.\<close>

definition steady :: "send_ans list \<Rightarrow> bool" where
  "steady ans \<longleftrightarrow> (\<forall>x \<in> set ans. case x of SendSpace k \<Rightarrow> 0 < k | SendErr e \<Rightarrow> e = EINTR \<or> e = EAGAIN)"

lemma steady_simps [simp]:
  "steady []"
  "steady (x # ans) \<longleftrightarrow> (case x of SendSpace k \<Rightarrow> 0 < k | SendErr e \<Rightarrow> e = EINTR \<or> e = EAGAIN) \<and> steady ans"
  by (simp_all add: steady_def)

lemma sendproc_cases:
  assumes "sendproc ans a s = Inr (r, ans', s')"
  shows "(r = -1 \<and> s' = s \<or> r = 0 \<and> s' = s \<or>
     (\<exists>bs. 0 < r \<and> nat r \<le> sendlen (conns s a) \<and> offered (conns s a) (nat r) = Some bs \<and>
        s' = os_request (OsSend (fd (conns s a)) bs) s))"
  using assms
  by (induction ans a s rule: sendproc.induct)
    (auto split: if_splits option.splits simp: Let_def)

lemma sendproc_steady:
  assumes "sendproc ans a s = Inr (r, ans', s')" "steady ans" "0 < sendlen (conns s a)"
  shows "r \<noteq> -1" "steady ans'"
  using assms
  by (induction ans a s rule: sendproc.induct)
    (auto split: if_splits option.splits simp: Let_def)

lemma sendproc_offered:
  assumes "0 < r" "offered c (nat r) = Some bs" "p_sendbuf c = Some off" "p_msgsend c = Some m"
  shows "bs = take (nat r) (drop off m)"
  using assms by (auto simp: offered_def split: if_splits)

text \<open>What decides about tokens never changes while messages are sent.\<close>

definition same_identity :: "csocket \<Rightarrow> csocket \<Rightarrow> bool" where
  "same_identity s s' \<longleftrightarrow> (\<forall>b. fd (conns s' b) = fd (conns s b) \<and>
     sequence (conns s' b) = sequence (conns s b) \<and> inrecyList (conns s' b) = inrecyList (conns s b))"

definition scan_pre :: "addr \<Rightarrow> byte list list \<Rightarrow> csocket \<Rightarrow> bool" where
  "scan_pre a ms s \<longleftrightarrow> (\<forall>m \<in> set ms. wf_msg m \<and>
     (if lp_curconn (msg_head m) = a then judge_token (conns s a) (msg_cursequence (msg_head m))
      else fd (conns s (lp_curconn (msg_head m))) \<noteq> fd (conns s a)))"

lemma scan_pre_Cons [simp]:
  "scan_pre a (m # ms) s \<longleftrightarrow> wf_msg m \<and>
     (if lp_curconn (msg_head m) = a then judge_token (conns s a) (msg_cursequence (msg_head m))
      else fd (conns s (lp_curconn (msg_head m))) \<noteq> fd (conns s a)) \<and> scan_pre a ms s"
  by (auto simp: scan_pre_def)

lemma scan_pre_cong: "same_identity s s' \<Longrightarrow> scan_pre a ms s \<Longrightarrow> scan_pre a ms s'"
  by (auto simp: scan_pre_def same_identity_def judge_token_iff split: if_splits)

lemma same_identity_trans: "same_identity s t \<Longrightarrow> same_identity t u \<Longrightarrow> same_identity s u"
  by (simp add: same_identity_def)

lemma same_identity_refl [simp]: "same_identity s s"
  by (simp add: same_identity_def)

lemma same_identity_upd:
  "same_identity s s' \<Longrightarrow> fd (f (conns s' a)) = fd (conns s' a) \<Longrightarrow>
   sequence (f (conns s' a)) = sequence (conns s' a) \<Longrightarrow>
   inrecyList (f (conns s' a)) = inrecyList (conns s' a) \<Longrightarrow> same_identity s (upd_conn a f s')"
  by (simp add: same_identity_def)

lemma same_identity_conns: "conns s' = conns t \<Longrightarrow> same_identity s t \<Longrightarrow> same_identity s s'"
  by (simp add: same_identity_def)

text \<open>The three ways one message is handled in a visit, each with what it leaves behind.\<close>

lemma send_scan_step:
  assumes "send_scan ctl_ok ans (m # ms) s = Inr (e, kept, ans', s')"
    and a: "a = lp_curconn (msg_head m)"
  obtains (outdated) "\<not> judge_token (conns s a) (msg_cursequence (msg_head m))"
      "send_scan ctl_ok ans ms (upd_conn a clear_send s) = Inr (e, kept, ans', s')"
  | (busy) kept' where "judge_token (conns s a) (msg_cursequence (msg_head m))"
      "iThrowsendCount (conns s a) > 0" "kept = m # kept'"
      "send_scan ctl_ok ans ms s = Inr (e, kept', ans', s')"
  | (send) r ans1 s0 s1 where "judge_token (conns s a) (msg_cursequence (msg_head m))"
      "\<not> iThrowsendCount (conns s a) > 0"
      "s0 = (upd_conn a (take_message m) s)\<lparr>m_msgtosend_count := m_msgtosend_count s - 1\<rparr>"
      "sendproc ans a s0 = Inr (r, ans1, s1)"
      "r = -1 \<and> send_scan ctl_ok ans1 ms (upd_conn a (\<lambda>c. (clear_send c)\<lparr>iThrowsendCount := 0\<rparr>) s1)
          = Inr (e, kept, ans', s') \<or>
       r \<noteq> -1 \<and> r < int (sendlen (conns s0 a)) \<and> send_scan ctl_ok ans1 ms
          (snd (epoll_oper_event ctl_ok (fd (conns s1 a)) EPOLL_CTL_MOD EPOLLOUT 0 a
            (upd_conn a (\<lambda>c. (sent_part (nat r) c)\<lparr>iThrowsendCount := iThrowsendCount c + 1\<rparr>) s1)))
          = Inr (e, kept, ans', s') \<or>
       r \<noteq> -1 \<and> \<not> r < int (sendlen (conns s0 a)) \<and>
         e = ScanReturn \<and> kept = ms \<and> ans' = ans1 \<and>
           s' = upd_conn a (\<lambda>c. c\<lparr>sendlen_already := sendlen_already c + nat r\<rparr>) s1 \<or>
       r \<noteq> -1 \<and> \<not> r < int (sendlen (conns s0 a)) \<and>
         send_scan ctl_ok ans1 ms (upd_conn a (\<lambda>c. (clear_send c)\<lparr>iThrowsendCount := 0\<rparr>)
           (upd_conn a (\<lambda>c. c\<lparr>sendlen_already := sendlen_already c + nat r\<rparr>) s1))
          = Inr (e, kept, ans', s')"
proof -
  consider "\<not> judge_token (conns s a) (msg_cursequence (msg_head m))"
    | "judge_token (conns s a) (msg_cursequence (msg_head m))" "iThrowsendCount (conns s a) > 0"
    | "judge_token (conns s a) (msg_cursequence (msg_head m))" "\<not> iThrowsendCount (conns s a) > 0"
    by blast
  then show thesis
  proof cases
    case 1
    with assms show thesis by (intro outdated) (simp_all add: Let_def)
  next
    case 2
    with assms show thesis
      by (auto simp: Let_def bindE_Inr_iff intro!: busy)
  next
    case 3
    let ?s0 = "(upd_conn a (take_message m) s)\<lparr>m_msgtosend_count := m_msgtosend_count s - 1\<rparr>"
    from 3 assms obtain r ans1 s1 where sp: "sendproc ans a ?s0 = Inr (r, ans1, s1)"
      by (auto simp: Let_def bindE_Inr_iff)
    from 3 assms sp show thesis
      by (intro send [OF _ _ refl sp]) (auto simp: Let_def split: if_splits)
  qed
qed

lemma epoll_send_frame [simp]:
  "p_sendbuf (conns (snd (epoll_oper_event ok f fl et bc a s)) b) = p_sendbuf (conns s b)"
  "p_msgsend (conns (snd (epoll_oper_event ok f fl et bc a s)) b) = p_msgsend (conns s b)"
  "sendlen (conns (snd (epoll_oper_event ok f fl et bc a s)) b) = sendlen (conns s b)"
  "iThrowsendCount (conns (snd (epoll_oper_event ok f fl et bc a s)) b) = iThrowsendCount (conns s b)"
  "sent_on g (os_trace (snd (epoll_oper_event ok f fl et bc a s))) = sent_on g (os_trace s)"
  by (simp_all add: epoll_oper_event_def Let_def)

lemma epoll_mod_effect [simp]:
  "same_identity s (snd (epoll_oper_event ok f fl et bc a s')) = same_identity s s'"
  "in_flight (conns (snd (epoll_oper_event ok f fl et bc a s')) b) = in_flight (conns s' b)"
  by (simp_all add: same_identity_def in_flight_def cong: option.case_cong)

lemma in_flight_idle: "\<not> iThrowsendCount c > 0 \<Longrightarrow> in_flight c = []"
  by (simp add: in_flight_def)

text \<open>What one sent message leaves: only its connection changed, and the bytes it does not owe any
  more are the bytes that were sent.\<close>

definition sends_one :: "addr \<Rightarrow> byte list \<Rightarrow> csocket \<Rightarrow> csocket \<Rightarrow> bool" where
  "sends_one a m s u \<longleftrightarrow> same_identity s u \<and> (\<forall>b. b \<noteq> a \<longrightarrow> conns u b = conns s b) \<and>
     iThrowsendCount (conns u a) \<ge> 0 \<and>
     (\<forall>g. g \<noteq> fd (conns s a) \<longrightarrow> sent_on g (os_trace u) = sent_on g (os_trace s)) \<and>
     sent_on (fd (conns s a)) (os_trace u) @ in_flight (conns u a) =
       sent_on (fd (conns s a)) (os_trace s) @ packet_bytes m"

lemma nat_eq_bounds: "int n \<le> r \<Longrightarrow> 0 < n \<Longrightarrow> r = 0 \<or> nat r \<le> n \<Longrightarrow> nat r = n"
  by auto

lemma send_one:
  assumes idle: "iThrowsendCount (conns s a) = 0" and wf: "wf_msg m"
    and s0: "s0 = (upd_conn a (take_message m) s)\<lparr>m_msgtosend_count := m_msgtosend_count s - 1\<rparr>"
    and sp: "sendproc ans a s0 = Inr (r, ans1, s1)" and r: "r \<noteq> -1"
  shows "r < int (sendlen (conns s0 a)) \<Longrightarrow> sends_one a m s
      (snd (epoll_oper_event ctl_ok f EPOLL_CTL_MOD EPOLLOUT 0 a
        (upd_conn a (\<lambda>c. (sent_part (nat r) c)\<lparr>iThrowsendCount := iThrowsendCount c + 1\<rparr>) s1)))"
    and "\<not> r < int (sendlen (conns s0 a)) \<Longrightarrow> sends_one a m s
      (upd_conn a (\<lambda>c. c\<lparr>sendlen_already := sendlen_already c + nat r\<rparr>) s1)"
    and "\<not> r < int (sendlen (conns s0 a)) \<Longrightarrow> sends_one a m s
      (upd_conn a (\<lambda>c. (clear_send c)\<lparr>iThrowsendCount := 0\<rparr>)
           (upd_conn a (\<lambda>c. c\<lparr>sendlen_already := sendlen_already c + nat r\<rparr>) s1))"
proof -
  let ?n = "unat (ntohs (pkgLen (pkg_head m)))"
  have c0: "conns s0 = (conns s)(a := take_message m (conns s a))" "os_trace s0 = os_trace s"
    by (simp_all add: s0)
  have n: "sendlen (conns s0 a) = ?n" "p_sendbuf (conns s0 a) = Some MSG_HEADER_LEN"
    "p_msgsend (conns s0 a) = Some m" by (simp_all add: c0 take_message_def)
  have pos: "0 < ?n" "MSG_HEADER_LEN + ?n \<le> length m" using wf by (simp_all add: wf_msg_def)
  have split: "take k (drop MSG_HEADER_LEN m) @ take (?n - k) (drop (MSG_HEADER_LEN + k) m) = packet_bytes m"
    if "k \<le> ?n" for k
    using take_add [of k "?n - k" "drop MSG_HEADER_LEN m"] that
    by (simp add: packet_bytes_def add.commute)
  from sendproc_cases [OF sp] r have r_cases: "r = 0 \<and> s1 = s0 \<or>
     0 < r \<and> nat r \<le> ?n \<and>
       s1 = os_request (OsSend (fd (conns s a)) (take (nat r) (drop MSG_HEADER_LEN m))) s0"
    using sendproc_offered [OF _ _ n(2,3)] c0(1) n(1) by auto
  have base: "same_identity s s0" by (simp add: same_identity_def c0)
  { assume lt: "r < int (sendlen (conns s0 a))"
    show "sends_one a m s (snd (epoll_oper_event ctl_ok f EPOLL_CTL_MOD EPOLLOUT 0 a
        (upd_conn a (\<lambda>c. (sent_part (nat r) c)\<lparr>iThrowsendCount := iThrowsendCount c + 1\<rparr>) s1)))"
      using r_cases
    proof
      assume r0: "r = 0 \<and> s1 = s0"
      show ?thesis
        using split [of 0] idle r0 base
        by (simp add: sends_one_def c0 in_flight_def sent_part_def take_message_def same_identity_def)
    next
      assume r0: "0 < r \<and> nat r \<le> ?n \<and>
        s1 = os_request (OsSend (fd (conns s a)) (take (nat r) (drop MSG_HEADER_LEN m))) s0"
      then show ?thesis
        using split [of "nat r"] idle base
        by (simp add: sends_one_def c0 in_flight_def sent_part_def take_message_def same_identity_def)
    qed }
  { assume ge: "\<not> r < int (sendlen (conns s0 a))"
    then have ge': "int ?n \<le> r" by (simp only: n(1) not_less)
    have rn: "nat r = ?n"
      by (rule nat_eq_bounds [OF ge' pos(1)]) (use r_cases in blast)
    then have "s1 = os_request (OsSend (fd (conns s a)) (take ?n (drop MSG_HEADER_LEN m))) s0"
      using r_cases pos(1) by auto
    note rn = rn this
    show "sends_one a m s (upd_conn a (\<lambda>c. c\<lparr>sendlen_already := sendlen_already c + nat r\<rparr>) s1)"
      "sends_one a m s (upd_conn a (\<lambda>c. (clear_send c)\<lparr>iThrowsendCount := 0\<rparr>)
           (upd_conn a (\<lambda>c. c\<lparr>sendlen_already := sendlen_already c + nat r\<rparr>) s1))"
      using idle rn by (simp_all add: sends_one_def c0 in_flight_def same_identity_def packet_bytes_def) }
qed

text \<open>A connection that waits for \<open>EPOLLOUT\<close> is passed over: its messages stay, in order, and nothing
  is sent to it.\<close>

lemma scan_pre_upd:
  "scan_pre a ms s \<Longrightarrow> same_identity s s' \<Longrightarrow> scan_pre a ms s'"
  by (rule scan_pre_cong)

lemma sends_one_other:
  "sends_one b m s u \<Longrightarrow> a \<noteq> b \<Longrightarrow> fd (conns s b) \<noteq> fd (conns s a) \<Longrightarrow>
     conns u a = conns s a \<and> sent_on (fd (conns s a)) (os_trace u) = sent_on (fd (conns s a)) (os_trace s)"
  unfolding sends_one_def by metis

lemma judge_wf_sendlen: "wf_msg m \<Longrightarrow> 0 < sendlen (take_message m c)"
  by (simp add: wf_msg_def take_message_def)

text \<open>One step of a visit under steady answers: the message is skipped, kept, or sent.\<close>

lemma send_scan_steady_step:
  assumes run: "send_scan ctl_ok ans (m # ms) s = Inr (e, kept, ans', s')"
    and st: "steady ans" and wf: "wf_msg m" and a: "a = lp_curconn (msg_head m)"
    and nonneg: "\<forall>b. iThrowsendCount (conns s b) \<ge> 0"
  obtains (outdated) u where "\<not> judge_token (conns s a) (msg_cursequence (msg_head m))"
      "u = upd_conn a clear_send s" "send_scan ctl_ok ans ms u = Inr (e, kept, ans', s')"
  | (busy) kept' where "judge_token (conns s a) (msg_cursequence (msg_head m))"
      "iThrowsendCount (conns s a) > 0" "kept = m # kept'"
      "send_scan ctl_ok ans ms s = Inr (e, kept', ans', s')"
  | (sent) u ans1 where "judge_token (conns s a) (msg_cursequence (msg_head m))"
      "iThrowsendCount (conns s a) = 0" "sends_one a m s u" "steady ans1"
      "send_scan ctl_ok ans1 ms u = Inr (e, kept, ans', s')"
  | (ended) "iThrowsendCount (conns s a) = 0" "sends_one a m s s'" "kept = ms"
  using run a
proof (cases rule: send_scan_step)
  case outdated
  then show ?thesis using that(1) by blast
next
  case (busy kept')
  then show ?thesis using that(2) by blast
next
  case (send r ans1 s0 s1)
  have idle: "iThrowsendCount (conns s a) = 0" using send(2) nonneg by (metis le_less)
  have "0 < sendlen (conns s0 a)" using judge_wf_sendlen [OF wf] by (simp add: send(3))
  from sendproc_steady [OF send(4) st this] have r: "r \<noteq> -1" and st1: "steady ans1" by simp_all
  note one = send_one [OF idle wf send(3,4) r]
  from send(5) r show ?thesis
    using that(3) [OF send(1) idle _ st1] that(4) [OF idle] one by blast
qed

definition nonneg_pending :: "csocket \<Rightarrow> bool" where
  "nonneg_pending s \<longleftrightarrow> (\<forall>b. iThrowsendCount (conns s b) \<ge> 0)"

lemma nonneg_clear: "nonneg_pending s \<Longrightarrow> nonneg_pending (upd_conn a clear_send s)"
  by (simp add: nonneg_pending_def)

lemma nonneg_sends_one: "nonneg_pending s \<Longrightarrow> sends_one a m s u \<Longrightarrow> nonneg_pending u"
  unfolding nonneg_pending_def sends_one_def by metis

lemma outdated_step:
  assumes "scan_pre a (m # ms) s" "\<not> judge_token (conns s b) (msg_cursequence (msg_head m))"
    "b = lp_curconn (msg_head m)" "u = upd_conn b clear_send s"
  shows "b \<noteq> a" "scan_pre a ms u" "conns u a = conns s a" "os_trace u = os_trace s"
    "same_identity s u"
proof -
  show "b \<noteq> a" using assms by auto
  show id: "same_identity s u" using assms(4) by (simp add: same_identity_def)
  show "scan_pre a ms u" using assms(1) scan_pre_cong [OF id] by simp
  show "conns u a = conns s a" "os_trace u = os_trace s" using \<open>b \<noteq> a\<close> assms(4) by simp_all
qed

lemma send_scan_busy:
  "send_scan ctl_ok ans ms s = Inr (e, kept, ans', s') \<Longrightarrow> steady ans \<Longrightarrow> nonneg_pending s \<Longrightarrow>
   scan_pre a ms s \<Longrightarrow> iThrowsendCount (conns s a) > 0 \<Longrightarrow>
   conns s' a = conns s a \<and> queued_for a kept = queued_for a ms \<and>
   sent_on (fd (conns s a)) (os_trace s') = sent_on (fd (conns s a)) (os_trace s) \<and>
   same_identity s s' \<and> nonneg_pending s'"
proof (induction ms arbitrary: ans s kept)
  case Nil
  then show ?case by simp
next
  case (Cons m ms)
  let ?b = "lp_curconn (msg_head m)"
  have wf: "wf_msg m" using Cons.prems(4) by simp
  from Cons.prems(1,2) wf refl Cons.prems(3) [unfolded nonneg_pending_def] show ?case
  proof (cases rule: send_scan_steady_step)
    case (outdated u)
    note o = outdated_step [OF Cons.prems(4) outdated(1) refl outdated(2)]
    from Cons.IH [OF outdated(3) Cons.prems(2)] o Cons.prems(3,5) nonneg_clear outdated(2)
    show ?thesis by (auto intro: same_identity_trans)
  next
    case (busy kept')
    from Cons.IH [OF busy(4) Cons.prems(2,3)] Cons.prems(4,5) busy(3) show ?thesis by simp
  next
    case (sent u ans1)
    have ne: "?b \<noteq> a" using sent(2) Cons.prems(5) by auto
    with Cons.prems(4) have fdne: "fd (conns s ?b) \<noteq> fd (conns s a)" by simp
    from sends_one_other [OF sent(3) ne [symmetric] fdne]
    have u: "conns u a = conns s a"
      "sent_on (fd (conns s a)) (os_trace u) = sent_on (fd (conns s a)) (os_trace s)" by simp_all
    have id: "same_identity s u" using sent(3) by (simp add: sends_one_def)
    have "scan_pre a ms u" using Cons.prems(4) scan_pre_cong [OF id] by simp
    with Cons.IH [OF sent(5,4) nonneg_sends_one [OF Cons.prems(3) sent(3)]] u Cons.prems(5) ne id
    show ?thesis by (auto intro: same_identity_trans)
  next
    case ended
    have ne: "?b \<noteq> a" using ended(1) Cons.prems(5) by auto
    with Cons.prems(4) have fdne: "fd (conns s ?b) \<noteq> fd (conns s a)" by simp
    from sends_one_other [OF ended(2) ne [symmetric] fdne] ended(2,3) ne
      nonneg_sends_one [OF Cons.prems(3) ended(2)]
    show ?thesis by (simp add: sends_one_def)
  qed
qed

text \<open>Conservation: what a visit sends to a connection is taken from the front of what is owed.\<close>

lemma send_scan_owed:
  "send_scan ctl_ok ans ms s = Inr (e, kept, ans', s') \<Longrightarrow> steady ans \<Longrightarrow> nonneg_pending s \<Longrightarrow>
   scan_pre a ms s \<Longrightarrow>
   sent_on (fd (conns s a)) (os_trace s') @ owed a kept s' =
     sent_on (fd (conns s a)) (os_trace s) @ owed a ms s \<and> same_identity s s' \<and> nonneg_pending s'"
proof (induction ms arbitrary: ans s kept)
  case Nil
  then show ?case by simp
next
  case (Cons m ms)
  let ?b = "lp_curconn (msg_head m)"
  have wf: "wf_msg m" using Cons.prems(4) by simp
  from Cons.prems(1,2) wf refl Cons.prems(3) [unfolded nonneg_pending_def] show ?case
  proof (cases rule: send_scan_steady_step)
    case (outdated u)
    note o = outdated_step [OF Cons.prems(4) outdated(1) refl outdated(2)]
    from Cons.IH [OF outdated(3) Cons.prems(2)] o Cons.prems(3) nonneg_clear outdated(2)
    show ?thesis by (auto simp: owed_def intro: same_identity_trans)
  next
    case (busy kept')
    show ?thesis
    proof (cases "?b = a")
      case True
      with busy(2) send_scan_busy [OF busy(4) Cons.prems(2,3), of a] Cons.prems(4) busy(3)
      show ?thesis by (simp add: owed_def)
    next
      case False
      with Cons.IH [OF busy(4) Cons.prems(2,3)] Cons.prems(4) busy(3) show ?thesis
        by (simp add: owed_def)
    qed
  next
    case (sent u ans1)
    have id: "same_identity s u" using sent(3) by (simp add: sends_one_def)
    then have fdu: "fd (conns u a) = fd (conns s a)" by (simp add: same_identity_def)
    have pre: "scan_pre a ms u" using Cons.prems(4) scan_pre_cong [OF id] by simp
    have "sent_on (fd (conns s a)) (os_trace u) @ owed a ms u =
        sent_on (fd (conns s a)) (os_trace s) @ owed a (m # ms) s"
    proof (cases "?b = a")
      case True
      with sent(2,3) show ?thesis by (simp add: owed_def sends_one_def in_flight_idle)
    next
      case False
      with Cons.prems(4) have "fd (conns s ?b) \<noteq> fd (conns s a)" by simp
      from sends_one_other [OF sent(3) False [symmetric] this] False show ?thesis
        by (simp add: owed_def)
    qed
    with Cons.IH [OF sent(5,4) nonneg_sends_one [OF Cons.prems(3) sent(3)] pre] fdu id
    show ?thesis by (auto intro: same_identity_trans)
  next
    case ended
    have id: "same_identity s s'" using ended(2) by (simp add: sends_one_def)
    have "sent_on (fd (conns s a)) (os_trace s') @ owed a ms s' =
        sent_on (fd (conns s a)) (os_trace s) @ owed a (m # ms) s"
    proof (cases "?b = a")
      case True
      with ended(1,2) show ?thesis by (simp add: owed_def sends_one_def in_flight_idle)
    next
      case False
      with Cons.prems(4) have "fd (conns s ?b) \<noteq> fd (conns s a)" by simp
      from sends_one_other [OF ended(2) False [symmetric] this] False show ?thesis
        by (simp add: owed_def)
    qed
    with id ended(3) nonneg_sends_one [OF Cons.prems(3) ended(2)] show ?thesis by simp
  qed
qed

lemma SendMsgThread_round_visit:
  assumes "SendMsgThread_round stop ctl_ok ans t s = Inr (leave, t', ans', s')"
    and "\<not> (stop \<or> ifshutdown t \<or> \<not> m_msgtosend_count s > 0)"
  obtains e kept s1 where
    "send_scan ctl_ok ans (m_send_msgList s) (s\<lparr>m_sendsem := m_sendsem s - 1\<rparr>) = Inr (e, kept, ans', s1)"
    "s' = s1\<lparr>m_send_msgList := kept, m_sendmutex := (if e = ScanReturn then True else m_sendmutex s1)\<rparr>"
proof -
  from assms obtain e kept ans1 s1 where
    scan: "send_scan ctl_ok ans (m_send_msgList s) (s\<lparr>m_sendsem := m_sendsem s - 1\<rparr>) = Inr (e, kept, ans1, s1)"
    and fin: "(case e of ScanReturn \<Rightarrow> Inr (True, t\<lparr>running := True\<rparr>, ans1, s1\<lparr>m_send_msgList := kept, m_sendmutex := True\<rparr>)
              | ScanDone \<Rightarrow> Inr (False, t\<lparr>running := True\<rparr>, ans1, s1\<lparr>m_send_msgList := kept\<rparr>)) =
              (Inr (leave, t', ans', s') :: fault + _)"
    by (auto simp: SendMsgThread_round_eq Let_def bindE_Inr_iff split: if_splits)
  from that [of e kept s1] scan fin show thesis by (cases e) auto
qed

lemma SendMsgThread_round_owed:
  assumes run: "SendMsgThread_round stop ctl_ok ans t s = Inr (leave, t', ans', s')"
    and pre: "steady ans" "nonneg_pending s" "scan_pre a (m_send_msgList s) s"
  shows "sent_on (fd (conns s a)) (os_trace s') @ owed a (m_send_msgList s') s' =
     sent_on (fd (conns s a)) (os_trace s) @ owed a (m_send_msgList s) s"
proof -
  let ?s = "s\<lparr>m_sendsem := m_sendsem s - 1\<rparr>"
  have same: "conns ?s = conns s" "os_trace ?s = os_trace s" by simp_all
  then have pre': "nonneg_pending ?s" "scan_pre a (m_send_msgList s) ?s"
    using pre(2,3) by (simp_all add: nonneg_pending_def scan_pre_def)
  show ?thesis
  proof (cases "stop \<or> ifshutdown t \<or> \<not> m_msgtosend_count s > 0")
    case True
    with run have "s' = ?s" by (auto simp: SendMsgThread_round_eq Let_def split: if_splits)
    then show ?thesis by (simp add: owed_def)
  next
    case False
    from run False obtain e kept s1 where
      scan: "send_scan ctl_ok ans (m_send_msgList s) ?s = Inr (e, kept, ans', s1)"
      and s': "s' = s1\<lparr>m_send_msgList := kept, m_sendmutex := (if e = ScanReturn then True else m_sendmutex s1)\<rparr>"
      by (rule SendMsgThread_round_visit)
    from send_scan_owed [OF scan pre(1) pre'] s' same show ?thesis by (simp add: owed_def)
  qed
qed

lemma event_writable_owed:
  assumes run: "writable_request ctl_ok ans a s = Inr (ans', s')"
    and st: "steady ans" and fl: "iThrowsendCount (conns s a) > 0" "0 < sendlen (conns s a)"
      "p_sendbuf (conns s a) = Some off" "p_msgsend (conns s a) = Some m"
      "off + sendlen (conns s a) \<le> length m"
    and len: "sendlen_already (conns s a) + sendlen (conns s a) = sendlen_suppose (conns s a)"
  shows "sent_on (fd (conns s a)) (os_trace s') @ in_flight (conns s' a) =
     sent_on (fd (conns s a)) (os_trace s) @ in_flight (conns s a)"
    "same_identity s s'" "\<forall>b. b \<noteq> a \<longrightarrow> conns s' b = conns s b" "m_send_msgList s' = m_send_msgList s"
proof -
  let ?c = "conns s a"
  from run obtain r s1 where sp: "sendproc ans a s = Inr (r, ans', s1)"
    by (auto simp: writable_request_def Let_def bindE_Inr_iff split: if_splits)
  from sendproc_steady [OF sp st fl(2)] have r: "r \<noteq> -1" by simp
  with sendproc_cases [OF sp] sendproc_offered [OF _ _ fl(3,4)]
  have r_cases: "r = 0 \<and> s1 = s \<or> 0 < r \<and> nat r \<le> sendlen ?c \<and>
      s1 = os_request (OsSend (fd ?c) (take (nat r) (drop off m))) s" by auto
  have split: "take k (drop off m) @ take (sendlen ?c - k) (drop (off + k) m) = take (sendlen ?c) (drop off m)"
    if "k \<le> sendlen ?c" for k
    using take_add [of k "sendlen ?c - k" "drop off m"] that by (simp add: add.commute)
  have fl0: "in_flight ?c = take (sendlen ?c) (drop off m)" using fl by (simp add: in_flight_def)
  have "sent_on (fd ?c) (os_trace s') @ in_flight (conns s' a) = sent_on (fd ?c) (os_trace s) @ in_flight ?c \<and>
    same_identity s s' \<and> (\<forall>b. b \<noteq> a \<longrightarrow> conns s' b = conns s b) \<and> m_send_msgList s' = m_send_msgList s"
  proof (cases "r < int (sendlen ?c)")
    case True
    then have s': "s' = upd_conn a (sent_part (nat r)) s1"
      using run sp r r_cases by (auto simp: writable_request_def Let_def)
    from r_cases show ?thesis
    proof
      assume "r = 0 \<and> s1 = s"
      then show ?thesis using s' fl fl0
        by (simp add: in_flight_def sent_part_def same_identity_def)
    next
      assume k: "0 < r \<and> nat r \<le> sendlen ?c \<and>
        s1 = os_request (OsSend (fd ?c) (take (nat r) (drop off m))) s"
      then show ?thesis using s' fl fl0 split [of "nat r"]
        by (simp add: in_flight_def sent_part_def same_identity_def)
    qed
  next
    case False
    then have rn: "nat r = sendlen ?c"
      by (intro nat_eq_bounds) (use fl(2) r_cases in auto)
    with r_cases fl(2) have s1: "s1 = os_request (OsSend (fd ?c) (take (sendlen ?c) (drop off m))) s" by auto
    from False run sp r_cases rn s1 len obtain s2 where s':
      "s' = upd_conn a (\<lambda>c. (clear_send c)\<lparr>iThrowsendCount := 0\<rparr>) (s2\<lparr>m_sendsem := m_sendsem s2 + 1\<rparr>)"
      and s2: "s2 = snd (epoll_oper_event ctl_ok (fd ?c) EPOLL_CTL_MOD EPOLLOUT 1 a
        (upd_conn a (\<lambda>c. c\<lparr>sendlen_already := sendlen_already c + nat r\<rparr>) s1))"
      by (auto simp: writable_request_def Let_def)
    then show ?thesis using s1 fl0 by (simp add: in_flight_def same_identity_def)
  qed
  then show "sent_on (fd (conns s a)) (os_trace s') @ in_flight (conns s' a) =
     sent_on (fd (conns s a)) (os_trace s) @ in_flight (conns s a)"
    "same_identity s s'" "\<forall>b. b \<noteq> a \<longrightarrow> conns s' b = conns s b" "m_send_msgList s' = m_send_msgList s"
    by blast+
qed

section \<open>The counters\<close>

lemma sendproc_count:
  "sendproc ans a s = Inr (r, ans', s') \<Longrightarrow> m_msgtosend_count s' = m_msgtosend_count s \<and>
     m_sendmutex s' = m_sendmutex s"
  using sendproc_cases by fastforce

lemma send_scan_count:
  "send_scan ctl_ok ans ms s = Inr (e, kept, ans', s') \<Longrightarrow>
   m_msgtosend_count s - int (length ms) \<le> m_msgtosend_count s' - int (length kept) \<and>
   length kept \<le> length ms"
proof (induction ms arbitrary: ans s kept)
  case Nil
  then show ?case by simp
next
  case (Cons m ms)
  from Cons.prems refl show ?case
  proof (cases rule: send_scan_step)
    case outdated
    from Cons.IH [OF this(2)] show ?thesis by simp
  next
    case (busy kept')
    from Cons.IH [OF busy(4)] busy(3) show ?thesis by simp
  next
    case (send r ans1 s0 s1)
    note count = sendproc_count [OF send(4)]
    from send(5) show ?thesis
      by (elim disjE conjE) (use count send(3) in \<open>auto dest!: Cons.IH\<close>)
  qed
qed

lemma send_scan_mutex:
  "send_scan ctl_ok ans ms s = Inr (e, kept, ans', s') \<Longrightarrow> m_sendmutex s' = m_sendmutex s"
proof (induction ms arbitrary: ans s kept)
  case Nil
  then show ?case by simp
next
  case (Cons m ms)
  from Cons.prems refl show ?case
  proof (cases rule: send_scan_step)
    case outdated
    from Cons.IH [OF this(2)] show ?thesis by simp
  next
    case (busy kept')
    from Cons.IH [OF busy(4)] show ?thesis .
  next
    case (send r ans1 s0 s1)
    note count = sendproc_count [OF send(4)]
    from send(5) show ?thesis
      by (elim disjE conjE) (use count send(3) in \<open>auto dest!: Cons.IH\<close>)
  qed
qed

lemma send_scan_uncounts:
  "send_scan ctl_ok ans ms s = Inr (e, kept, ans', s') \<Longrightarrow> m_msgtosend_count s' \<le> m_msgtosend_count s"
proof (induction ms arbitrary: ans s kept)
  case Nil
  then show ?case by simp
next
  case (Cons m ms)
  from Cons.prems refl show ?case
  proof (cases rule: send_scan_step)
    case outdated
    from Cons.IH [OF this(2)] show ?thesis by simp
  next
    case (busy kept')
    from Cons.IH [OF busy(4)] show ?thesis .
  next
    case (send r ans1 s0 s1)
    note count = sendproc_count [OF send(4)]
    from send(5) show ?thesis
      by (elim disjE conjE) (use count send(3) in \<open>auto dest!: Cons.IH\<close>)
  qed
qed

section \<open>A visit that comes to its end\<close>

text \<open>How many calls of \<open>send\<close> a list of answers serves: an interrupted call is made again.\<close>

definition served :: "send_ans list \<Rightarrow> nat" where
  "served ans = length (filter (\<lambda>x. x \<noteq> SendErr EINTR) ans)"

lemma sendproc_total:
  "0 < served ans \<Longrightarrow> \<forall>k \<le> sendlen (conns s a). offered (conns s a) k \<noteq> None \<Longrightarrow>
   \<exists>r ans' s'. sendproc ans a s = Inr (r, ans', s') \<and> served ans \<le> Suc (served ans')"
proof (induction ans a s rule: sendproc.induct)
  case (3 k ans a s)
  then have "offered (conns s a) (min k (sendlen (conns s a))) \<noteq> None" by simp
  then show ?case by (auto simp: Let_def served_def)
qed (auto simp: served_def)

lemma send_scan_total:
  "\<forall>m \<in> set ms. wf_msg m \<Longrightarrow> length ms \<le> served ans \<Longrightarrow>
   \<exists>e kept ans' s'. send_scan ctl_ok ans ms s = Inr (e, kept, ans', s') \<and> set kept \<subseteq> set ms"
proof (induction ms arbitrary: ans s)
  case Nil
  then show ?case by simp
next
  case (Cons m ms)
  define a where "a = lp_curconn (msg_head m)"
  define s0 where "s0 = (upd_conn a (take_message m) s)\<lparr>m_msgtosend_count := m_msgtosend_count s - 1\<rparr>"
  have ih: "\<exists>e kept ans' s'. send_scan ctl_ok ans ms s = Inr (e, kept, ans', s') \<and> set kept \<subseteq> set ms"
    if "length ms \<le> served ans" for ans s
    using Cons.IH Cons.prems(1) that by simp
  have more: "\<exists>e kept ans' s'. send_scan ctl_ok ans ms s = Inr (e, kept, ans', s') \<and> set kept \<subseteq> set (m # ms)"
    if "length ms \<le> served ans" for ans s
    using ih [OF that, of s] by auto
  have "offered (conns s0 a) k \<noteq> None" if "k \<le> sendlen (conns s0 a)" for k
    using that Cons.prems(1) by (simp add: s0_def take_message_def offered_def wf_msg_def)
  with sendproc_total [of ans s0 a] Cons.prems(2) obtain r ans1 s1 where
    sp: "sendproc ans a s0 = Inr (r, ans1, s1)" and n: "length ms \<le> served ans1" by fastforce
  have all: "length ms \<le> served ans" using Cons.prems(2) by simp
  consider (stale) "\<not> judge_token (conns s a) (msg_cursequence (msg_head m))"
    | (busy) "judge_token (conns s a) (msg_cursequence (msg_head m))" "iThrowsendCount (conns s a) > 0"
    | (now) "judge_token (conns s a) (msg_cursequence (msg_head m))" "\<not> iThrowsendCount (conns s a) > 0"
    by blast
  then show ?case
  proof cases
    case stale
    then show ?thesis using more [OF all] by (simp add: a_def [symmetric])
  next
    case busy
    from ih [OF all, of s] obtain e kept ans' s' where
      "send_scan ctl_ok ans ms s = Inr (e, kept, ans', s')" "set kept \<subseteq> set ms" by blast
    with busy show ?thesis by (auto simp: a_def [symmetric] Let_def)
  next
    case now
    then show ?thesis
      using more [OF n] by (auto simp: a_def [symmetric] s0_def [symmetric] Let_def sp)
  qed
qed

text \<open>A round of the send thread that finds the semaphore posted, the mutex free and the queue in order
  comes to an end; unless the thread leaves, it finds the same again.\<close>

definition send_ready :: "csocket \<Rightarrow> bool" where
  "send_ready s \<longleftrightarrow> \<not> m_sendmutex s \<and> (\<forall>m \<in> set (m_send_msgList s). wf_msg m)"

lemma SendMsgThread_round_total:
  assumes "send_ready s" "0 < m_sendsem s" "length (m_send_msgList s) \<le> served ans"
  shows "\<exists>lv t' ans' s'. SendMsgThread_round stop ctl_ok ans t s = Inr (lv, t', ans', s') \<and> (lv \<or> send_ready s')"
proof -
  let ?s = "s\<lparr>m_sendsem := m_sendsem s - 1\<rparr>"
  from send_scan_total [of "m_send_msgList s" ans ctl_ok ?s] assms(1,3) obtain e kept ans' s1 where
    scan: "send_scan ctl_ok ans (m_send_msgList s) ?s = Inr (e, kept, ans', s1)" "set kept \<subseteq> set (m_send_msgList s)"
    by (auto simp: send_ready_def)
  have "m_sendmutex s1 = m_sendmutex s" using send_scan_mutex [OF scan(1)] by simp
  with scan assms(1,2) show ?thesis
    by (cases e) (auto simp: SendMsgThread_round_eq Let_def send_ready_def)
qed

section \<open>The queue as a step relation\<close>

text \<open>How far a thread has come in \<open>MsgSendInQueue\<close>: not in it, past the comparisons with the mutex locked,
  behind the unlock, and behind the first and the second counter.\<close>

datatype enqueue_pc = Outside | Checked "byte list" | Appended addr | ReplyCounted | MessageCounted

definition engaged :: "enqueue_pc \<Rightarrow> bool" where
  "engaged c \<longleftrightarrow> (case c of Checked _ \<Rightarrow> True | Appended _ \<Rightarrow> True | ReplyCounted \<Rightarrow> True | _ \<Rightarrow> False)"

definition uncounted :: "enqueue_pc \<Rightarrow> bool" where
  "uncounted c \<longleftrightarrow> (case c of Appended _ \<Rightarrow> True | ReplyCounted \<Rightarrow> True | _ \<Rightarrow> False)"

lemma enqueue_pc_simps [simp]:
  "\<not> engaged Outside" "engaged (Checked m)" "engaged (Appended a)" "engaged ReplyCounted" "\<not> engaged MessageCounted"
  "\<not> uncounted Outside" "\<not> uncounted (Checked m)" "uncounted (Appended a)" "uncounted ReplyCounted"
  "\<not> uncounted MessageCounted"
  by (simp_all add: engaged_def uncounted_def)

text \<open>What can happen to the sending side: thread \<open>i\<close> takes its next step in \<open>MsgSendInQueue\<close>, the send thread
  visits the queue (at any time the mutex is free), the queue is emptied, or another component changes what
  it may change without the mutex. The visit only subtracts from the atomic counters the other threads add
  to, without reading them, so that their additions may be taken as before or behind it.\<close>

inductive send_step :: "csocket \<times> enqueue_pc list \<Rightarrow> csocket \<times> enqueue_pc list \<Rightarrow> bool" where
  check: "i < length cs \<Longrightarrow> cs ! i = Outside \<Longrightarrow> MsgSendInQueue_check msg s = Inr (go, s') \<Longrightarrow>
    send_step (s, cs) (s', cs[i := (if go then Checked msg else Outside)])"
| append: "i < length cs \<Longrightarrow> cs ! i = Checked msg \<Longrightarrow>
    send_step (s, cs) (append_message msg s, cs[i := Appended (lp_curconn (msg_head msg))])"
| reply: "i < length cs \<Longrightarrow> cs ! i = Appended a \<Longrightarrow> send_step (s, cs) (count_reply a s, cs[i := ReplyCounted])"
| message: "i < length cs \<Longrightarrow> cs ! i = ReplyCounted \<Longrightarrow> send_step (s, cs) (count_message s, cs[i := MessageCounted])"
| post: "i < length cs \<Longrightarrow> cs ! i = MessageCounted \<Longrightarrow> send_step (s, cs) (post_message s, cs[i := Outside])"
| visit: "SendMsgThread_visit ctl_ok ans s = Inr (leave, ans', s') \<Longrightarrow> send_step (s, cs) (s', cs)"
| clean: "send_step (s, cs) (sendmsglist_clean s, cs)"
| other: "m_send_msgList s' = m_send_msgList s \<Longrightarrow> m_msgtosend_count s' = m_msgtosend_count s \<Longrightarrow>
    m_sendmutex s' = m_sendmutex s \<Longrightarrow> send_step (s, cs) (s', cs)"

text \<open>The counter is below the number of queued messages by at most the messages not counted yet. A thread past
  the comparison has seen at most 1000.\<close>

definition send_inv :: "csocket \<times> enqueue_pc list \<Rightarrow> bool" where
  "send_inv x \<longleftrightarrow> (let (s, cs) = x in
     int (length (m_send_msgList s)) \<le> m_msgtosend_count s + int (length (filter uncounted cs)) \<and>
     m_msgtosend_count s + int (length (filter engaged cs)) \<le> 1000 + int (length cs))"

lemma send_inv_visit:
  assumes "send_inv (s, cs)" "SendMsgThread_visit ctl_ok ans s = Inr (leave, ans', s')"
  shows "send_inv (s', cs)"
proof -
  from assms(2) obtain e kept ans1 s1 where
    scan: "send_scan ctl_ok ans (m_send_msgList s) s = Inr (e, kept, ans1, s1)"
    and fin: "(case e of ScanReturn \<Rightarrow> Inr (True, ans1, s1\<lparr>m_send_msgList := kept, m_sendmutex := True\<rparr>)
      | ScanDone \<Rightarrow> Inr (False, ans1, s1\<lparr>m_send_msgList := kept\<rparr>)) =
      (Inr (leave, ans', s') :: fault + bool \<times> send_ans list \<times> csocket)"
    by (auto simp: SendMsgThread_visit_def Let_def bindE_Inr_iff split: if_splits)
  from fin have s': "m_send_msgList s' = kept" "m_msgtosend_count s' = m_msgtosend_count s1"
    by (cases e; auto)+
  from send_scan_count [OF scan] send_scan_uncounts [OF scan] s' assms(1) show ?thesis
    by (simp add: send_inv_def)
qed

text \<open>Fewer than all threads are engaged while one is outside.\<close>

lemma filter_less:
  assumes "i < length xs" "\<not> P (xs ! i)"
  shows "length (filter P xs) < length xs"
  using assms by (intro length_filter_less [of "xs ! i"]) simp_all

lemma send_inv_step:
  assumes "send_inv x" "send_step x x'"
  shows "send_inv x'"
  using assms(2)
proof (cases rule: send_step.cases)
  case (check i cs msg s go s')
  have "m_send_msgList s' = m_send_msgList s" "m_msgtosend_count s' = m_msgtosend_count s"
    "go \<longrightarrow> m_msgtosend_count s \<le> 1000"
    using check(5) by (auto simp: MsgSendInQueue_check_def Let_def split: if_splits)
  with assms(1) check filter_less [of i cs engaged] show ?thesis
    using length_filter_update [of i cs engaged] length_filter_update [of i cs uncounted]
    by (auto simp: send_inv_def)
next
  case (append i cs msg s)
  with assms(1) show ?thesis
    using length_filter_update [of i cs engaged] length_filter_update [of i cs uncounted]
    by (simp add: send_inv_def append_message_def)
next
  case (reply i cs a s)
  with assms(1) show ?thesis
    using length_filter_update [of i cs engaged] length_filter_update [of i cs uncounted]
    by (simp add: send_inv_def count_reply_def)
next
  case (message i cs s)
  with assms(1) show ?thesis
    using length_filter_update [of i cs engaged] length_filter_update [of i cs uncounted]
    by (simp add: send_inv_def count_message_def)
next
  case (post i cs s)
  with assms(1) show ?thesis
    using length_filter_update [of i cs engaged] length_filter_update [of i cs uncounted]
    by (simp add: send_inv_def post_message_def)
next
  case (visit ctl_ok ans s leave ans' s' cs)
  with assms(1) send_inv_visit show ?thesis by simp
next
  case (clean s cs)
  have "int (length (filter uncounted cs)) \<ge> 0" by simp
  with clean assms(1) show ?thesis by (simp add: send_inv_def sendmsglist_clean_def)
next
  case (other s' s cs)
  with assms(1) show ?thesis by (simp add: send_inv_def)
qed

definition send_init :: "nat \<Rightarrow> csocket \<times> enqueue_pc list \<Rightarrow> bool" where
  "send_init n x \<longleftrightarrow> (\<exists>heap. x = (CSocket_new heap, replicate n Outside))"

lemma send_step_threads: "send_step x x' \<Longrightarrow> length (snd x') = length (snd x)"
  by (induction rule: send_step.induct) simp_all

interpretation send_queue: invariant_of "send_init n" send_step "\<lambda>x. send_inv x \<and> length (snd x) = n" for n
proof
  fix x
  assume "send_init n x"
  then show "send_inv x \<and> length (snd x) = n" by (auto simp: send_init_def send_inv_def CSocket_new_def)
qed (auto intro: send_inv_step dest: send_step_threads)

section \<open>Properties\<close>

text \<open>A connection with two short packets queued.\<close>

definition small_packet :: "u16 \<Rightarrow> nat \<Rightarrow> byte list" where
  "small_packet code n = enc_pkg_header \<lparr>pkgLen = htons (of_nat (PKG_HEADER_LEN + n)),
     msgCode = htons code, crc32 = 0\<rparr> @ replicate n 0"

definition send_example :: csocket where
  "send_example = (CSocket_new ((\<lambda>_. zero_connection)
       (1 := zero_connection\<lparr>fd := 7, sequence := 1, sendlen_suppose := 8\<rparr>)))
     \<lparr>m_send_msgList := [message_of 1 1 (small_packet 5 2), message_of 1 1 (small_packet 1 0)],
      m_msgtosend_count := 2, m_sendsem := 2\<rparr>"

lemma small_message:
  assumes "n < 100"
  shows "unat (ntohs (pkgLen (pkg_head (message_of a sq (small_packet code n))))) = 8 + n"
    "wf_msg (message_of a sq (small_packet code n))"
    "packet_bytes (message_of a sq (small_packet code n)) = small_packet code n"
    "msg_head (message_of a sq (small_packet code n)) = \<lparr>lp_curconn = a, msg_cursequence = sq\<rparr>"
proof -
  have "pkg_head (message_of a sq (small_packet code n)) =
      \<lparr>pkgLen = htons (of_nat (PKG_HEADER_LEN + n)), msgCode = htons code, crc32 = 0\<rparr>"
    by (simp add: pkg_head_def message_of_def small_packet_def)
  moreover have "unat (of_nat (PKG_HEADER_LEN + n) :: u16) = 8 + n"
    using unat_of_nat_small [of "PKG_HEADER_LEN + n"] assms by (simp add: PKG_HEADER_LEN_def)
  ultimately show len: "unat (ntohs (pkgLen (pkg_head (message_of a sq (small_packet code n))))) = 8 + n"
    by (simp only: pkg_header.select_convs ntohs_htons)
  show "wf_msg (message_of a sq (small_packet code n))"
    unfolding wf_msg_def len by (simp add: message_of_def small_packet_def PKG_HEADER_LEN_def)
  show "packet_bytes (message_of a sq (small_packet code n)) = small_packet code n"
    unfolding packet_bytes_def len by (simp add: message_of_def small_packet_def PKG_HEADER_LEN_def)
  show "msg_head (message_of a sq (small_packet code n)) = \<lparr>lp_curconn = a, msg_cursequence = sq\<rparr>"
    by (simp add: msg_head_def message_of_def)
qed

lemma send_example_pre:
  "nonneg_pending send_example" "scan_pre 1 (m_send_msgList send_example) send_example"
  by (simp_all add: nonneg_pending_def scan_pre_def send_example_def CSocket_new_def zero_connection_def
      small_message judge_token_exact)

text \<open>C10. Sending loses, repeats and reorders nothing: in every round of the send thread, what the socket
  of a connection takes is a prefix of the bytes owed to it -- the rest of a message in flight,
  then its queued packets in the order they were queued -- and the remainder is still owed
  afterwards. This holds for every way the socket limits or interrupts the sends, and however the
  messages of other connections are mixed in.\<close>

theorem send_round_conserves:
  assumes "SendMsgThread_round stop ctl_ok ans t s = Inr (leave, t', ans', s')"
    and "steady ans" "nonneg_pending s"
    and "\<forall>m \<in> set (m_send_msgList s). wf_msg m \<and>
       (if lp_curconn (msg_head m) = a then judge_token (conns s a) (msg_cursequence (msg_head m))
        else fd (conns s (lp_curconn (msg_head m))) \<noteq> fd (conns s a))"
  shows "sent_on (fd (conns s a)) (os_trace s') @ owed a (m_send_msgList s') s' =
     sent_on (fd (conns s a)) (os_trace s) @ owed a (m_send_msgList s) s"
  using assms(1-3) assms(4) [folded scan_pre_def] by (rule SendMsgThread_round_owed)

theorem send_round_conserves_witness:
  "\<exists>s' leave t' ans'. SendMsgThread_round False True [SendSpace 3] \<lparr>running = True, ifshutdown = False\<rparr> send_example
     = Inr (leave, t', ans', s') \<and>
     sent_on 7 (os_trace s') @ owed 1 (m_send_msgList s') s' = small_packet 5 2 @ small_packet 1 0"
proof -
  let ?t = "\<lparr>running = True, ifshutdown = False\<rparr>"
  have "case SendMsgThread_round False True [SendSpace 3] ?t send_example of Inl _ \<Rightarrow> False | Inr _ \<Rightarrow> True"
    by code_simp
  then obtain leave t' ans' s' where
    run: "SendMsgThread_round False True [SendSpace 3] ?t send_example = Inr (leave, t', ans', s')"
    by (auto split: sum.splits)
  from send_round_conserves [OF run _ send_example_pre(1) send_example_pre(2) [unfolded scan_pre_def]]
  have "sent_on 7 (os_trace s') @ owed 1 (m_send_msgList s') s' = small_packet 5 2 @ small_packet 1 0"
    by (simp add: send_example_def CSocket_new_def zero_connection_def owed_def in_flight_def small_message)
  with run show ?thesis by blast
qed

text \<open>C21. The \<open>EPOLLOUT\<close> handler continues the message in flight without losing or repeating a byte, and
  touches no other connection, as long as the two lengths kept for it add up to the length its
  sender announced.\<close>

theorem writable_conserves:
  assumes "writable_request ctl_ok ans a s = Inr (ans', s')" "steady ans"
    and "iThrowsendCount (conns s a) > 0" "0 < sendlen (conns s a)"
    and "p_sendbuf (conns s a) = Some off" "p_msgsend (conns s a) = Some m"
    and "off + sendlen (conns s a) \<le> length m"
    and "sendlen_already (conns s a) + sendlen (conns s a) = sendlen_suppose (conns s a)"
  shows "sent_on (fd (conns s a)) (os_trace s') @ owed a (m_send_msgList s') s' =
     sent_on (fd (conns s a)) (os_trace s) @ owed a (m_send_msgList s) s \<and>
     (\<forall>b. b \<noteq> a \<longrightarrow> conns s' b = conns s b)"
  using event_writable_owed [OF assms] by (simp add: owed_def)

definition writable_example :: csocket where
  "writable_example = CSocket_new ((\<lambda>_. zero_connection)(1 := zero_connection\<lparr>fd := 7, sequence := 1,
     iThrowsendCount := 1, p_msgsend := Some (message_of 1 1 (small_packet 1 0)), p_sendbuf := Some 19,
     sendlen := 5, sendlen_already := 3, sendlen_suppose := 8\<rparr>))"

theorem writable_conserves_witness:
  "\<exists>ans' s'. writable_request True [SendErr EINTR, SendSpace 9] 1 writable_example = Inr (ans', s') \<and>
     sent_on 7 (os_trace s') @ owed 1 (m_send_msgList s') s' = drop 3 (small_packet 1 0)"
proof -
  have "case writable_request True [SendErr EINTR, SendSpace 9] 1 writable_example of
      Inl _ \<Rightarrow> False | Inr _ \<Rightarrow> True" by code_simp
  then obtain ans' s' where
    run: "writable_request True [SendErr EINTR, SendSpace 9] 1 writable_example = Inr (ans', s')"
    by (auto split: sum.splits)
  have len: "length (small_packet 1 0) = 8" by (simp add: small_packet_def PKG_HEADER_LEN_def)
  have msg: "drop 19 (message_of 1 1 (small_packet 1 0)) = drop 3 (small_packet 1 0) @ [0]"
    using len by (simp add: message_of_def MSG_HEADER_LEN_def)
  have "sent_on 7 (os_trace s') @ owed 1 (m_send_msgList s') s' = in_flight (conns writable_example 1)"
    using writable_conserves [OF run, of 19 "message_of 1 1 (small_packet 1 0)"] len
    by (simp add: writable_example_def CSocket_new_def zero_connection_def message_of_def MSG_HEADER_LEN_def
        owed_def)
  also have "\<dots> = drop 3 (small_packet 1 0)"
    using len msg by (simp add: writable_example_def CSocket_new_def in_flight_def)
  finally show ?thesis using run by blast
qed

text \<open>How the queue is filled: as long as the counter allows, thread 0 queues messages for ever new connections.\<close>

lemma queue_fills:
  assumes "0 < n" "k \<le> 1001"
  shows "\<exists>s. reach (send_init n) send_step (s, replicate n Outside) \<and> length (m_send_msgList s) = k \<and>
    m_msgtosend_count s = int k \<and> \<not> m_sendmutex s \<and> (\<forall>a. isend_count (conns s a) \<le> (if unat a < k then 1 else 0))"
  using assms(2)
proof (induction k)
  case 0
  have "reach (send_init n) send_step (CSocket_new (\<lambda>_. zero_connection), replicate n Outside)"
    by (rule reach_init) (auto simp: send_init_def)
  then show ?case by (intro exI) (auto simp: CSocket_new_def zero_connection_def)
next
  case (Suc k)
  let ?cs = "replicate n Outside" and ?a = "of_nat k :: addr"
  define m where "m = message_of ?a 1 (small_packet 1 0)"
  have a: "lp_curconn (msg_head m) = ?a" by (simp add: m_def small_message)
  from Suc obtain s where s: "reach (send_init n) send_step (s, ?cs)" "length (m_send_msgList s) = k"
    "m_msgtosend_count s = int k" "\<not> m_sendmutex s"
    "\<And>a. isend_count (conns s a) \<le> (if unat a < k then 1 else 0)" by auto
  have u: "unat ?a = k" using Suc.prems by (simp add: unat_of_nat)
  have i: "isend_count (conns s ?a) \<le> 0" using s(5) [of ?a] u by simp
  let ?s1 = "s\<lparr>m_sendmutex := True\<rparr>"
  let ?s3 = "count_reply ?a (append_message m ?s1)"
  have "MsgSendInQueue_check m s = Inr (True, ?s1)"
    using s(3,4) i Suc.prems by (simp add: MsgSendInQueue_check_def a Let_def)
  from reach_step [OF s(1) send_step.check [OF _ _ this, of 0]] assms(1)
  have "reach (send_init n) send_step (?s1, ?cs[0 := Checked m])" by simp
  from reach_step [OF this send_step.append [of 0]] assms(1) a
  have "reach (send_init n) send_step (append_message m ?s1, ?cs[0 := Appended ?a])" by simp
  from reach_step [OF this send_step.reply [of 0]] assms(1)
  have "reach (send_init n) send_step (?s3, ?cs[0 := ReplyCounted])" by simp
  from reach_step [OF this send_step.message [of 0]] assms(1)
  have "reach (send_init n) send_step (count_message ?s3, ?cs[0 := MessageCounted])" by simp
  from reach_step [OF this send_step.post [of 0]] assms(1)
  have r: "reach (send_init n) send_step (post_message (count_message ?s3), ?cs)"
    by (cases n) simp_all
  have c: "isend_count (conns ?s3 b) \<le> (if unat b < Suc k then 1 else 0)" for b
    using s(5) [of b] i u by (cases "b = ?a") (auto simp: count_reply_def append_message_def upd_conn_def split: if_splits)
  show ?case
    by (rule exI [of _ "post_message (count_message ?s3)"])
      (use r c s(2,3) in \<open>simp add: post_message_def count_message_def count_reply_def append_message_def\<close>)
qed

text \<open>With 1000 messages counted, the threads pass the comparison one after the other before any of them counts.\<close>

lemma queue_overfills:
  assumes "0 < n" "j \<le> n"
  shows "\<exists>s cs. reach (send_init n) send_step (s, cs) \<and> length (m_send_msgList s) = 1000 + j \<and>
    m_msgtosend_count s = 1000 \<and> \<not> m_sendmutex s \<and> (\<forall>a. isend_count (conns s a) \<le> 1) \<and>
    length cs = n \<and> (\<forall>i < n. j \<le> i \<longrightarrow> cs ! i = Outside)"
  using assms(2)
proof (induction j)
  case 0
  from queue_fills [OF assms(1), of 1000] obtain s where "reach (send_init n) send_step (s, replicate n Outside)"
    "length (m_send_msgList s) = 1000" "m_msgtosend_count s = 1000" "\<not> m_sendmutex s"
    "\<forall>a. isend_count (conns s a) \<le> (if unat a < 1000 then 1 else 0)" by auto
  moreover from this(5) have "isend_count (conns s a) \<le> 1" for a by (auto dest: spec [of _ a] split: if_splits)
  ultimately show ?case by (intro exI [of _ s] exI [of _ "replicate n Outside"]) simp
next
  case (Suc j)
  then obtain s cs where s: "reach (send_init n) send_step (s, cs)" "length (m_send_msgList s) = 1000 + j"
    "m_msgtosend_count s = 1000" "\<not> m_sendmutex s" "\<And>a. isend_count (conns s a) \<le> 1"
    "length cs = n" "\<forall>i < n. j \<le> i \<longrightarrow> cs ! i = Outside" by auto
  define m where "m = message_of 0 1 (small_packet 1 0)"
  let ?s1 = "s\<lparr>m_sendmutex := True\<rparr>"
  have "MsgSendInQueue_check m s = Inr (True, ?s1)"
    using s(3,4) s(5) [of "lp_curconn (msg_head m)"] by (simp add: MsgSendInQueue_check_def Let_def)
  from reach_step [OF s(1) send_step.check [OF _ _ this, of j]] s(6,7) Suc.prems
  have "reach (send_init n) send_step (?s1, cs[j := Checked m])" by simp
  from reach_step [OF this send_step.append [of j _ m]] s(6) Suc.prems
  have "reach (send_init n) send_step (append_message m ?s1, cs[j := Appended (lp_curconn (msg_head m))])" by simp
  then show ?case
    using s by (intro exI conjI) (assumption, auto simp: append_message_def nth_list_update)
qed

text \<open>C22. The limit of the send queue. \<open>n\<close> threads queue messages while the send thread and the other components
  work, in the single steps of the code: the comparison with the limit of 1000 is made under the mutex, the
  counter is raised behind it. Whatever the order, neither the queue nor its counter ever exceeds
  \<open>1000 + n\<close>, and the queue exceeds the counter by no more than the messages appended and not counted yet.
  The bound is exact: for every number of threads the queue can reach it, so that the limit the code
  means to keep is missed by one message for each thread.\<close>

theorem send_queue_bounded:
  assumes "0 < n"
  shows "(\<forall>s cs. reach (send_init n) send_step (s, cs) \<longrightarrow>
      length (m_send_msgList s) \<le> 1000 + n \<and> m_msgtosend_count s \<le> 1000 + int n \<and>
      int (length (m_send_msgList s)) \<le> m_msgtosend_count s + int (length (filter uncounted cs))) \<and>
    (\<exists>s cs. reach (send_init n) send_step (s, cs) \<and> length (m_send_msgList s) = 1000 + n)"
proof (intro conjI allI impI)
  fix s cs
  assume "reach (send_init n) send_step (s, cs)"
  from send_queue.reach_inv [OF this] have inv: "send_inv (s, cs)" "length cs = n" by simp_all
  have "length (filter uncounted cs) \<le> length (filter engaged cs)"
    by (induction cs) (auto simp: uncounted_def engaged_def split: enqueue_pc.splits)
  with inv show "length (m_send_msgList s) \<le> 1000 + n" "m_msgtosend_count s \<le> 1000 + int n"
    "int (length (m_send_msgList s)) \<le> m_msgtosend_count s + int (length (filter uncounted cs))"
    by (simp_all add: send_inv_def)
next
  show "\<exists>s cs. reach (send_init n) send_step (s, cs) \<and> length (m_send_msgList s) = 1000 + n"
    using queue_overfills [OF assms le_refl] by blast
qed

text \<open>The ten threads a pool has by default.\<close>

theorem send_queue_bounded_witness:
  "\<exists>s cs. reach (send_init 10) send_step (s, cs) \<and> length (m_send_msgList s) = 1010 \<and> m_msgtosend_count s \<le> 1010"
proof -
  from send_queue_bounded [of 10] obtain s cs where
    "reach (send_init 10) send_step (s, cs)" "length (m_send_msgList s) = 1010" by auto
  with send_queue_bounded [of 10] show ?thesis by fastforce
qed

text \<open>C30. When \<open>MsgSendInQueue\<close> drops a message because too many wait, it returns with the send mutex
  locked: from then on every call of it, and every round of the send thread that has something to
  send, waits for ever.\<close>

theorem dropped_message_deadlocks:
  assumes "\<not> m_sendmutex s"
    and "m_msgtosend_count s > 1000 \<or> isend_count (conns s (lp_curconn (msg_head msg))) > 400"
  shows "\<exists>s'. MsgSendInQueue msg s = Inr s' \<and> m_send_msgList s' = m_send_msgList s \<and>
    (\<forall>m. MsgSendInQueue m s' = Inl Deadlock) \<and>
    (m_msgtosend_count s > 0 \<and> m_sendsem s > 0 \<longrightarrow>
      (\<forall>ok ans t. ifshutdown t \<or> SendMsgThread_round False ok ans t s' = Inl Deadlock))"
  using assms by (auto simp: MsgSendInQueue_eq SendMsgThread_round_eq Let_def)

theorem dropped_message_deadlocks_witness:
  "\<exists>s'. MsgSendInQueue (message_of 1 1 (small_packet 1 0)) (send_example\<lparr>m_msgtosend_count := 1001\<rparr>) = Inr s' \<and>
     (\<forall>m. MsgSendInQueue m s' = Inl Deadlock)"
  using dropped_message_deadlocks [of "send_example\<lparr>m_msgtosend_count := 1001\<rparr>" "message_of 1 1 (small_packet 1 0)"]
  by (auto simp: send_example_def CSocket_new_def)

lemma send_scan_outdated:
  "\<forall>m \<in> set ms. \<not> judge_token (conns s (lp_curconn (msg_head m))) (msg_cursequence (msg_head m)) \<Longrightarrow>
   \<exists>s'. send_scan ctl_ok ans ms s = Inr (ScanDone, [], ans, s') \<and>
     m_msgtosend_count s' = m_msgtosend_count s \<and> m_send_msgList s' = m_send_msgList s"
proof (induction ms arbitrary: s)
  case Nil
  then show ?case by simp
next
  case (Cons m ms)
  let ?s = "upd_conn (lp_curconn (msg_head m)) clear_send s"
  have "same_identity s ?s" by (simp add: same_identity_def)
  then have "\<forall>m \<in> set ms. \<not> judge_token (conns ?s (lp_curconn (msg_head m))) (msg_cursequence (msg_head m))"
    using Cons.prems by (simp add: same_identity_def judge_token_iff)
  from Cons.IH [OF this] Cons.prems show ?case by (simp add: Let_def)
qed

text \<open>A round that finds only outdated messages empties the queue and leaves the message counter
  where it was: the counter the limit is compared with is never brought back.\<close>

theorem outdated_messages_keep_count:
  assumes "\<forall>m \<in> set (m_send_msgList s).
      \<not> judge_token (conns s (lp_curconn (msg_head m))) (msg_cursequence (msg_head m))"
    and "m_msgtosend_count s > 0" "m_sendsem s > 0" "\<not> m_sendmutex s" "\<not> ifshutdown t"
  shows "\<exists>t' s'. SendMsgThread_round False ctl_ok ans t s = Inr (False, t', ans, s') \<and>
     m_send_msgList s' = [] \<and> m_msgtosend_count s' = m_msgtosend_count s"
proof -
  from send_scan_outdated [of "m_send_msgList s" "s\<lparr>m_sendsem := m_sendsem s - 1\<rparr>" ctl_ok ans] assms(1)
  obtain s' where "send_scan ctl_ok ans (m_send_msgList s) (s\<lparr>m_sendsem := m_sendsem s - 1\<rparr>) = Inr (ScanDone, [], ans, s')"
    "m_msgtosend_count s' = m_msgtosend_count s" by auto
  with assms(2-5) show ?thesis by (simp add: SendMsgThread_round_eq Let_def)
qed

theorem outdated_messages_keep_count_witness:
  "\<exists>t' s'. SendMsgThread_round False True [] \<lparr>running = True, ifshutdown = False\<rparr>
      (send_example\<lparr>conns := \<lambda>_. zero_connection\<rparr>) = Inr (False, t', [], s') \<and>
     m_send_msgList s' = [] \<and> m_msgtosend_count s' = 2"
  using outdated_messages_keep_count [of "send_example\<lparr>conns := \<lambda>_. zero_connection\<rparr>"
      "\<lparr>running = True, ifshutdown = False\<rparr>" True "[]"]
  by (simp add: send_example_def CSocket_new_def zero_connection_def judge_token_iff)

text \<open>C31. A reply whose length differs from the length last announced for its connection (two requests
  of different kinds answered in one go suffice) is sent completely and then ends the send thread:
  it returns with the mutex locked and still marked as running, and the rest of the queue is never
  sent.\<close>

theorem length_mismatch_ends_thread:
  assumes "m_send_msgList s = m # ms" "a = lp_curconn (msg_head m)"
    and "judge_token (conns s a) (msg_cursequence (msg_head m))" "iThrowsendCount (conns s a) = 0"
    and "wf_msg m" "length (packet_bytes m) \<noteq> sendlen_suppose (conns s a)" "length (packet_bytes m) \<le> k"
    and "m_msgtosend_count s > 0" "m_sendsem s > 0" "\<not> m_sendmutex s" "\<not> ifshutdown t"
  shows "\<exists>t' s'. SendMsgThread_round False ctl_ok (SendSpace k # ans) t s = Inr (True, t', ans, s') \<and>
     running t' \<and> m_sendmutex s' \<and> m_send_msgList s' = ms \<and>
     os_trace s' = os_trace s @ [OsSend (fd (conns s a)) (packet_bytes m)] \<and>
     (\<forall>msg. MsgSendInQueue msg s' = Inl Deadlock)"
proof -
  have n: "0 < unat (ntohs (pkgLen (pkg_head m)))"
    "MSG_HEADER_LEN + unat (ntohs (pkgLen (pkg_head m))) \<le> length m"
    using assms(5) by (simp_all add: wf_msg_def)
  then have len: "length (packet_bytes m) = unat (ntohs (pkgLen (pkg_head m)))"
    by (simp add: packet_bytes_def)
  have "uint (ntohs (pkgLen (pkg_head m))) \<noteq> -1"
    using uint_ge_0 [of "ntohs (pkgLen (pkg_head m))"] by linarith
  then show ?thesis
    using assms n
    by (simp add: SendMsgThread_round_eq Let_def len take_message_def offered_def MsgSendInQueue_eq
        packet_bytes_def)
qed

theorem length_mismatch_ends_thread_witness:
  "\<exists>t' s'. SendMsgThread_round False True [SendSpace 500] \<lparr>running = True, ifshutdown = False\<rparr> send_example
      = Inr (True, t', [], s') \<and> m_sendmutex s' \<and> m_send_msgList s' = [message_of 1 1 (small_packet 1 0)]"
proof -
  have len: "length (small_packet 5 2) = 10" by (simp add: small_packet_def PKG_HEADER_LEN_def)
  show ?thesis
    using length_mismatch_ends_thread [of send_example "message_of 1 1 (small_packet 5 2)"
        "[message_of 1 1 (small_packet 1 0)]" 1 500 "\<lparr>running = True, ifshutdown = False\<rparr>" True "[]"] len
    by (auto simp: send_example_def CSocket_new_def zero_connection_def small_message judge_token_exact)
qed

end
