(* ===== verification/Accept.thy ===== *)
theory Accept
  imports Timer Send
begin

text \<open>
  Where connections begin and events are dispatched: \<open>event_accept_handler\<close>
  (\<open>net/socket_accept.cxx\<close>), \<open>epoll_event_init\<close>, \<open>epoll_process_events\<close>, \<open>ReadConf\<close> and
  \<open>open_listen_sockets\<close> (\<open>net/c_socket.cxx\<close>).
\<close>

section \<open>Configuration\<close>

text \<open>\<open>GetInt(name, default)\<close> is an argument: the configuration is read once and does not change.\<close>

definition ReadConf :: "(string \<Rightarrow> int \<Rightarrow> int) \<Rightarrow> csocket \<Rightarrow> csocket" where
  "ReadConf GetInt s =
     (let s = s\<lparr>m_worker_connections := GetInt ''worker_connections'' (m_worker_connections s)\<rparr>;
          s = s\<lparr>m_port_count := GetInt ''ListenPortCount'' (m_port_count s)\<rparr>;
          s = s\<lparr>m_create_connections_count := GetInt ''ConnectionsToCreate'' (m_create_connections_count s)\<rparr>;
          s = s\<lparr>m_delay_time := GetInt ''Sock_RecyConnectionWaitTime'' (m_delay_time s)\<rparr>;
          s = s\<lparr>m_TimeEnable := GetInt ''Sock_WaitTimeEnable'' 1\<rparr>
      in if m_TimeEnable s = 1 then
           let s = s\<lparr>m_waittime := GetInt ''Sock_MaxWaitTime'' (m_waittime s)\<rparr>
           in s\<lparr>m_waittime := (if m_waittime s > 5 then m_waittime s else 5)\<rparr>
         else s)"

section \<open>Listening sockets\<close>

text \<open>The answers of the operating system for one port, in the order of the calls. The descriptor
  comes from \<open>socket\<close>; the name of the configuration item of port \<open>i\<close> is an argument, because
  \<open>sprintf\<close> makes it.\<close>

record listen_env =
  le_sock :: int
  le_reuseaddr :: bool
  le_reuseport :: bool
  le_nonblock :: bool
  le_bind :: bool
  le_listen :: bool

definition setnonblocking :: "bool \<Rightarrow> int" where
  "setnonblocking fcntl_ok = (if \<not> fcntl_ok then -1 else 0)"

text \<open>One round of the loop; on failure the socket is closed again and the function returns false.\<close>

definition open_listen_one :: "listen_env \<Rightarrow> int \<Rightarrow> csocket \<Rightarrow> bool \<times> csocket" where
  "open_listen_one e iport s =
     (let fail = (False, os_request (OsClose (le_sock e)) s) in
      if le_sock e = -1 then (False, s)
      else if \<not> le_reuseaddr e then fail
      else if \<not> le_reuseport e then fail
      else if setnonblocking (le_nonblock e) = -1 then fail
      else if \<not> le_bind e then fail
      else if \<not> le_listen e then fail
      else (True, s\<lparr>m_ListenSocketList := m_ListenSocketList s @
              [listening_new\<lparr>l_fd := le_sock e, l_port := iport\<rparr>]\<rparr>))"

fun open_listen_loop :: "(int \<times> listen_env) list \<Rightarrow> csocket \<Rightarrow> bool \<times> csocket" where
  "open_listen_loop [] s = (True, s)"
| "open_listen_loop ((iport, e) # es) s =
     (case open_listen_one e iport s of
        (False, s) \<Rightarrow> (False, s)
      | (True, s) \<Rightarrow> open_listen_loop es s)"

text \<open>\<open>ports i\<close> is what \<open>GetInt\<close> answers for \<open>ListenPort\<close> \<open>i\<close> with default \<open>9000 + i\<close>.\<close>

definition open_listen_sockets :: "(nat \<Rightarrow> int) \<Rightarrow> (nat \<Rightarrow> listen_env) \<Rightarrow> csocket \<Rightarrow> bool \<times> csocket" where
  "open_listen_sockets ports env s =
     (case open_listen_loop (map (\<lambda>i. (ports i, env i)) [0..<nat (m_port_count s)]) s of
        (False, s) \<Rightarrow> (False, s)
      | (True, s) \<Rightarrow> (if length (m_ListenSocketList s) \<le> 0 then (False, s) else (True, s)))"

text \<open>\<open>CSocket::Initialize\<close>, and \<open>CSocketLogic::Initialize\<close>, which only calls it.\<close>

definition CSocket_Initialize ::
  "(string \<Rightarrow> int \<Rightarrow> int) \<Rightarrow> (nat \<Rightarrow> int) \<Rightarrow> (nat \<Rightarrow> listen_env) \<Rightarrow> csocket \<Rightarrow> bool \<times> csocket" where
  "CSocket_Initialize GetInt ports env s =
     (let s = ReadConf GetInt s; (ok, s) = open_listen_sockets ports env s
      in if \<not> ok then (False, s) else (True, s))"

definition CSocketLogic_Initialize ::
  "(string \<Rightarrow> int \<Rightarrow> int) \<Rightarrow> (nat \<Rightarrow> int) \<Rightarrow> (nat \<Rightarrow> listen_env) \<Rightarrow> csocket \<Rightarrow> bool \<times> csocket" where
  "CSocketLogic_Initialize GetInt ports env s =
     (let (bParentInit, s) = CSocket_Initialize GetInt ports env s in (bParentInit, s))"

lemma CSocketLogic_Initialize_eq:
  "CSocketLogic_Initialize GetInt ports env s = open_listen_sockets ports env (ReadConf GetInt s)"
  by (simp add: CSocketLogic_Initialize_def CSocket_Initialize_def Let_def split: prod.splits)

text \<open>Every listening object is deleted.\<close>

definition event_close_listen :: "csocket \<Rightarrow> csocket" where
  "event_close_listen s = s\<lparr>m_ListenSocketList := []\<rparr>"

section \<open>epoll_event_init\<close>

text \<open>Every listening socket gets a standby connection whose read handler accepts.\<close>

fun standby_loop :: "(addr \<times> connection) list \<Rightarrow> bool list \<Rightarrow> nat \<Rightarrow> csocket \<Rightarrow> fault + csocket" where
  "standby_loop (new # news) (ctl_ok # oks) i s =
     (if i < length (m_ListenSocketList s) then
        let pos = m_ListenSocketList s ! i;
            (a, s) = get_connection_item new s;
            s = upd_conn a (\<lambda>c. c\<lparr>fd := l_fd pos, p_listenitem := Some i,
                                  rhandler := event_accept_handler\<rparr>) s;
            s = s\<lparr>m_ListenSocketList := (m_ListenSocketList s)[i := pos\<lparr>l_connitem := a\<rparr>]\<rparr>;
            (r, s) = epoll_oper_event ctl_ok (l_fd pos) EPOLL_CTL_ADD (EPOLLIN OR EPOLLRDHUP) 0 a s
        in if r = -1 then Inl (ProcExit (-1)) else standby_loop news oks (i + 1) s
      else Inr s)"
| "standby_loop _ _ i s = (if i < length (m_ListenSocketList s) then Inl Waiting else Inr s)"

definition epoll_event_init ::
  "bool \<Rightarrow> (addr \<times> connection) list \<Rightarrow> (addr \<times> connection) list \<Rightarrow> bool list \<Rightarrow> csocket \<Rightarrow> fault + csocket" where
  "epoll_event_init create_ok pool_news news oks s =
     (if \<not> create_ok then Inl (ProcExit (-1))
      else standby_loop news oks 0 (connectpool_init pool_news s))"

section \<open>Accepting a connection\<close>

text \<open>One answer of \<open>accept4\<close> or \<open>accept\<close>: a descriptor with the peer's address, or an error.\<close>

datatype accept_ans = Accepted int "byte list" | AcceptErr int

abbreviation (input) ENOSYS :: int where "ENOSYS \<equiv> 38"

record accept_env =
  ae_new :: "addr \<times> connection"
  ae_now :: int
  ae_timer_now :: int
  ae_nonblock :: bool
  ae_ctl_ok :: bool
  ae_close_ok :: bool

text \<open>\<open>m_connectionList.size() > (m_worker_connections * 5)\<close> compares a \<open>size_t\<close> with an \<open>int\<close>.\<close>

definition pool_too_big :: "csocket \<Rightarrow> bool" where
  "pool_too_big s \<longleftrightarrow> length (m_connectionList s) > int_to_size (m_worker_connections s * 5) \<and>
     length (m_free_connectionList s) < int_to_size (m_worker_connections s)"

text \<open>The part of the handler after a descriptor was accepted; \<open>accept4\<close> is the value of the static flag \<open>use_accept4\<close>.\<close>

definition accept_connection ::
  "accept_env \<Rightarrow> bool \<Rightarrow> nat option \<Rightarrow> int \<Rightarrow> byte list \<Rightarrow> csocket \<Rightarrow> fault + csocket" where
  "accept_connection env accept4 listenitem connfd peer s =
     (if m_online_count s \<ge> m_worker_connections s then Inr (os_request (OsClose connfd) s)
      else if pool_too_big s then Inr (os_request (OsClose connfd) s)
      else
        let (a, s) = get_connection_item (ae_new env) s in
        if a = 0 then Inl (ProcExit (-1))
        else if \<not> accept4 \<and> setnonblocking (ae_nonblock env) = -1 then
          bindE (close_connection (ae_close_ok env) a s) (\<lambda>s. Inl (ProcExit (-1)))
        else
          let s = upd_conn a (\<lambda>c. (GetOneToUse (ae_now env) c)
                \<lparr>fd := connfd, p_listenitem := listenitem, s_sockaddr := peer,
                 rhandler := event_readable_request_handler,
                 whandler := event_writable_request_handler\<rparr>) s;
              (r, s) = epoll_oper_event (ae_ctl_ok env) connfd EPOLL_CTL_ADD (EPOLLIN OR EPOLLRDHUP) 0 a s
          in if r = -1 then close_connection (ae_close_ok env) a s
             else
               let s = (if m_TimeEnable s = 1 then AddToTimerQueue (ae_timer_now env) a s else s)
               in Inr (s\<lparr>m_online_count := m_online_count s + 1\<rparr>))"

text \<open>The loop: it ends at the first answer that is not \<open>ENOSYS\<close> from \<open>accept4\<close>.\<close>

fun event_accept :: "accept_env \<Rightarrow> accept_ans list \<Rightarrow> bool \<Rightarrow> addr \<Rightarrow> csocket \<Rightarrow> fault + (bool \<times> csocket)" where
  "event_accept env [] accept4 a s = Inl Waiting"
| "event_accept env (AcceptErr errno # ans) accept4 a s =
     (if errno = EAGAIN then Inr (accept4, s)
      else if accept4 \<and> errno = ENOSYS then event_accept env ans False a s
      else Inr (accept4, s))"
| "event_accept env (Accepted connfd peer # ans) accept4 a s =
     bindE (accept_connection env accept4 (p_listenitem (conns s a)) connfd peer s)
       (\<lambda>s. Inr (accept4, s))"

section \<open>Dispatching events\<close>

text \<open>What the operating system answers while one event is handled.\<close>

record event_env =
  ee_os :: os_env
  ee_accept :: accept_env
  ee_accepts :: "accept_ans list"
  ee_recv :: recv_ans
  ee_send :: "send_ans list"

definition run_event_handler :: "event_env \<Rightarrow> handler \<Rightarrow> addr \<Rightarrow> world \<Rightarrow> fault + world" where
  "run_event_handler env h a w = (case h of
      event_accept_handler \<Rightarrow>
        bindE (event_accept (ee_accept env) (ee_accepts env) (use_accept4 w) a (g_socket w))
          (\<lambda>(u, s). Inr (w\<lparr>g_socket := s, use_accept4 := u\<rparr>))
    | event_readable_request_handler \<Rightarrow> readable_request (ee_os env) (ee_recv env) a w
    | event_writable_request_handler \<Rightarrow>
        bindE (writable_request (env_ctl_ok (ee_os env)) (ee_send env) a (g_socket w))
          (\<lambda>(_, s). Inr (w\<lparr>g_socket := s\<rparr>)))"

definition process_event :: "event_env \<Rightarrow> u32 \<Rightarrow> addr \<Rightarrow> world \<Rightarrow> fault + world" where
  "process_event env ev a w =
     (if a = 0 then Inr w
      else bindE (if ev AND EPOLLIN \<noteq> 0
                  then run_event_handler env (rhandler (conns (g_socket w) a)) a w else Inr w) (\<lambda>w.
        if ev AND EPOLLOUT \<noteq> 0 then
          if ev AND (EPOLLRDHUP OR EPOLLERR OR EPOLLHUP) \<noteq> 0 then
            bindE (close_accepted_connection (env_ctl_ok (ee_os env)) (env_close_ok (ee_os env))
                    (env_now (ee_os env)) a False
                    (upd_conn a (\<lambda>c. c\<lparr>iThrowsendCount := iThrowsendCount c - 1\<rparr>) (g_socket w)))
              (\<lambda>s. Inr (w\<lparr>g_socket := s\<rparr>))
          else run_event_handler env (whandler (conns (g_socket w) a)) a w
        else Inr w))"

fun process_events :: "(event_env \<times> u32 \<times> addr) list \<Rightarrow> world \<Rightarrow> fault + world" where
  "process_events [] w = Inr w"
| "process_events ((env, ev, a) # evs) w = bindE (process_event env ev a w) (process_events evs)"

text \<open>\<open>epoll_wait\<close> fails with an error number or fills \<open>m_events\<close>.\<close>

datatype wait_ans = WaitErr int | WaitEvents "(event_env \<times> u32 \<times> addr) list"

definition epoll_process_events :: "int \<Rightarrow> wait_ans \<Rightarrow> world \<Rightarrow> fault + (int \<times> world)" where
  "epoll_process_events timer ans w = (case ans of
      WaitErr errno \<Rightarrow> Inr (if errno = EINTR then 0 else -1, w)
    | WaitEvents evs \<Rightarrow>
        if evs = [] then Inr (if timer \<noteq> -1 then 0 else -1, w)
        else bindE (process_events evs w) (\<lambda>w. Inr (1, w)))"

section \<open>Status output\<close>

text \<open>The part of \<open>PrintInfo\<close> that changes the state: at most one report in ten seconds.\<close>

definition PrintInfo :: "int \<Rightarrow> csocket \<Rightarrow> bool \<times> csocket" where
  "PrintInfo currtime s =
     (if currtime - m_lastprinttime s > 10 then (True, s\<lparr>m_lastprinttime := currtime\<rparr>) else (False, s))"

end
