(* ===== verification/Online.thy ===== *)
theory Online
  imports Accept
begin

text \<open>
  Who is connected: \<open>m_online_count\<close> is compared with \<open>m_worker_connections\<close> by the acceptor and
  changed in two places, behind a successful accept (\<open>net/socket_accept.cxx\<close>) and in
  \<open>close_accepted_connection\<close> (\<open>net/c_socket.cxx\<close>). This theory says what it counts, that each
  of these operations keeps the count exact and below the limit, and what accepting does.
\<close>

section \<open>The count\<close>

text \<open>The connection objects that were accepted at some time: only they have the read handler.\<close>

definition accepted :: "csocket \<Rightarrow> addr set" where
  "accepted s = {a \<in> set (m_connectionList s). rhandler (conns s a) = event_readable_request_handler}"

definition online_inv :: "csocket \<Rightarrow> bool" where
  "online_inv s \<longleftrightarrow> m_online_count s = int (card (serving s)) \<and>
     card (serving s) \<le> nat (m_worker_connections s) \<and>
     (\<lambda>e. lp_curconn (snd e)) ` set (m_timermap s) \<subseteq> accepted s"

lemma serving_accepted: "serving s = {a \<in> accepted s. fd (conns s a) \<noteq> -1}"
  by (auto simp: serving_def accepted_def)

text \<open>What the count depends on.\<close>

definition same_clients :: "csocket \<Rightarrow> csocket \<Rightarrow> bool" where
  "same_clients s s' \<longleftrightarrow> m_connectionList s' = m_connectionList s \<and>
     m_worker_connections s' = m_worker_connections s \<and>
     (\<forall>b. fd (conns s' b) = fd (conns s b) \<and> rhandler (conns s' b) = rhandler (conns s b))"

lemma same_clients_sets:
  assumes "same_clients s s'"
  shows "accepted s' = accepted s" "serving s' = serving s"
  using assms by (simp_all add: same_clients_def accepted_def serving_def)

lemma online_inv_same:
  assumes "same_clients s s'" "m_online_count s' = m_online_count s"
    "snd ` set (m_timermap s') \<subseteq> snd ` set (m_timermap s)" "online_inv s"
  shows "online_inv s'"
proof -
  have "(\<lambda>e. lp_curconn (snd e)) ` set (m_timermap s') \<subseteq> (\<lambda>e. lp_curconn (snd e)) ` set (m_timermap s)"
    using assms(3) by (force simp: image_iff)
  with assms(1,2,4) show ?thesis
    by (simp add: online_inv_def same_clients_sets [OF assms(1)]) (auto simp: same_clients_def)
qed

lemma same_clients_refl [simp]: "same_clients s s"
  by (simp add: same_clients_def)

lemma same_clients_trans: "same_clients s t \<Longrightarrow> same_clients t u \<Longrightarrow> same_clients s u"
  by (simp add: same_clients_def)

lemma online_inv_upd_conn:
  assumes "fd (f (conns s a)) = fd (conns s a)" "rhandler (f (conns s a)) = rhandler (conns s a)" "online_inv s"
  shows "online_inv (upd_conn a f s)"
  by (rule online_inv_same [OF _ _ _ assms(3)]) (use assms in \<open>simp_all add: same_clients_def\<close>)

lemma online_inv_epoll [simp]: "online_inv (snd (epoll_oper_event ok f fl et bc a s)) = online_inv s"
  by (simp add: online_inv_def accepted_def serving_def)

lemma online_inv_fields [simp]:
  "online_inv (s\<lparr>m_sendsem := x\<rparr>) = online_inv s" "online_inv (s\<lparr>m_msgtosend_count := y\<rparr>) = online_inv s"
  "online_inv (s\<lparr>m_send_msgList := z\<rparr>) = online_inv s" "online_inv (s\<lparr>m_sendmutex := b\<rparr>) = online_inv s"
  "online_inv (s\<lparr>m_lastprinttime := y\<rparr>) = online_inv s" "online_inv (os_request r s) = online_inv s"
  by (simp_all add: online_inv_def accepted_def serving_def)

section \<open>Closing\<close>

lemma close_accepted_frame:
  assumes "close_accepted_connection c1 c2 now a t s = Inr s'"
  shows "m_worker_connections s' = m_worker_connections s" "m_timermap s' = m_timermap s"
    "rhandler (conns s' b) = rhandler (conns s b)" "accepted s' = accepted s"
  using assms
  by (auto simp: close_accepted_connection_cases InRecyConnQueue_def accepted_def split: if_splits)

lemma online_inv_close_accepted:
  assumes close: "close_accepted_connection c1 c2 now a t s = Inr s'" and a: "a \<in> accepted s"
    and inv: "online_inv s"
  shows "online_inv s'"
proof (cases "fd (conns s a) = -1 \<or> (\<not> t \<and> istimeout (conns s a))")
  case True
  with close inv show ?thesis by (simp add: close_accepted_connection_cases)
next
  case False
  note frame = close_accepted_frame [OF close]
  from close False have fd: "fd (conns s' a) = -1" and online: "m_online_count s' = m_online_count s - 1"
    by (auto dest: close_accepted_connection_closes)
  have "serving s' = serving s - {a}"
  proof (rule set_eqI)
    fix b
    show "b \<in> serving s' \<longleftrightarrow> b \<in> serving s - {a}"
      using close_accepted_connection_conns(1) [OF close, of b] fd
      by (cases "b = a") (simp_all add: serving_accepted frame(4))
  qed
  moreover have "a \<in> serving s" using a False by (simp add: serving_accepted)
  ultimately have "card (serving s) = Suc (card (serving s'))"
    using card_Suc_Diff1 [of "serving s" a] by simp
  with inv online show ?thesis by (simp add: online_inv_def frame)
qed

section \<open>Accepting\<close>

text \<open>The state behind a successful accept: the connection of the pool (or a new one), set up.\<close>

definition admitted :: "accept_env \<Rightarrow> nat option \<Rightarrow> int \<Rightarrow> byte list \<Rightarrow> csocket \<Rightarrow> csocket" where
  "admitted env listenitem connfd peer s =
     (let (a, s) = get_connection_item (ae_new env) s in
      snd (epoll_oper_event (ae_ctl_ok env) connfd EPOLL_CTL_ADD (EPOLLIN OR EPOLLRDHUP) 0 a
        (upd_conn a (\<lambda>c. (GetOneToUse (ae_now env) c)\<lparr>fd := connfd, p_listenitem := listenitem,
          s_sockaddr := peer, rhandler := event_readable_request_handler,
          whandler := event_writable_request_handler\<rparr>) s)))"

lemma fst_epoll: "fst (epoll_oper_event ok f op ev b a s) = (if ok then 0 else -1)"
  by (simp add: epoll_oper_event_def Let_def)

lemma accept_connection_cases:
  assumes "accept_connection env acc4 li connfd peer s = Inr s'" and a: "a = fst (get_connection_item (ae_new env) s)"
  obtains (full) "m_online_count s \<ge> m_worker_connections s \<or> pool_too_big s" "s' = os_request (OsClose connfd) s"
    | (refused) "m_online_count s < m_worker_connections s" "\<not> pool_too_big s" "\<not> ae_ctl_ok env"
        "close_connection (ae_close_ok env) a (admitted env li connfd peer s) = Inr s'"
    | (admitted) "m_online_count s < m_worker_connections s" "\<not> pool_too_big s" "ae_ctl_ok env"
        "s' = (let s1 = admitted env li connfd peer s;
                   s2 = (if m_TimeEnable s1 = 1 then AddToTimerQueue (ae_timer_now env) a s1 else s1)
               in s2\<lparr>m_online_count := m_online_count s2 + 1\<rparr>)"
proof (cases "m_online_count s \<ge> m_worker_connections s \<or> pool_too_big s")
  case True
  with assms(1) that(1) show thesis by (auto simp: accept_connection_def split: if_splits)
next
  case False
  obtain s1 where get: "get_connection_item (ae_new env) s = (a, s1)"
    using a by (cases "get_connection_item (ae_new env) s") simp
  have adm: "admitted env li connfd peer s = snd (epoll_oper_event (ae_ctl_ok env) connfd EPOLL_CTL_ADD
      (EPOLLIN OR EPOLLRDHUP) 0 a (upd_conn a (\<lambda>c. (GetOneToUse (ae_now env) c)\<lparr>fd := connfd, p_listenitem := li,
        s_sockaddr := peer, rhandler := event_readable_request_handler,
        whandler := event_writable_request_handler\<rparr>) s1))"
    by (simp add: admitted_def get)
  from False have "\<not> m_online_count s \<ge> m_worker_connections s" "\<not> pool_too_big s" by simp_all
  note run = assms(1) [unfolded accept_connection_def if_not_P [OF this(1)] if_not_P [OF this(2)] get Let_def
      prod.case case_prod_unfold fst_epoll]
  from run False that(2,3) show thesis
    by (cases "ae_ctl_ok env") (auto simp: adm Let_def bindE_def split: if_splits sum.splits)
qed

lemma admitted_fresh:
  assumes pool: "pool_inv s" and new: "fst new \<notin> set (m_connectionList s)"
  shows "fst (get_connection_item new s) \<notin> serving s"
proof (cases "m_free_connectionList s")
  case Nil
  with new show ?thesis by (auto simp: get_connection_item_def serving_def)
next
  case (Cons b q)
  with pool show ?thesis by (auto simp: get_connection_item_def serving_def pool_inv_def)
qed

lemma admitted_effect:
  fixes connfd :: int and li :: "nat option" and peer :: "byte list"
  assumes pool: "pool_inv s" and new: "fst (ae_new env) \<notin> set (m_connectionList s)" "fst (ae_new env) \<noteq> 0"
    and a: "a = fst (get_connection_item (ae_new env) s)"
  defines "s1 \<equiv> admitted env li connfd peer s"
  shows "a \<in> set (m_connectionList s1)" "a \<notin> set (m_free_connectionList s1)" "a \<notin> set (m_recy_connectionList s1)"
    "m_online_count s1 = m_online_count s" "m_worker_connections s1 = m_worker_connections s"
    "m_TimeEnable s1 = m_TimeEnable s" "m_timermap s1 = m_timermap s" "set (m_connectionList s) \<subseteq> set (m_connectionList s1)"
    "set (m_connectionList s1) = insert a (set (m_connectionList s))"
    "fd (conns s1 a) = connfd" "rhandler (conns s1 a) = event_readable_request_handler"
    "b \<noteq> a \<Longrightarrow> conns s1 b = conns s b"
proof -
  obtain s0 where get: "get_connection_item (ae_new env) s = (a, s0)"
    using a by (cases "get_connection_item (ae_new env) s") simp
  note fresh = get_connection_item_fresh [OF pool new(1) get]
  have frame: "m_online_count s0 = m_online_count s" "m_worker_connections s0 = m_worker_connections s"
    "m_TimeEnable s0 = m_TimeEnable s" "m_timermap s0 = m_timermap s"
    "b \<noteq> a \<Longrightarrow> conns s0 b = conns s b" for b
    using get by (auto simp: get_connection_item_def split: list.splits)
  have l: "set (m_connectionList s0) = insert a (set (m_connectionList s))"
    using get pool by (auto simp: get_connection_item_def pool_inv_def split: list.splits)
  show "a \<in> set (m_connectionList s1)" "a \<notin> set (m_free_connectionList s1)" "a \<notin> set (m_recy_connectionList s1)"
    "m_online_count s1 = m_online_count s" "m_worker_connections s1 = m_worker_connections s"
    "m_TimeEnable s1 = m_TimeEnable s" "m_timermap s1 = m_timermap s" "set (m_connectionList s) \<subseteq> set (m_connectionList s1)"
    "set (m_connectionList s1) = insert a (set (m_connectionList s))"
    "fd (conns s1 a) = connfd" "rhandler (conns s1 a) = event_readable_request_handler"
    "b \<noteq> a \<Longrightarrow> conns s1 b = conns s b"
    using fresh frame l by (auto simp: s1_def admitted_def get)
qed

text \<open>What the connection is like.\<close>

lemma admitted_conn:
  fixes env li connfd peer s
  defines "a \<equiv> fst (get_connection_item (ae_new env) s)" and "s1 \<equiv> admitted env li connfd peer s"
  shows "fd (conns s1 a) = connfd" "s_sockaddr (conns s1 a) = peer"
    "rhandler (conns s1 a) = event_readable_request_handler" "whandler (conns s1 a) = event_writable_request_handler"
    "events (conns s1 a) = EPOLLIN OR EPOLLRDHUP" "curstat (conns s1 a) = PKG_HD_INIT"
    "sequence (conns s1 a) = (if m_free_connectionList s = [] then 1 else sequence (conns s a) + 1)"
    "m_free_connectionList s1 = tl (m_free_connectionList s)"
    "os_trace s1 = os_trace s @ [EpollCtl EPOLL_CTL_ADD connfd (EPOLLIN OR EPOLLRDHUP, a)]"
    "m_waittime s1 = m_waittime s"
  by (simp_all add: a_def s1_def admitted_def get_connection_item_def epoll_oper_event_def GetOneToUse_def
      PutToStateMach_def connection_new_def case_prod_unfold Let_def split: list.splits)

lemma accept_connection_admits:
  assumes "m_online_count s < m_worker_connections s" "\<not> pool_too_big s" "acc4 \<or> ae_nonblock env" "ae_ctl_ok env"
    and "fst (get_connection_item (ae_new env) s) \<noteq> 0"
  shows "accept_connection env acc4 li connfd peer s =
    Inr ((if m_TimeEnable (admitted env li connfd peer s) = 1
          then AddToTimerQueue (ae_timer_now env) (fst (get_connection_item (ae_new env) s)) (admitted env li connfd peer s)
          else admitted env li connfd peer s)
      \<lparr>m_online_count := m_online_count (admitted env li connfd peer s) + 1\<rparr>)"
proof -
  obtain a s1 where get: "get_connection_item (ae_new env) s = (a, s1)" by fastforce
  have "\<not> m_online_count s \<ge> m_worker_connections s" using assms(1) by simp
  note def = accept_connection_def [of env acc4 li connfd peer s, unfolded if_not_P [OF this] if_not_P [OF assms(2)]
      get Let_def prod.case case_prod_unfold fst_epoll]
  show ?thesis
    unfolding def using assms(3-5)
    by (cases acc4; simp add: setnonblocking_def admitted_def AddToTimerQueue_def get Let_def)
qed

lemma online_inv_accept:
  assumes inv: "online_inv s" and pool: "pool_inv s"
    and new: "fst (ae_new env) \<notin> set (m_connectionList s)" "fst (ae_new env) \<noteq> 0" and fd: "0 \<le> connfd"
    and run: "accept_connection env acc4 li connfd peer s = Inr s'"
  shows "online_inv s'"
proof -
  define a where "a = fst (get_connection_item (ae_new env) s)"
  define s1 where "s1 = admitted env li connfd peer s"
  note eff = admitted_effect [where connfd = connfd and li = li and peer = peer, OF pool new a_def, folded s1_def]
  have nserv: "a \<notin> serving s" unfolding a_def by (rule admitted_fresh [OF pool new(1)])
  have acc: "accepted s1 = insert a (accepted s)"
  proof (rule set_eqI)
    fix b
    show "b \<in> accepted s1 \<longleftrightarrow> b \<in> insert a (accepted s)"
      using eff(12) [of b] eff(9,11) by (cases "b = a") (auto simp: accepted_def)
  qed
  from run a_def show ?thesis
  proof (cases rule: accept_connection_cases)
    case full
    with inv show ?thesis by simp
  next
    case refused
    then have s': "s' = free_connection_item a (upd_conn a (\<lambda>c. c\<lparr>fd := -1, sequence := sequence c + 1\<rparr>)
        (os_request (OsClose (fd (conns s1 a))) s1))"
      by (simp add: close_connection_cases s1_def split: if_splits)
    have c: "fd (conns s' a) = -1" "rhandler (conns s' a) = rhandler (conns s1 a)"
      "m_connectionList s' = m_connectionList s1" "b \<noteq> a \<Longrightarrow> conns s' b = conns s b" for b
      using eff(12) [of b] by (simp_all add: s' free_connection_item_def)
    have acc': "accepted s' = accepted s1"
    proof (rule set_eqI)
      fix b
      show "b \<in> accepted s' \<longleftrightarrow> b \<in> accepted s1"
        using c(4) [of b] eff(12) [of b] by (cases "b = a") (simp_all add: accepted_def c(2,3))
    qed
    have "serving s' = serving s"
    proof (rule set_eqI)
      fix b
      show "b \<in> serving s' \<longleftrightarrow> b \<in> serving s"
        using c(4) [of b] c(1) nserv by (cases "b = a") (simp_all add: serving_accepted acc' acc)
    qed
    moreover have "m_online_count s' = m_online_count s" "m_timermap s' = m_timermap s"
      "m_worker_connections s' = m_worker_connections s"
      using eff(4-7) by (simp_all add: s' free_connection_item_def)
    moreover note acc'
    ultimately show ?thesis using inv acc by (auto simp: online_inv_def)
  next
    case admitted
    have clients: "same_clients s1 s'" and online: "m_online_count s' = m_online_count s + 1"
      and timer: "snd ` set (m_timermap s') \<subseteq> insert \<lparr>lp_curconn = a, msg_cursequence = sequence (conns s1 a)\<rparr>
        (snd ` set (m_timermap s))"
      using admitted(4) eff(4,7)
      by (auto simp: s1_def [symmetric] Let_def AddToTimerQueue_def same_clients_def)
    have "serving s1 = insert a (serving s)"
    proof (rule set_eqI)
      fix b
      show "b \<in> serving s1 \<longleftrightarrow> b \<in> insert a (serving s)"
        using eff(12) [of b] eff(10) acc fd by (cases "b = a") (auto simp: serving_accepted)
    qed
    then have "card (serving s') = card (serving s) + 1"
      using nserv  by (simp add: same_clients_sets [OF clients])
    moreover have "m_worker_connections s' = m_worker_connections s"
      using clients eff(5) by (simp add: same_clients_def)
    moreover have "(\<lambda>e. lp_curconn (snd e)) ` set (m_timermap s') \<subseteq> accepted s'"
    proof
      fix x
      assume "x \<in> (\<lambda>e. lp_curconn (snd e)) ` set (m_timermap s')"
      then obtain h where "h \<in> snd ` set (m_timermap s')" "x = lp_curconn h" by auto
      with timer have "x = a \<or> h \<in> snd ` set (m_timermap s)" by auto
      with inv \<open>x = lp_curconn h\<close> show "x \<in> accepted s'"
        by (auto simp: same_clients_sets [OF clients] acc online_inv_def)
    qed
    ultimately show ?thesis using inv admitted(1) online by (simp add: online_inv_def)
  qed
qed

section \<open>The helper threads\<close>

lemma Delete_clients:
  "same_clients s (DeleteFromTimerQueue h s)" "m_online_count (DeleteFromTimerQueue h s) = m_online_count s"
  "set (m_timermap (DeleteFromTimerQueue h s)) \<subseteq> set (m_timermap s)"
  by (auto simp: same_clients_def DeleteFromTimerQueue_def refresh_timer_value_def erase_matching_eq
      split: prod.splits)

lemma online_inv_Delete:
  assumes "online_inv s"
  shows "online_inv (DeleteFromTimerQueue h s)"
  by (rule online_inv_same [OF Delete_clients(1,2) _ assms]) (intro image_mono Delete_clients)

lemma accepted_upd_conn:
  "rhandler (f (conns s a)) = rhandler (conns s a) \<Longrightarrow> accepted (upd_conn a f s) = accepted s"
  by (auto simp: accepted_def upd_conn_def)

text \<open>The three ways an examination ends: the entry is deleted, the connection is left alone, or it is closed.\<close>

lemma TimeCheckingProc_cases:
  assumes run: "TimeCheckingProc c1 c2 now h t s = Inr s'"
  obtains "s' = DeleteFromTimerQueue h s" | "s' = s"
    | "close_accepted_connection c1 c2 now (lp_curconn h) True
        (DeleteFromTimerQueue h (upd_conn (lp_curconn h) (\<lambda>c. c\<lparr>istimeout := True\<rparr>) s)) = Inr s'"
proof (cases "judge_token (conns s (lp_curconn h)) (msg_cursequence h)")
  case False
  with run that(1) show thesis by (simp add: TimeCheckingProc_def Let_def)
next
  case tok: True
  show thesis
  proof (cases "t - ping_update_time (conns s (lp_curconn h)) > 3 * m_waittime s")
    case True
    with run tok that(3) show thesis by (simp add: TimeCheckingProc_def TimeOutProc_def Let_def)
  next
    case False
    with run tok that(2) show thesis by (simp add: TimeCheckingProc_def Let_def)
  qed
qed

lemma online_inv_TimeChecking:
  assumes run: "TimeCheckingProc c1 c2 now h t s = Inr s'" and a: "lp_curconn h \<in> accepted s" and inv: "online_inv s"
  shows "online_inv s' \<and> accepted s' = accepted s"
proof -
  let ?u = "upd_conn (lp_curconn h) (\<lambda>c. c\<lparr>istimeout := True\<rparr>) s"
  have u: "online_inv ?u" "accepted ?u = accepted s"
    using inv by (simp_all add: online_inv_upd_conn accepted_upd_conn)
  note del = same_clients_sets(1) [OF Delete_clients(1)]
  from run show ?thesis
  proof (cases rule: TimeCheckingProc_cases)
    case 1
    with inv show ?thesis by (simp add: online_inv_Delete del)
  next
    case 2
    with inv show ?thesis by simp
  next
    case 3
    have "lp_curconn h \<in> accepted (DeleteFromTimerQueue h ?u)" using a by (simp add: del u(2))
    from online_inv_close_accepted [OF 3 this online_inv_Delete [OF u(1)]] close_accepted_frame(4) [OF 3]
    show ?thesis by (simp add: del u(2))
  qed
qed

lemma online_inv_exam_list:
  "exam_list c1 c2 now hs t s = Inr s' \<Longrightarrow> lp_curconn ` set hs \<subseteq> accepted s \<Longrightarrow> online_inv s \<Longrightarrow> online_inv s'"
proof (induction hs arbitrary: s)
  case Nil
  then show ?case by simp
next
  case (Cons h hs)
  from Cons.prems(1) obtain s1 where s1: "TimeCheckingProc c1 c2 now h t s = Inr s1"
    "exam_list c1 c2 now hs t s1 = Inr s'"
    by (auto simp: bindE_Inr_iff)
  from online_inv_TimeChecking [OF s1(1)] Cons.prems(2,3) have "online_inv s1" "accepted s1 = accepted s" by simp_all
  with Cons.IH [OF s1(2)] Cons.prems(2) show ?case by simp
qed

lemma online_inv_timer_pass:
  assumes inv: "online_inv s" and t: "timer_inv s" "m_waittime s > 0"
    and run: "timer_pass c1 c2 now s = Some (Inr s')"
  shows "online_inv s'"
proof (cases "m_timer_value s > now \<or> m_timermap_size s = 0")
  case True
  with run inv show ?thesis by (simp add: timer_pass_def)
next
  case False
  let ?m = "rescheduled now (m_waittime s) (m_timermap s)"
  let ?s1 = "s\<lparr>m_timermap := ?m, m_timer_value := (if due now (m_timermap s) = [] then m_timer_value s else fst (hd ?m))\<rparr>"
  have exam: "exam_list c1 c2 now (due now (m_timermap s)) now ?s1 = Inr s'"
    using run False collect_overtime_eq [OF t(2,1), of now] by (simp add: timer_pass_def)
  have "same_clients s ?s1" by (simp add: same_clients_def)
  moreover have "snd ` set ?m \<subseteq> snd ` set (m_timermap s)"
    using due_rescheduled(2) [of now "m_waittime s" "m_timermap s"] by auto
  ultimately have s1: "online_inv ?s1" "accepted ?s1 = accepted s"
    using online_inv_same [OF _ _ _ inv, of ?s1] same_clients_sets(1) [of s ?s1] by simp_all
  have "lp_curconn ` set (due now (m_timermap s)) \<subseteq> accepted ?s1"
    using inv due_rescheduled(1) [of now "m_timermap s"] unfolding s1(2) by (force simp: online_inv_def)
  then show ?thesis by (rule online_inv_exam_list [OF exam _ s1(1)])
qed

lemma PutOneToFree_client [simp]:
  "fd (PutOneToFree c) = fd c" "rhandler (PutOneToFree c) = rhandler c"
  by (simp_all add: PutOneToFree_def)

lemma recycle_clients:
  "m_online_count (fold recycle_one as s) = m_online_count s" "m_timermap (fold recycle_one as s) = m_timermap s"
  "same_clients s (fold recycle_one as s)"
proof -
  have "same_clients s (recycle_one a s)" for a s
    by (simp add: same_clients_def) (simp add: recycle_one_def free_connection_item_def)
  then show "same_clients s (fold recycle_one as s)"
    by (induction as arbitrary: s) (auto intro: same_clients_trans)
qed (simp_all add: fold_recycle_frame)

lemma online_inv_recycle:
  assumes "pool_inv s" "RecyConnThread_body False False clock stop s = (leave, s')" "online_inv s"
  shows "online_inv s'"
proof (cases "0 < m_recy_connection_count s")
  case True
  have "s' = (fold recycle_one (recy_due_list clock stop s) s)\<lparr>m_recy_connectionList := recy_kept_list clock stop s\<rparr>"
    using RecyConnThread_body_eq [OF assms(1) True] assms(2) by simp
  with recycle_clients [where as = "recy_due_list clock stop s" and s = s] show ?thesis
    by (intro online_inv_same [OF _ _ _ assms(3)]) (simp_all add: same_clients_def)
next
  case False
  with assms(2,3) show ?thesis by (simp add: RecyConnThread_body_def)
qed

section \<open>Properties\<close>

text \<open>A pool with one free connection, and a client that arrives.\<close>

definition online_example :: csocket where
  "online_example = (CSocket_new (\<lambda>_. zero_connection\<lparr>fd := -1\<rparr>))\<lparr>m_connectionList := [1],
     m_free_connectionList := [1], m_total_connection_count := 1, m_free_connection_count := 1\<rparr>"

definition accept_example :: accept_env where
  "accept_example = \<lparr>ae_new = (2, zero_connection), ae_now = 50, ae_timer_now = 50, ae_nonblock = True,
     ae_ctl_ok = True, ae_close_ok = True\<rparr>"

text \<open>C16. Accepting below the limit admits the client: the connection object comes from the front of the free
  list, or is new if nothing is free, and served nobody before; it gets the descriptor, the address of
  the peer, the next sequence number, the two handlers and a receiver between packets, with nothing
  pending; the descriptor is registered for reading, and for the peer's hang-up; the client counts, and
  is in the timer queue if the heartbeat check is on. Every other connection stays as it is.\<close>

theorem accept_admits:
  assumes "pool_inv s" "fst (ae_new env) \<notin> set (m_connectionList s)" "fst (ae_new env) \<noteq> 0"
    and "m_online_count s < m_worker_connections s" "\<not> pool_too_big s"
    and "acc4 \<or> ae_nonblock env" "ae_ctl_ok env"
  shows "\<exists>s' a. accept_connection env acc4 li connfd peer s = Inr s' \<and>
    (case m_free_connectionList s of
        b # q \<Rightarrow> a = b \<and> m_free_connectionList s' = q \<and> sequence (conns s' a) = sequence (conns s a) + 1
      | [] \<Rightarrow> a = fst (ae_new env) \<and> m_free_connectionList s' = [] \<and> sequence (conns s' a) = 1) \<and>
    a \<notin> serving s \<and> a \<in> set (m_connectionList s') \<and>
    fd (conns s' a) = connfd \<and> s_sockaddr (conns s' a) = peer \<and>
    rhandler (conns s' a) = event_readable_request_handler \<and>
    whandler (conns s' a) = event_writable_request_handler \<and>
    events (conns s' a) = EPOLLIN OR EPOLLRDHUP \<and> recv_wf a (conns s' a) \<and> pending (conns s' a) = [] \<and>
    os_trace s' = os_trace s @ [EpollCtl EPOLL_CTL_ADD connfd (EPOLLIN OR EPOLLRDHUP, a)] \<and>
    m_online_count s' = m_online_count s + 1 \<and>
    m_timermap s' = (if m_TimeEnable s = 1
      then mm_insert (ae_timer_now env + m_waittime s)
             \<lparr>lp_curconn = a, msg_cursequence = sequence (conns s' a)\<rparr> (m_timermap s) else m_timermap s) \<and>
    (\<forall>b. b \<noteq> a \<longrightarrow> conns s' b = conns s b)"
proof -
  define a where "a = fst (get_connection_item (ae_new env) s)"
  define s1 where "s1 = admitted env li connfd peer s"
  note eff = admitted_effect [where connfd = connfd and li = li and peer = peer, OF assms(1-3) a_def, folded s1_def]
  note conn = admitted_conn [where env = env and li = li and connfd = connfd and peer = peer and s = s,
      folded a_def s1_def]
  have a0: "a \<noteq> 0"
    using assms(1,3) by (auto simp: a_def get_connection_item_def pool_inv_def split: list.splits)
  define s' where "s' = (if m_TimeEnable s1 = 1 then AddToTimerQueue (ae_timer_now env) a s1 else s1)
      \<lparr>m_online_count := m_online_count s1 + 1\<rparr>"
  have run: "accept_connection env acc4 li connfd peer s = Inr s'"
    unfolding s'_def s1_def a_def by (rule accept_connection_admits) (use assms a0 in \<open>simp_all add: a_def\<close>)
  have c: "conns s' a = (conns s1 a)\<lparr>ping_update_time := ping_update_time (conns s' a)\<rparr>"
    "\<And>b. b \<noteq> a \<Longrightarrow> conns s' b = conns s1 b" "m_connectionList s' = m_connectionList s1"
    "m_free_connectionList s' = m_free_connectionList s1" "os_trace s' = os_trace s1"
    by (simp_all add: s'_def AddToTimerQueue_def Let_def)
  have seq: "sequence (conns s' a) = sequence (conns s1 a)" by (subst c(1)) simp
  have fields: "fd (conns s' a) = connfd" "s_sockaddr (conns s' a) = peer"
    "rhandler (conns s' a) = event_readable_request_handler" "whandler (conns s' a) = event_writable_request_handler"
    "events (conns s' a) = EPOLLIN OR EPOLLRDHUP" "curstat (conns s' a) = PKG_HD_INIT"
    by (subst c(1), simp add: conn)+
  have recv: "recv_wf a (conns s' a)" "pending (conns s' a) = []"
    by (simp_all add: recv_wf_def pending_def fields(6))
  have pool: "case m_free_connectionList s of
        b # q \<Rightarrow> a = b \<and> m_free_connectionList s' = q \<and> sequence (conns s' a) = sequence (conns s a) + 1
      | [] \<Rightarrow> a = fst (ae_new env) \<and> m_free_connectionList s' = [] \<and> sequence (conns s' a) = 1"
    unfolding seq c(4) using conn(7,8) by (simp add: a_def get_connection_item_def split: list.splits)
  have timer: "m_timermap s' = (if m_TimeEnable s = 1
      then mm_insert (ae_timer_now env + m_waittime s)
             \<lparr>lp_curconn = a, msg_cursequence = sequence (conns s' a)\<rparr> (m_timermap s) else m_timermap s)"
    unfolding seq by (simp add: s'_def AddToTimerQueue_def eff conn Let_def)
  have rest: "a \<notin> serving s" "a \<in> set (m_connectionList s')" "m_online_count s' = m_online_count s + 1"
    "os_trace s' = os_trace s @ [EpollCtl EPOLL_CTL_ADD connfd (EPOLLIN OR EPOLLRDHUP, a)]"
    using admitted_fresh [OF assms(1,2), folded a_def] eff(1,4) conn(9) by (simp_all add: c) (simp_all add: s'_def)
  have "\<forall>b. b \<noteq> a \<longrightarrow> conns s' b = conns s b" using c(2) eff(12) by simp
  with run pool rest fields recv timer show ?thesis by blast
qed

theorem accept_admits_witness:
  "\<exists>s'. accept_connection accept_example True None 9 [] online_example = Inr s' \<and>
     fd (conns s' 1) = 9 \<and> sequence (conns s' 1) = 1 \<and> m_free_connectionList s' = [] \<and> m_online_count s' = 1"
proof -
  have pre: "pool_inv online_example" "fst (ae_new accept_example) \<notin> set (m_connectionList online_example)"
    "fst (ae_new accept_example) \<noteq> 0" "m_online_count online_example < m_worker_connections online_example"
    "\<not> pool_too_big online_example" "True \<or> ae_nonblock accept_example" "ae_ctl_ok accept_example"
    by code_simp+
  have free: "m_free_connectionList online_example = [1]" "sequence (conns online_example 1) = 0"
    "m_online_count online_example = 0"
    by code_simp+
  from accept_admits [OF pre, of None 9 "[]"] show ?thesis
    unfolding free list.case by (auto simp: free(2))
qed

end
