(* ===== verification/Crc32.thy ===== *)
theory Crc32
  imports Interfaces
begin

text \<open>
  The table-driven CRC-32 of \<open>misc/c_crc32.cxx\<close> (class \<open>CCRC32\<close>): \<open>Reflect\<close>,
  \<open>Init_CRC32_Table\<close> and \<open>Get_CRC\<close>, the bit-serial reference they implement, and what the
  checksum detects.
\<close>

section \<open>The code\<close>

text \<open>\<open>for (int i = 1; i < (ch + 1); i++)\<close>; \<open>ch\<close> is 8 or 32 wherever the code calls it.\<close>

function Reflect_loop :: "nat \<Rightarrow> nat \<Rightarrow> u32 \<Rightarrow> u32 \<Rightarrow> u32" where
  "Reflect_loop ch i ref val =
     (if i < ch + 1
      then Reflect_loop ch (i + 1) (drop_bit 1 ref)
             (if ref AND 1 \<noteq> 0 then val OR push_bit (ch - i) 1 else val)
      else val)"
  by pat_completeness auto
termination
  by (relation "measure (\<lambda>(ch, i, _). ch + 1 - i)") auto

declare Reflect_loop.simps [simp del]

definition Reflect :: "u32 \<Rightarrow> nat \<Rightarrow> u32" where
  "Reflect ref ch = Reflect_loop ch 1 ref 0"

definition ulPolynomial :: u32 where
  "ulPolynomial = 0x04c11db7"

text \<open>The body of the inner loop of \<open>Init_CRC32_Table\<close>, run eight times for each entry.\<close>

definition table_round :: "u32 \<Rightarrow> u32" where
  "table_round v = push_bit 1 v XOR (if v AND push_bit 31 1 \<noteq> 0 then ulPolynomial else 0)"

definition table_entry :: "u32 \<Rightarrow> u32" where
  "table_entry i = Reflect ((table_round ^^ 8) (push_bit 24 (Reflect i 8))) 32"

definition Init_CRC32_Table :: "u32 list" where
  "Init_CRC32_Table = map (\<lambda>i. table_entry (of_nat i)) [0..<256]"

definition crc_step :: "u32 list \<Rightarrow> u32 \<Rightarrow> byte \<Rightarrow> u32" where
  "crc_step tbl crc b = drop_bit 8 crc XOR tbl ! unat ((crc AND 0xFF) XOR ucast b)"

text \<open>\<open>while (len--)\<close>: reading past the end of the buffer has no value.\<close>

fun Get_CRC_loop :: "u32 list \<Rightarrow> byte list \<Rightarrow> nat \<Rightarrow> u32 \<Rightarrow> u32 option" where
  "Get_CRC_loop tbl buffer 0 crc = Some crc"
| "Get_CRC_loop tbl [] (Suc len) crc = None"
| "Get_CRC_loop tbl (b # buffer) (Suc len) crc = Get_CRC_loop tbl buffer len (crc_step tbl crc b)"

text \<open>\<open>len = dwSize\<close> is an \<open>int\<close>: a size of \<open>2 ^ 31\<close> or more makes it negative, and the countdown
  then runs through signed overflow.\<close>

definition Get_CRC :: "byte list \<Rightarrow> u32 \<Rightarrow> u32 option" where
  "Get_CRC buffer dwSize =
     (if sint dwSize < 0 then None
      else map_option (\<lambda>crc. crc XOR 0xffffffff)
             (Get_CRC_loop Init_CRC32_Table buffer (nat (sint dwSize)) 0xffffffff))"

section \<open>The reference: one bit at a time\<close>

definition crc_bit :: "u32 \<Rightarrow> u32" where
  "crc_bit c = (if bit c 0 then drop_bit 1 c XOR 0xEDB88320 else drop_bit 1 c)"

definition crc_byte :: "u32 \<Rightarrow> byte \<Rightarrow> u32" where
  "crc_byte c b = (crc_bit ^^ 8) (c XOR ucast b)"

definition crc32_spec :: "byte list \<Rightarrow> u32" where
  "crc32_spec bs = foldl crc_byte 0xffffffff bs XOR 0xffffffff"

section \<open>Reflection is bit reversal\<close>

lemma and_one_iff: "(w :: u32) AND 1 \<noteq> 0 \<longleftrightarrow> bit w 0"
  by (simp add: and_one_eq bit_0 odd_iff_mod_2_eq_one)

lemma bit_Reflect_loop:
  assumes "1 \<le> i" "ch \<le> 32"
  shows "bit (Reflect_loop ch i ref val) k \<longleftrightarrow>
           bit val k \<or> (k \<le> ch - i \<and> i \<le> ch \<and> bit ref (ch - i - k))"
  using assms
proof (induction ch i ref val rule: Reflect_loop.induct)
  case (1 ch i ref val)
  show ?case
  proof (cases "i < ch + 1")
    case False
    then show ?thesis by (subst Reflect_loop.simps) auto
  next
    case True
    let ?v = "if ref AND 1 \<noteq> 0 then val OR push_bit (ch - i) 1 else val"
    have v: "bit ?v k \<longleftrightarrow> bit val k \<or> (k = ch - i \<and> bit ref 0)"
      using "1.prems" True by (auto simp: and_one_iff bit_simps)
    have IH: "bit (Reflect_loop ch (i + 1) (drop_bit 1 ref) ?v) k \<longleftrightarrow>
        bit ?v k \<or> (k \<le> ch - (i + 1) \<and> i + 1 \<le> ch \<and> bit (drop_bit 1 ref) (ch - (i + 1) - k))"
      using "1.IH" [OF True] "1.prems" by simp
    have "bit (Reflect_loop ch i ref val) k \<longleftrightarrow>
        bit val k \<or> (k = ch - i \<and> bit ref 0) \<or>
        (k \<le> ch - (i + 1) \<and> i + 1 \<le> ch \<and> bit ref (Suc (ch - (i + 1) - k)))"
      using True by (subst Reflect_loop.simps) (simp add: IH [simplified] v [simplified] bit_simps)
    moreover have "k = ch - i \<or> (k \<le> ch - (i + 1) \<and> i + 1 \<le> ch) \<longleftrightarrow> k \<le> ch - i"
      using True by auto
    moreover have "k \<le> ch - (i + 1) \<Longrightarrow> i + 1 \<le> ch \<Longrightarrow> Suc (ch - (i + 1) - k) = ch - i - k"
      by simp
    ultimately show ?thesis using True
      by (cases "k = ch - i") auto
  qed
qed

lemma bit_Reflect:
  "ch \<le> 32 \<Longrightarrow> bit (Reflect ref ch) k \<longleftrightarrow> k < ch \<and> bit ref (ch - 1 - k)"
  unfolding Reflect_def by (subst bit_Reflect_loop) auto

lemma Reflect_32_involutive: "Reflect (Reflect w 32) 32 = w"
  by (rule bit_eqI) (auto simp: bit_Reflect possible_bit_word)

section \<open>The table rounds mirror the bit-serial step\<close>

lemma bit_ulPolynomial_reflected: "Reflect ulPolynomial 32 = 0xEDB88320"
  by (simp add: Reflect_def Reflect_loop.simps ulPolynomial_def)

lemma bit_ulPolynomial_0: "bit ulPolynomial 0"
  by (simp add: ulPolynomial_def)

lemma bit_reflected_poly: "bit (0xEDB88320 :: u32) k \<longleftrightarrow> k < 32 \<and> bit ulPolynomial (31 - k)"
  by (subst bit_ulPolynomial_reflected [symmetric]) (simp add: bit_Reflect)

lemma bit_table_round:
  assumes "k < 32"
  shows "bit (table_round c) k \<longleftrightarrow> (0 < k \<and> bit c (k - 1)) \<noteq> (bit c 31 \<and> bit ulPolynomial k)"
proof -
  have shift: "bit (push_bit 1 c) k \<longleftrightarrow> 0 < k \<and> bit c (k - 1)"
    using assms by (subst bit_push_bit_iff) auto
  have top: "(c AND push_bit 31 1 \<noteq> 0) = bit c 31"
    by (simp only: bit_iff_and_push_bit_not_eq_0)
  show ?thesis
    unfolding table_round_def top bit_xor_iff shift by simp
qed

lemma bit_crc_bit:
  "k < 32 \<Longrightarrow> bit (crc_bit c) k \<longleftrightarrow> bit c (Suc k) \<noteq> (bit c 0 \<and> bit ulPolynomial (31 - k))"
  unfolding crc_bit_def by (cases "bit c 0") (simp_all only: bit_xor_iff bit_reflected_poly
      bit_drop_bit_eq comp_apply plus_1_eq_Suc if_True if_False, simp_all)

lemma Reflect_table_round: "Reflect (table_round c) 32 = crc_bit (Reflect c 32)"
proof (rule bit_eqI)
  fix k
  assume "possible_bit TYPE(32 word) k"
  then have k: "k < 32" by (simp add: possible_bit_word)
  then have "31 - k < 32" "31 - k - 1 = 30 - k" by auto
  with k show "bit (Reflect (table_round c) 32) k = bit (crc_bit (Reflect c 32)) k"
    by (auto simp: bit_Reflect bit_table_round bit_crc_bit)
qed

lemma Reflect_table_rounds: "Reflect ((table_round ^^ n) c) 32 = (crc_bit ^^ n) (Reflect c 32)"
  by (induction n) (simp_all add: Reflect_table_round)

lemma table_entry_eq:
  assumes "\<And>k. bit i k \<Longrightarrow> k < 8"
  shows "table_entry i = (crc_bit ^^ 8) i"
proof -
  have "Reflect (push_bit 24 (Reflect i 8)) 32 = i"
  proof (rule bit_eqI)
    fix k
    have "bit i k \<Longrightarrow> k < 8" by (rule assms)
    then show "bit (Reflect (push_bit 24 (Reflect i 8)) 32) k = bit i k"
      by (auto simp: bit_Reflect bit_push_bit_iff)
  qed
  then show ?thesis
    unfolding table_entry_def by (simp only: Reflect_table_rounds)
qed

section \<open>The bit-serial step is linear and injective\<close>

lemma crc_bit_xor: "crc_bit (x XOR y) = crc_bit x XOR crc_bit y"
  by (cases "bit x 0"; cases "bit y 0")
    (auto simp: crc_bit_def bit_xor_iff drop_bit_xor ac_simps intro!: bit_eqI)

lemma crc_bits_xor: "(crc_bit ^^ n) (x XOR y) = (crc_bit ^^ n) x XOR (crc_bit ^^ n) y"
  by (induction n) (simp_all add: crc_bit_xor)

lemma crc_bits_drop:
  "(\<And>k. k < n \<Longrightarrow> \<not> bit x k) \<Longrightarrow> (crc_bit ^^ n) x = drop_bit n x"
proof (induction n arbitrary: x)
  case 0
  then show ?case by simp
next
  case (Suc n)
  have "crc_bit x = drop_bit 1 x"
    using Suc.prems [of 0] by (simp add: crc_bit_def)
  moreover have "(crc_bit ^^ n) (drop_bit 1 x) = drop_bit n (drop_bit 1 x)"
    by (rule Suc.IH) (simp add: bit_simps Suc.prems)
  ultimately show ?case
    by (simp add: funpow_Suc_right del: funpow.simps)
qed

lemma crc_bit_top: "bit (crc_bit c) 31 \<longleftrightarrow> bit c 0"
  by (auto simp: crc_bit_def bit_simps bit_reflected_poly bit_ulPolynomial_0 dest: bit_imp_le_length)

lemma xor_right_cancel: "(x XOR z = y XOR z) = (x = (y :: u32))"
proof
  assume "x XOR z = y XOR z"
  then have "(x XOR z) XOR z = (y XOR z) XOR z" by simp
  then show "x = y" by (simp add: xor.assoc)
qed simp

lemma inj_crc_bit: "inj crc_bit"
proof (rule injI)
  fix x y
  assume eq: "crc_bit x = crc_bit y"
  then have low: "bit x 0 = bit y 0" by (metis crc_bit_top)
  have "drop_bit 1 x = drop_bit 1 y"
    using eq low by (cases "bit y 0") (simp_all add: crc_bit_def xor_right_cancel)
  then have "bit x (Suc k) = bit y (Suc k)" for k
    by (metis bit_drop_bit_eq comp_apply plus_1_eq_Suc)
  with low have "bit x k = bit y k" for k
    by (cases k) auto
  then show "x = y" by (simp add: bit_eq_iff)
qed

lemma inj_crc_bits: "inj (crc_bit ^^ n)"
  by (rule inj_fn [OF inj_crc_bit])

section \<open>The table-driven step is the bit-serial step\<close>

lemma table_nth: "n < 256 \<Longrightarrow> Init_CRC32_Table ! n = table_entry (of_nat n)"
  by (simp add: Init_CRC32_Table_def)

lemma crc_step_eq: "crc_step Init_CRC32_Table crc b = crc_byte crc b"
proof -
  let ?idx = "(crc AND 0xFF) XOR (ucast b :: u32)"
  let ?hi = "crc AND NOT 0xFF"
  have mask: "(0xFF :: u32) = mask 8" by (simp add: mask_eq_exp_minus_1)
  have low: "k < 8" if "bit ?idx k" for k
    using that unfolding mask by (auto simp: bit_simps dest: bit_imp_le_length)
  have hi: "\<not> bit ?hi k" if "k < 8" for k
    using that unfolding mask by (auto simp: bit_simps)
  have split: "crc XOR ucast b = ?idx XOR ?hi"
    by (rule bit_eqI) (auto simp: bit_simps)
  have "unat ?idx < 2 ^ 8"
    by (rule unat_less_bits) (rule low)
  then have "unat ?idx < 256" by simp
  then have "Init_CRC32_Table ! unat ?idx = (crc_bit ^^ 8) ?idx"
    by (simp only: table_nth of_nat_unat ucast_id) (rule table_entry_eq, rule low)
  moreover have "drop_bit 8 crc = (crc_bit ^^ 8) ?hi"
  proof -
    have "(crc_bit ^^ 8) ?hi = drop_bit 8 ?hi" by (rule crc_bits_drop) (rule hi)
    also have "\<dots> = drop_bit 8 crc"
      unfolding mask by (rule bit_eqI) (auto simp: bit_simps dest: bit_imp_le_length)
    finally show ?thesis ..
  qed
  ultimately show ?thesis
    unfolding crc_step_def crc_byte_def split crc_bits_xor by (simp only: xor.commute)
qed

lemma Get_CRC_loop_eq:
  "Get_CRC_loop Init_CRC32_Table buffer n crc =
     (if n \<le> length buffer then Some (foldl crc_byte crc (take n buffer)) else None)"
  by (induction Init_CRC32_Table buffer n crc rule: Get_CRC_loop.induct)
    (simp_all add: crc_step_eq)

lemma Get_CRC_eq:
  assumes "n < 2 ^ 31"
  shows "Get_CRC buffer (of_nat n) =
    (if n \<le> length buffer then Some (crc32_spec (take n buffer)) else None)"
proof -
  have "sint (of_nat n :: u32) = int n"
    using assms by (simp add: signed_of_nat signed_take_bit_int_eq_self)
  then show ?thesis
    by (simp add: Get_CRC_def Get_CRC_loop_eq crc32_spec_def)
qed

section \<open>Detection\<close>

lemma inj_crc_byte: "inj (\<lambda>c. crc_byte c b)"
proof (rule injI)
  fix x y
  assume "crc_byte x b = crc_byte y b"
  then have "x XOR ucast b = y XOR ucast b"
    unfolding crc_byte_def by (rule injD [OF inj_crc_bits])
  then show "x = y" by (simp add: xor_right_cancel)
qed

lemma inj_foldl_crc: "inj (\<lambda>c. foldl crc_byte c bs)"
proof (induction bs)
  case Nil
  then show ?case by (simp add: inj_on_def)
next
  case (Cons b bs)
  show ?case
  proof (rule injI)
    fix x y
    assume "foldl crc_byte x (b # bs) = foldl crc_byte y (b # bs)"
    then have "crc_byte x b = crc_byte y b" by (auto dest: injD [OF Cons.IH])
    then show "x = y" by (rule injD [OF inj_crc_byte])
  qed
qed

text \<open>Up to four bytes enter the register as one word.\<close>

lemma foldl_crc_window:
  "length bs \<le> 4 \<Longrightarrow> foldl crc_byte c bs = (crc_bit ^^ (8 * length bs)) (c XOR ld_le bs)"
proof (induction bs arbitrary: c)
  case Nil
  then show ?case by simp
next
  case (Cons b bs)
  let ?w = "ld_le bs :: u32"
  have small: "\<not> bit ?w k" if "24 \<le> k" for k
    using that Cons.prems by (auto simp: bit_ld_le)
  have "(crc_bit ^^ 8) (push_bit 8 ?w) = drop_bit 8 (push_bit 8 ?w)"
    by (rule crc_bits_drop) (simp add: bit_push_bit_iff)
  also have "\<dots> = ?w"
    using small by (intro bit_eqI) (auto simp: bit_simps possible_bit_word simp flip: not_le)
  finally have w: "(crc_bit ^^ 8) (push_bit 8 ?w) = ?w" .
  have cons: "(ld_le (b # bs) :: u32) = ucast b XOR push_bit 8 ?w"
    by (rule bit_eqI) (auto simp: bit_simps dest: bit_imp_le_length)
  have "foldl crc_byte c (b # bs) = (crc_bit ^^ (8 * length bs)) (crc_byte c b XOR ?w)"
    using Cons by simp
  also have "crc_byte c b XOR ?w = (crc_bit ^^ 8) (c XOR ld_le (b # bs))"
  proof -
    have "crc_byte c b XOR ?w = crc_byte c b XOR (crc_bit ^^ 8) (push_bit 8 ?w)"
      by (simp only: w)
    then show ?thesis
      by (simp only: crc_byte_def cons crc_bits_xor [symmetric] xor.assoc)
  qed
  also have "(crc_bit ^^ (8 * length bs)) \<dots> = (crc_bit ^^ (8 * length (b # bs))) (c XOR ld_le (b # bs))"
  proof -
    have "8 * length (b # bs) = 8 * length bs + 8" by simp
    then show ?thesis by (simp only: funpow_add comp_apply)
  qed
  finally show ?case .
qed

lemma crc32_window_neq:
  assumes "length w = length w'" "length w \<le> 4" "w \<noteq> w'"
  shows "crc32_spec (pre @ w @ post) \<noteq> crc32_spec (pre @ w' @ post)"
proof
  assume "crc32_spec (pre @ w @ post) = crc32_spec (pre @ w' @ post)"
  then have "foldl crc_byte (foldl crc_byte (foldl crc_byte 0xffffffff pre) w) post =
             foldl crc_byte (foldl crc_byte (foldl crc_byte 0xffffffff pre) w') post"
    by (simp add: crc32_spec_def xor_right_cancel)
  then have "foldl crc_byte (foldl crc_byte 0xffffffff pre) w =
             foldl crc_byte (foldl crc_byte 0xffffffff pre) w'"
    by (rule injD [OF inj_foldl_crc])
  then have "foldl crc_byte 0xffffffff pre XOR (ld_le w :: u32) =
             foldl crc_byte 0xffffffff pre XOR ld_le w'"
    using assms by (simp add: foldl_crc_window) (auto dest: injD [OF inj_crc_bits])
  then have "(ld_le w :: u32) = ld_le w'"
    using xor_right_cancel by (simp add: xor.commute)
  then have "w = w'" using assms by (auto intro: ld_le_inject [where 'a = 32])
  with \<open>w \<noteq> w'\<close> show False ..
qed

interpretation crc32: checksum crc32_spec
  by unfold_locales (rule crc32_window_neq)

section \<open>Properties\<close>

text \<open>C18. The table driven code computes the CRC-32 of the standard, one bit at a time with the reflected
  polynomial, for every buffer and every size an \<open>int\<close> can hold; it reads exactly the bytes of that
  size, and faults exactly if the buffer has fewer.\<close>

theorem crc_matches_reference:
  assumes "n < 2 ^ 31"
  shows "Get_CRC buffer (of_nat n) = (if n \<le> length buffer then Some (crc32_spec (take n buffer)) else None)"
  using assms by (rule Get_CRC_eq)

lemma crc_byte_unrolled:
  "crc_byte c b = crc_bit (crc_bit (crc_bit (crc_bit (crc_bit (crc_bit (crc_bit (crc_bit (c XOR ucast b))))))))"
  by (simp add: crc_byte_def eval_nat_numeral)

text \<open>The check value of the standard, for the text 123456789.\<close>

theorem crc_matches_reference_witness:
  "Get_CRC [0x31, 0x32, 0x33, 0x34, 0x35, 0x36, 0x37, 0x38, 0x39, 0] 9 = Some 0xCBF43926"
proof -
  have "crc32_spec [0x31, 0x32, 0x33, 0x34, 0x35, 0x36, 0x37, 0x38, 0x39] = 0xCBF43926"
    by (simp add: crc32_spec_def crc_byte_unrolled crc_bit_def)
  with crc_matches_reference [of 9 "[0x31, 0x32, 0x33, 0x34, 0x35, 0x36, 0x37, 0x38, 0x39, 0]"]
  show ?thesis by simp
qed

end
