(* ===== verification/Logic.thy ===== *)
theory Logic
  imports Crc32 Send
begin

text \<open>
  The business layer \<open>CSocketLogic\<close> (\<open>socketlogic/c_socketlogic.cxx\<close>): \<open>ThreadRecvProc\<close> checks a
  received message, selects a handler by message code, and the handlers queue their replies. A
  message is an array laid out as message header, packet header, body, one zero byte.
\<close>

section \<open>Commands\<close>

definition CMD_PING :: u16 where "CMD_PING = 0 + 1"
definition CMD_REGISTER :: u16 where "CMD_REGISTER = 0 + 5"
definition CMD_LOGIN :: u16 where "CMD_LOGIN = 0 + 6"

datatype logic_handler = HandlePing | HandleRegister | HandleLogin

definition status_handleset :: "logic_handler option list" where
  "status_handleset = [Some HandlePing, None, None, None, None, Some HandleRegister, Some HandleLogin]"

section \<open>Replies\<close>

text \<open>\<open>ntohs(lp_pkgheader->pkgLen) - PKG_HEADER_LEN != len\<close>, computed in \<open>size_t\<close>.\<close>

definition body_length_is :: "pkg_header \<Rightarrow> nat \<Rightarrow> bool" where
  "body_length_is h len \<longleftrightarrow> (ucast (ntohs (pkgLen h)) :: size_t) - of_nat PKG_HEADER_LEN = of_nat len"

text \<open>The reply array: the message header of the request, a packet header, a zeroed body, one zero.\<close>

definition reply_message :: "byte list \<Rightarrow> u16 \<Rightarrow> nat \<Rightarrow> u32 \<Rightarrow> byte list" where
  "reply_message msgheader code sendinfo_len crc =
     take MSG_HEADER_LEN msgheader @
     enc_pkg_header \<lparr>pkgLen = htons (of_nat (PKG_HEADER_LEN + sendinfo_len)), msgCode = htons code,
                     crc32 = htonl crc\<rparr> @
     replicate (sendinfo_len + 1) 0"

text \<open>The common tail of \<open>_HandleRegister\<close> and \<open>_HandleLogin\<close>: build the reply, record its length in
  the connection, compute the checksum of the zeroed body, queue.\<close>

definition queue_info_reply :: "addr \<Rightarrow> byte list \<Rightarrow> u16 \<Rightarrow> nat \<Rightarrow> csocket \<Rightarrow> fault + (bool \<times> csocket)" where
  "queue_info_reply a msg code sendinfo_len s =
     (case Get_CRC (replicate (sendinfo_len + 1) 0) (of_nat sendinfo_len) of
        None \<Rightarrow> Inl BadAccess
      | Some crc \<Rightarrow> bindE (MsgSendInQueue (reply_message msg code sendinfo_len crc)
            (upd_conn a (\<lambda>c. c\<lparr>sendlen_suppose := PKG_HEADER_LEN + sendinfo_len\<rparr>) s))
            (\<lambda>s. Inr (True, s)))"

section \<open>Handlers\<close>

definition handle_register :: "addr \<Rightarrow> byte list \<Rightarrow> csocket \<Rightarrow> fault + (bool \<times> csocket)" where
  "handle_register a msg s =
     (if \<not> body_length_is (pkg_head msg) LEN_STRUCT_REGISTER then Inr (False, s)
      else if \<not> judge_token (conns s a) (msg_cursequence (msg_head msg)) then Inr (False, s)
      else if \<not> judge_token (conns s a) (msg_cursequence (msg_head msg)) then Inr (False, s)
      else queue_info_reply a msg CMD_REGISTER LEN_STRUCT_REGISTER s)"

definition handle_login :: "addr \<Rightarrow> byte list \<Rightarrow> csocket \<Rightarrow> fault + (bool \<times> csocket)" where
  "handle_login a msg s =
     (if \<not> body_length_is (pkg_head msg) LEN_STRUCT_LOGIN then Inr (False, s)
      else if \<not> judge_token (conns s a) (msg_cursequence (msg_head msg)) then Inr (False, s)
      else if \<not> judge_token (conns s a) (msg_cursequence (msg_head msg)) then Inr (False, s)
      else queue_info_reply a msg CMD_LOGIN LEN_STRUCT_LOGIN s)"

definition handle_ping :: "int \<Rightarrow> addr \<Rightarrow> byte list \<Rightarrow> csocket \<Rightarrow> fault + (bool \<times> csocket)" where
  "handle_ping now a msg s =
     (if \<not> body_length_is (pkg_head msg) LEN_STRUCT_PING then Inr (False, s)
      else bindE (MsgSendInQueue (reply_message msg CMD_PING 0 0)
             (upd_conn a (\<lambda>c. c\<lparr>ping_update_time := now, sendlen_suppose := PKG_HEADER_LEN\<rparr>) s))
           (\<lambda>s. Inr (True, s)))"

definition run_handler ::
  "int \<Rightarrow> logic_handler \<Rightarrow> addr \<Rightarrow> byte list \<Rightarrow> csocket \<Rightarrow> fault + (bool \<times> csocket)" where
  "run_handler now h = (case h of
      HandlePing \<Rightarrow> handle_ping now
    | HandleRegister \<Rightarrow> handle_register
    | HandleLogin \<Rightarrow> handle_login)"

section \<open>The dispatcher\<close>

text \<open>An array shorter than the two headers cannot be read.\<close>

definition ThreadRecvProc :: "int \<Rightarrow> byte list \<Rightarrow> csocket \<Rightarrow> fault + (int \<times> csocket)" where
  "ThreadRecvProc now msg s =
     (if length msg < MSG_HEADER_LEN + PKG_HEADER_LEN then Inl BadAccess
      else
        let pkg = pkg_head msg;
            body = drop (MSG_HEADER_LEN + PKG_HEADER_LEN) msg;
            pkg_len = ntohs (pkgLen pkg);
            body_len = pkg_len - of_nat PKG_HEADER_LEN;
            cur_crc = ntohl (crc32 pkg);
            a = lp_curconn (msg_head msg);
            dispatch =
              (let imsgcode = unat (ntohs (msgCode pkg)) in
               if imsgcode \<ge> length status_handleset then Inr (-1, s)
               else case status_handleset ! imsgcode of
                   None \<Rightarrow> Inr (-1, s)
                 | Some h \<Rightarrow> bindE (run_handler now h a msg s)
                     (\<lambda>(ok, s). Inr (if ok then 0 else -1, s)))
        in if \<not> judge_token (conns s a) (msg_cursequence (msg_head msg)) then Inr (-1, s)
           else if body_len = 0 then
             (if crc32 pkg \<noteq> 0 then Inr (-1, s) else dispatch)
           else case Get_CRC body (ucast body_len) of
               None \<Rightarrow> Inl BadAccess
             | Some calccrc \<Rightarrow> if calccrc \<noteq> cur_crc then Inr (-1, s) else dispatch)"

section \<open>What the business layer promises\<close>

text \<open>The packet level view: which request a packet is, and the packet that answers it.\<close>

definition pkg_code :: "byte list \<Rightarrow> u16" where
  "pkg_code p = ntohs (msgCode (dec_pkg_header p))"

definition crc_ok :: "byte list \<Rightarrow> bool" where
  "crc_ok p \<longleftrightarrow> (if length p = PKG_HEADER_LEN then crc32 (dec_pkg_header p) = 0
     else ntohl (crc32 (dec_pkg_header p)) = crc32_spec (drop PKG_HEADER_LEN p))"

definition request_of :: "byte list \<Rightarrow> logic_handler option" where
  "request_of p =
     (if \<not> crc_ok p then None
      else if pkg_code p = 0 \<and> length p = PKG_HEADER_LEN + LEN_STRUCT_PING then Some HandlePing
      else if pkg_code p = CMD_REGISTER \<and> length p = PKG_HEADER_LEN + LEN_STRUCT_REGISTER then Some HandleRegister
      else if pkg_code p = CMD_LOGIN \<and> length p = PKG_HEADER_LEN + LEN_STRUCT_LOGIN then Some HandleLogin
      else None)"

fun reply_code :: "logic_handler \<Rightarrow> u16" where
  "reply_code HandlePing = CMD_PING"
| "reply_code HandleRegister = CMD_REGISTER"
| "reply_code HandleLogin = CMD_LOGIN"

fun reply_len :: "logic_handler \<Rightarrow> nat" where
  "reply_len HandlePing = LEN_STRUCT_PING"
| "reply_len HandleRegister = LEN_STRUCT_REGISTER"
| "reply_len HandleLogin = LEN_STRUCT_LOGIN"

definition reply_packet :: "logic_handler \<Rightarrow> byte list" where
  "reply_packet h = enc_pkg_header \<lparr>pkgLen = htons (of_nat (PKG_HEADER_LEN + reply_len h)),
      msgCode = htons (reply_code h),
      crc32 = htonl (if reply_len h = 0 then 0 else crc32_spec (replicate (reply_len h) 0))\<rparr> @
    replicate (reply_len h) 0"

definition serve :: "int \<Rightarrow> logic_handler \<Rightarrow> connection \<Rightarrow> connection" where
  "serve now h c = (let c = c\<lparr>sendlen_suppose := PKG_HEADER_LEN + reply_len h\<rparr> in
     if h = HandlePing then c\<lparr>ping_update_time := now\<rparr> else c)"

section \<open>The dispatcher keeps the promise\<close>

lemma msg_head_message_of [simp]: "msg_head (message_of a sq p) = \<lparr>lp_curconn = a, msg_cursequence = sq\<rparr>"
  by (simp add: msg_head_def message_of_def)

lemma drop_message_of: "drop MSG_HEADER_LEN (message_of a sq p) = p @ [0]"
  by (simp add: message_of_def)

lemma pkg_head_message_of [simp]:
  assumes "PKG_HEADER_LEN \<le> length p"
  shows "pkg_head (message_of a sq p) = dec_pkg_header p"
proof -
  obtain h r where p: "p = h @ r" "length h = PKG_HEADER_LEN"
    using assms by (metis append_take_drop_id length_take min_absorb2)
  show ?thesis by (simp add: pkg_head_def drop_message_of p)
qed

lemma ucast_of_nat_small: "n < 2 ^ 16 \<Longrightarrow> (ucast (of_nat n :: u16) :: u32) = of_nat n"
  by (simp add: unsigned_of_nat take_bit_nat_eq_self)

lemma valid_packet_len:
  assumes "valid_packet p"
  shows "ntohs (pkgLen (dec_pkg_header p)) = of_nat (length p)" "length p \<le> 29000" "8 \<le> length p"
proof -
  have "unat (ntohs (pkgLen (dec_pkg_header p))) = length p"
    using assms by (simp add: valid_packet_def stream_pkg_size_def)
  then show "ntohs (pkgLen (dec_pkg_header p)) = of_nat (length p)" by (metis of_nat_unat ucast_id)
  show "length p \<le> 29000" "8 \<le> length p"
    using assms by (simp_all add: valid_packet_def valid_size_def len_defs)
qed

lemma body_length_is_iff:
  assumes "valid_packet p"
  shows "body_length_is (dec_pkg_header p) len \<longleftrightarrow> (of_nat (length p - PKG_HEADER_LEN) :: size_t) = of_nat len"
proof -
  have "ucast (of_nat (length p) :: u16) = (of_nat (length p) :: size_t)"
    using valid_packet_len(2) [OF assms] by (simp add: unsigned_of_nat take_bit_nat_eq_self)
  moreover have "(of_nat (length p) :: size_t) - of_nat PKG_HEADER_LEN = of_nat (length p - PKG_HEADER_LEN)"
    using valid_packet_len(3) [OF assms] by (simp add: of_nat_diff PKG_HEADER_LEN_def)
  ultimately show ?thesis by (simp add: body_length_is_def valid_packet_len(1) [OF assms])
qed

lemma of_nat_size_inj:
  assumes bounds: "m < 2 ^ 64" "n < 2 ^ 64"
  shows "(of_nat m :: size_t) = of_nat n \<longleftrightarrow> m = n"
proof
  assume eq: "(of_nat m :: size_t) = of_nat n"
  from arg_cong [OF eq, of unat] bounds show "m = n"
    by (simp add: unsigned_of_nat take_bit_nat_eq_self)
qed simp

lemma body_length_exact:
  assumes "valid_packet p" "len < 2 ^ 64"
  shows "body_length_is (dec_pkg_header p) len \<longleftrightarrow> length p = PKG_HEADER_LEN + len"
proof -
  have len: "8 \<le> length p" "length p - PKG_HEADER_LEN < 2 ^ 64"
    using valid_packet_len [OF assms(1)] by (simp_all add: PKG_HEADER_LEN_def)
  then show ?thesis
    unfolding body_length_is_iff [OF assms(1)] of_nat_size_inj [OF len(2) assms(2)]
    by (auto simp: PKG_HEADER_LEN_def)
qed

lemma Get_CRC_prefix:
  "n < 2 ^ 31 \<Longrightarrow> n \<le> length buf \<Longrightarrow> Get_CRC buf (of_nat n) = Some (crc32_spec (take n buf))"
  by (simp add: Get_CRC_eq)

lemma valid_packet_body_len:
  assumes "valid_packet p"
  shows "ntohs (pkgLen (dec_pkg_header p)) - of_nat PKG_HEADER_LEN = (of_nat (length p - PKG_HEADER_LEN) :: u16)"
    "(of_nat (length p - PKG_HEADER_LEN) :: u16) = 0 \<longleftrightarrow> length p = PKG_HEADER_LEN"
    "(ucast (of_nat (length p - PKG_HEADER_LEN) :: u16) :: u32) = of_nat (length p - PKG_HEADER_LEN)"
proof -
  note len = valid_packet_len [OF assms]
  show "ntohs (pkgLen (dec_pkg_header p)) - of_nat PKG_HEADER_LEN = (of_nat (length p - PKG_HEADER_LEN) :: u16)"
    using len by (simp add: of_nat_diff PKG_HEADER_LEN_def)
  show "(of_nat (length p - PKG_HEADER_LEN) :: u16) = 0 \<longleftrightarrow> length p = PKG_HEADER_LEN"
    unfolding word_of_nat_eq_0_iff using len(2,3) by (auto simp: PKG_HEADER_LEN_def dest: dvd_imp_le)
  show "(ucast (of_nat (length p - PKG_HEADER_LEN) :: u16) :: u32) = of_nat (length p - PKG_HEADER_LEN)"
    by (rule ucast_of_nat_small) (use len(2) in simp)
qed

lemma reply_message_eq:
  "reply_message (message_of a sq p) (reply_code h) (reply_len h)
      (if reply_len h = 0 then 0 else crc32_spec (replicate (reply_len h) 0)) =
   message_of a sq (reply_packet h)"
  by (simp add: reply_message_def reply_packet_def message_of_def replicate_append_same)

lemma queue_info_reply_eq:
  assumes "h \<noteq> HandlePing"
  shows "queue_info_reply a (message_of b sq p) (reply_code h) (reply_len h) s =
    bindE (MsgSendInQueue (message_of b sq (reply_packet h)) (upd_conn a (serve now h) s)) (\<lambda>s. Inr (True, s))"
proof -
  have n: "0 < reply_len h" "reply_len h < 2 ^ 31" using assms by (cases h; simp add: len_defs)+
  then have crc: "Get_CRC (replicate (reply_len h + 1) 0) (of_nat (reply_len h)) =
      Some (crc32_spec (replicate (reply_len h) 0))"
    by (subst Get_CRC_prefix) (simp_all add: take_replicate del: replicate_Suc)
  have "serve now h = (\<lambda>c. c\<lparr>sendlen_suppose := PKG_HEADER_LEN + reply_len h\<rparr>)"
    using assms by (intro ext) (simp add: serve_def)
  with crc reply_message_eq [of b sq p h] n show ?thesis
    by (simp add: queue_info_reply_def)
qed

lemma run_handler_eq:
  assumes valid: "valid_packet p" and tok: "judge_token (conns s a) sq"
  shows "run_handler now h a (message_of a sq p) s =
    (if length p = PKG_HEADER_LEN + reply_len h
     then bindE (MsgSendInQueue (message_of a sq (reply_packet h)) (upd_conn a (serve now h) s)) (\<lambda>s. Inr (True, s))
     else Inr (False, s))"
proof -
  have head: "pkg_head (message_of a sq p) = dec_pkg_header p"
    using valid by (simp add: valid_packet_def)
  note len = body_length_exact [OF valid]
  show ?thesis
  proof (cases h)
    case HandlePing
    have "serve now HandlePing = (\<lambda>c. c\<lparr>ping_update_time := now, sendlen_suppose := PKG_HEADER_LEN\<rparr>)"
      by (rule ext) (simp add: serve_def LEN_STRUCT_PING_def)
    with HandlePing reply_message_eq [of a sq p HandlePing] show ?thesis
      by (simp add: run_handler_def handle_ping_def head len LEN_STRUCT_PING_def)
  next
    case HandleRegister
    with queue_info_reply_eq [of h a a sq p s now] tok show ?thesis
      by (simp add: run_handler_def handle_register_def head len LEN_STRUCT_REGISTER_def)
  next
    case HandleLogin
    with queue_info_reply_eq [of h a a sq p s now] tok show ?thesis
      by (simp add: run_handler_def handle_login_def head len LEN_STRUCT_LOGIN_def)
  qed
qed

text \<open>The code of a request selects its handler.\<close>

lemma unat_u16_eq: "n < 2 ^ 16 \<Longrightarrow> unat (w :: u16) = n \<longleftrightarrow> w = of_nat n"
  by (metis of_nat_unat ucast_id unat_of_nat_small)

lemma status_handleset_nth:
  "(if unat c \<ge> length status_handleset then None else status_handleset ! unat c) =
     (if c = 0 then Some HandlePing else if c = CMD_REGISTER then Some HandleRegister
      else if c = CMD_LOGIN then Some HandleLogin else None)"
proof -
  consider "unat c \<ge> 7" | "unat c = 0" | "unat c = 1" | "unat c = 2" | "unat c = 3" | "unat c = 4"
    | "unat c = 5" | "unat c = 6"
    by linarith
  then show ?thesis
    by cases (auto simp: status_handleset_def CMD_REGISTER_def CMD_LOGIN_def unat_u16_eq)
qed

text \<open>The messages the receiver hands over: a packet behind a message header.\<close>

definition framed :: "byte list \<Rightarrow> bool" where
  "framed m \<longleftrightarrow> (\<exists>a sq p. m = message_of a sq p \<and> valid_packet p)"

lemma ThreadRecvProc_eq:
  assumes valid: "valid_packet p"
  shows "ThreadRecvProc now (message_of a sq p) s =
    (if \<not> judge_token (conns s a) sq then Inr (-1, s)
     else case request_of p of None \<Rightarrow> Inr (-1, s)
       | Some h \<Rightarrow> bindE (MsgSendInQueue (message_of a sq (reply_packet h)) (upd_conn a (serve now h) s))
                    (\<lambda>s. Inr (0, s)))"
proof (cases "judge_token (conns s a) sq")
  case False
  have "MSG_HEADER_LEN + PKG_HEADER_LEN \<le> length (message_of a sq p)"
    using valid by (simp add: message_of_def valid_packet_def)
  with False show ?thesis by (simp add: ThreadRecvProc_def Let_def)
next
  case tok: True
  let ?dispatch = "let imsgcode = unat (pkg_code p) in
      if imsgcode \<ge> length status_handleset then Inr (-1, s)
      else case status_handleset ! imsgcode of
          None \<Rightarrow> Inr (-1, s)
        | Some h \<Rightarrow> bindE (run_handler now h a (message_of a sq p) s)
            (\<lambda>(ok, s). Inr (if ok then 0 else -1, s))"
  have long: "MSG_HEADER_LEN + PKG_HEADER_LEN \<le> length (message_of a sq p)" "PKG_HEADER_LEN \<le> length p"
    using valid by (simp_all add: message_of_def valid_packet_def)
  have body: "drop (MSG_HEADER_LEN + PKG_HEADER_LEN) (message_of a sq p) = drop PKG_HEADER_LEN p @ [0]"
    using arg_cong [OF drop_message_of [of a sq p], of "drop PKG_HEADER_LEN"] long(2)
    by (simp add: add.commute)
  have crc: "Get_CRC (drop PKG_HEADER_LEN p @ [0]) (of_nat (length p - PKG_HEADER_LEN)) =
      Some (crc32_spec (drop PKG_HEADER_LEN p))"
    using valid_packet_len [OF valid] by (subst Get_CRC_prefix) simp_all
  have "ThreadRecvProc now (message_of a sq p) s = (if crc_ok p then ?dispatch else Inr (-1, s))"
    using tok long valid_packet_body_len [OF valid] crc body
    by (auto simp: ThreadRecvProc_def crc_ok_def pkg_code_def Let_def)
  also have "?dispatch = (case (if unat (pkg_code p) \<ge> length status_handleset then None
          else status_handleset ! unat (pkg_code p)) of None \<Rightarrow> Inr (-1, s)
        | Some h \<Rightarrow> bindE (run_handler now h a (message_of a sq p) s)
            (\<lambda>(ok, s). Inr (if ok then 0 else -1, s)))"
    by (simp add: Let_def)
  finally show ?thesis
    unfolding status_handleset_nth run_handler_eq [where ?s = s, OF valid tok]
    using tok by (auto simp: request_of_def bindE_def CMD_REGISTER_def CMD_LOGIN_def split: sum.splits)
qed

section \<open>Facts about the replies\<close>

lemma reply_len_small: "PKG_HEADER_LEN + reply_len h \<le> 108"
  by (cases h) (simp_all add: len_defs)

lemma length_reply_packet [simp]: "length (reply_packet h) = PKG_HEADER_LEN + reply_len h"
  by (simp add: reply_packet_def)

lemma reply_packet_valid: "valid_packet (reply_packet h)"
proof -
  have "valid_size (PKG_HEADER_LEN + reply_len h)"
    using reply_len_small [of h] by (simp add: valid_size_def len_defs)
  then show ?thesis
    unfolding reply_packet_def using build_packet_valid [of "replicate (reply_len h) 0"] by simp
qed

lemma reply_packet_head [simp]:
  "dec_pkg_header (reply_packet h) = \<lparr>pkgLen = htons (of_nat (PKG_HEADER_LEN + reply_len h)),
      msgCode = htons (reply_code h),
      crc32 = htonl (if reply_len h = 0 then 0 else crc32_spec (replicate (reply_len h) 0))\<rparr>"
  by (simp add: reply_packet_def)

lemma drop_reply_packet: "drop PKG_HEADER_LEN (reply_packet h) = replicate (reply_len h) 0"
  by (simp add: reply_packet_def)

lemma reply_crc_ok: "crc_ok (reply_packet h)"
  by (simp add: crc_ok_def drop_reply_packet)

lemma reply_pkg_code: "pkg_code (reply_packet h) = reply_code h"
  by (simp add: pkg_code_def)

lemma reply_request:
  "request_of (reply_packet HandleRegister) = Some HandleRegister"
  "request_of (reply_packet HandleLogin) = Some HandleLogin"
  by (simp_all add: request_of_def reply_crc_ok reply_pkg_code CMD_REGISTER_def CMD_LOGIN_def)

lemma reply_wf_msg: "wf_msg (message_of a sq (reply_packet h))"
proof -
  have "unat (of_nat (PKG_HEADER_LEN + reply_len h) :: u16) = PKG_HEADER_LEN + reply_len h"
    by (rule unat_of_nat_small) (use reply_len_small [of h] in simp)
  then have "unat (ntohs (pkgLen (pkg_head (message_of a sq (reply_packet h))))) = PKG_HEADER_LEN + reply_len h"
    by (simp only: pkg_head_message_of length_reply_packet le_add1 reply_packet_head
        pkg_header.select_convs ntohs_htons)
  then show ?thesis
    by (simp only: wf_msg_def) (simp add: message_of_def PKG_HEADER_LEN_def)
qed

section \<open>Properties\<close>

definition logic_example :: csocket where
  "logic_example = CSocket_new ((\<lambda>_. zero_connection)(1 := zero_connection\<lparr>fd := 7, sequence := 1\<rparr>))"

lemma logic_example_token: "judge_token (conns logic_example 1) 1"
  by (simp add: logic_example_def CSocket_new_def judge_token_exact zero_connection_def)

lemma logic_example_queue:
  "m_send_msgList logic_example = []" "m_sendmutex logic_example = False" "m_msgtosend_count logic_example = 0"
  "isend_count (conns logic_example 1) = 0"
  by (simp_all add: logic_example_def CSocket_new_def zero_connection_def)

text \<open>C9. The dispatcher implements the packet level contract on every message the receiver can
  queue: a message of an earlier life of the connection, a packet with a wrong checksum, an unknown
  code or a wrong length is refused and changes nothing; every other packet is one of the three
  requests, and its outcome is exactly the queueing of the reply packet for it, with the
  connection's bookkeeping updated. No other outcome, and no bad access, is possible.\<close>

theorem ThreadRecvProc_refines:
  assumes "valid_packet p"
  shows "ThreadRecvProc now (message_of a sq p) s =
    (if \<not> judge_token (conns s a) sq then Inr (-1, s)
     else case request_of p of None \<Rightarrow> Inr (-1, s)
       | Some h \<Rightarrow> bindE (MsgSendInQueue (message_of a sq (reply_packet h)) (upd_conn a (serve now h) s))
                    (\<lambda>s. Inr (0, s)))"
  using assms by (rule ThreadRecvProc_eq)

theorem ThreadRecvProc_refines_witness:
  "\<exists>s'. ThreadRecvProc 50 (message_of 1 1 (reply_packet HandleRegister)) logic_example = Inr (0, s') \<and>
     m_send_msgList s' = [message_of 1 1 (reply_packet HandleRegister)]"
  using ThreadRecvProc_refines [OF reply_packet_valid [of HandleRegister], of 50 1 1 logic_example]
  by (simp add: logic_example_token logic_example_queue reply_request MsgSendInQueue_eq serve_def)

text \<open>Every reply the server builds is a valid packet of the protocol that passes the server's own
  checksum test, carries the code and length of its kind, and fits its array.\<close>

theorem reply_verifies:
  "valid_packet (reply_packet h) \<and> crc_ok (reply_packet h) \<and> pkg_code (reply_packet h) = reply_code h \<and>
   length (reply_packet h) = PKG_HEADER_LEN + reply_len h \<and> wf_msg (message_of a sq (reply_packet h))"
  by (simp add: reply_packet_valid reply_crc_ok reply_pkg_code reply_wf_msg)

text \<open>C20. If a packet passes the checksum test, then a packet whose body differs from it in up to four
  neighbouring bytes is refused, and the refusal changes nothing.\<close>

theorem tampered_packet_refused:
  assumes "length hdr = PKG_HEADER_LEN" "valid_packet (hdr @ pre @ w @ post)" "crc_ok (hdr @ pre @ w @ post)"
    and "length w' = length w" "length w \<le> 4" "w' \<noteq> w"
  shows "ThreadRecvProc now (message_of a sq (hdr @ pre @ w' @ post)) s = Inr (-1, s)"
proof -
  have hd: "dec_pkg_header (hdr @ pre @ w' @ post) = dec_pkg_header (hdr @ pre @ w @ post)"
    using assms(1) by simp
  have valid: "valid_packet (hdr @ pre @ w' @ post)"
    using assms(2,4) hd by (simp add: valid_packet_def stream_pkg_size_def)
  have ne: "w \<noteq> []" using assms(4,6) by auto
  then have "ntohl (crc32 (dec_pkg_header hdr)) = crc32_spec (pre @ w @ post)"
    using assms(1,3) by (simp add: crc_ok_def)
  from crc32.tampered [OF this [symmetric], of w'] assms(4-6)
  have "crc32_spec (pre @ w' @ post) \<noteq> ntohl (crc32 (dec_pkg_header hdr))" by metis
  then have "\<not> crc_ok (hdr @ pre @ w' @ post)"
    using assms(1,4) ne by (auto simp: crc_ok_def)
  then show ?thesis by (simp add: ThreadRecvProc_eq [OF valid] request_of_def)
qed

theorem tampered_packet_refused_witness:
  "ThreadRecvProc 50 (message_of 1 1 (take 8 (reply_packet HandleRegister) @ replicate 50 0 @ [1] @
     replicate 49 0)) logic_example = Inr (-1, logic_example)"
proof -
  have eq: "take 8 (reply_packet HandleRegister) @ replicate 50 0 @ [0] @ replicate 49 0 = reply_packet HandleRegister"
  proof -
    have "replicate 50 0 @ [0] @ replicate 49 0 = replicate 100 (0 :: byte)"
      by (simp flip: replicate_add replicate_Suc add: replicate_app_Cons_same)
    then show ?thesis by (simp add: reply_packet_def LEN_STRUCT_REGISTER_def PKG_HEADER_LEN_def)
  qed
  show ?thesis
    using tampered_packet_refused [of "take 8 (reply_packet HandleRegister)" "replicate 50 0" "[0]" "replicate 49 0"
        "[1]" 50 1 1 logic_example]
    by (simp only: eq) (simp add: reply_packet_valid reply_crc_ok PKG_HEADER_LEN_def)
qed

text \<open>A packet with the heartbeat code of the protocol (\<open>_CMD_PING\<close>, value 1) is refused and leaves
  the connection's heartbeat time alone: the handler table has its entry at position 0.\<close>

theorem heartbeat_code_refused:
  assumes "valid_packet p" "pkg_code p = CMD_PING"
  shows "ThreadRecvProc now (message_of a sq p) s = Inr (-1, s)"
  using assms
  by (simp add: ThreadRecvProc_eq request_of_def CMD_PING_def CMD_REGISTER_def CMD_LOGIN_def)

theorem heartbeat_code_refused_witness:
  "ThreadRecvProc 50 (message_of 1 1 (reply_packet HandlePing)) logic_example = Inr (-1, logic_example)"
  using heartbeat_code_refused [OF reply_packet_valid, of HandlePing 50 1 1 logic_example]
  by (simp add: reply_pkg_code)

end
