(* ===== verification/Workers.thy ===== *)
theory Workers
  imports Online Logic
begin

text \<open>
  The worker process as a whole: its start-up, and the steps its threads take on the shared state --
  an event of the epoll loop, a pass of the timer thread, a visit of the recycling thread, a round
  of the send thread, and a worker of the thread pool that takes or processes a message. The
  invariants of the pool and of the timer hold in every state these steps reach.
\<close>

section \<open>The steps\<close>

text \<open>A worker of the pool processes the message it holds: the whole of \<open>ThreadRecvProc\<close> and what follows it up to
  the next turn of the loop, taken as one step. The code holds no mutex over all of it.\<close>

definition ThreadFunc_process :: "int \<Rightarrow> nat \<Rightarrow> world \<Rightarrow> fault + world" where
  "ThreadFunc_process now i w =
     (let t = m_threadvec (g_threadpool w) ! i in
      case msg_held t of
        None \<Rightarrow> Inr w
      | Some m \<Rightarrow> bindE (ThreadRecvProc now m (g_socket w)) (\<lambda>(_, s).
          let (t, p) = ThreadFunc_finish t (g_threadpool w)
          in Inr (w\<lparr>g_socket := s, g_threadpool := set_thread i t p\<rparr>)))"

text \<open>What the allocator and \<open>accept\<close> promise: a new connection object lies at an unused address, and a
  descriptor is not negative. There is memory for another timer entry.\<close>

definition env_ok :: "event_env \<Rightarrow> world \<Rightarrow> bool" where
  "env_ok env w \<longleftrightarrow>
     fst (ae_new (ee_accept env)) \<notin> set (m_connectionList (g_socket w)) \<and>
     fst (ae_new (ee_accept env)) \<noteq> 0 \<and>
     (\<forall>x \<in> set (ee_accepts env). case x of Accepted f _ \<Rightarrow> 0 \<le> f | AcceptErr _ \<Rightarrow> True) \<and>
     length (m_timermap (g_socket w)) + 1 < 2 ^ 64"

text \<open>The steps of the helper threads and of the pool threads.\<close>

inductive background_step :: "world \<Rightarrow> world \<Rightarrow> bool" where
  timer: "timer_pass ctl_ok True t (g_socket w) = Some (Inr s') \<Longrightarrow> m_waittime (g_socket w) > 0 \<Longrightarrow>
    background_step w (w\<lparr>g_socket := s'\<rparr>)"
| recycle: "RecyConnThread_body False False clock stop (g_socket w) = (False, s') \<Longrightarrow>
    background_step w (w\<lparr>g_socket := s'\<rparr>)"
| send: "SendMsgThread_round False ctl_ok ans t (g_socket w) = Inr (leave, t', ans', s') \<Longrightarrow>
    background_step w (w\<lparr>g_socket := s'\<rparr>)"
| take_msg: "i < length (m_threadvec (g_threadpool w)) \<Longrightarrow>
    next_of (ThreadFunc_take (m_threadvec (g_threadpool w) ! i) (g_threadpool w)) = (t, p) \<Longrightarrow>
    background_step w (w\<lparr>g_threadpool := set_thread i t p\<rparr>)"
| process: "i < length (m_threadvec (g_threadpool w)) \<Longrightarrow> ThreadFunc_process now i w = Inr w' \<Longrightarrow> background_step w w'"

text \<open>The kernel reports \<open>EPOLLOUT\<close> only where it was asked for, and that is for connections accepted before.\<close>

inductive worker_step :: "world \<Rightarrow> world \<Rightarrow> bool" where
  event: "process_event env ev a w = Inr w' \<Longrightarrow> a \<in> set (m_connectionList (g_socket w)) \<Longrightarrow> env_ok env w \<Longrightarrow>
    ev AND EPOLLOUT = 0 \<or> rhandler (conns (g_socket w) a) = event_readable_request_handler \<and>
      whandler (conns (g_socket w) a) = event_writable_request_handler \<Longrightarrow> worker_step w w'"
| background: "background_step w w' \<Longrightarrow> worker_step w w'"

inductive_cases worker_stepE: "worker_step w w'"
inductive_cases background_stepE: "background_step w w'"

section \<open>The invariant of the shared state\<close>

definition sock_inv :: "csocket \<Rightarrow> bool" where
  "sock_inv s \<longleftrightarrow> pool_inv s \<and> timer_inv s \<and> timer_conns s"

text \<open>A change that keeps the invariants, the set of connection objects and the handlers.\<close>

definition keeps :: "csocket \<Rightarrow> csocket \<Rightarrow> bool" where
  "keeps s s' \<longleftrightarrow> (sock_inv s \<longrightarrow> sock_inv s') \<and> (online_inv s \<longrightarrow> online_inv s') \<and>
     m_connectionList s' = m_connectionList s \<and>
     (\<forall>b. whandler (conns s' b) = whandler (conns s b) \<and> rhandler (conns s' b) = rhandler (conns s b))"

lemma keeps_accepted: "keeps s s' \<Longrightarrow> accepted s' = accepted s"
  by (simp add: keeps_def accepted_def)

lemma accepted_pool: "a \<in> accepted s \<Longrightarrow> a \<in> set (m_connectionList s)"
  by (simp add: accepted_def)

lemma keeps_refl [inv_intros]: "keeps s s"
  by (simp add: keeps_def)

lemma keeps_trans: "keeps s t \<Longrightarrow> keeps t u \<Longrightarrow> keeps s u"
  by (simp add: keeps_def)

lemma whandler_epoll:
  "whandler (conns (snd (epoll_oper_event ok f fl et bc a s)) b) = whandler (conns s b)"
  by (simp add: epoll_oper_event_def Let_def upd_conn_def)

lemma whandler_close_accepted:
  "close_accepted_connection ok1 ok2 now a t s = Inr s' \<Longrightarrow> whandler (conns s' b) = whandler (conns s b)"
  by (auto simp: close_accepted_connection_cases InRecyConnQueue_def Let_def whandler_epoll upd_conn_def
      split: if_splits)

lemma sock_inv_fields [simp]:
  "sock_inv (s\<lparr>m_sendsem := x\<rparr>) = sock_inv s" "sock_inv (s\<lparr>m_msgtosend_count := y\<rparr>) = sock_inv s"
  "sock_inv (s\<lparr>m_send_msgList := z\<rparr>) = sock_inv s" "sock_inv (s\<lparr>m_sendmutex := b\<rparr>) = sock_inv s"
  "sock_inv (s\<lparr>m_lastprinttime := y\<rparr>) = sock_inv s" "sock_inv (s\<lparr>m_online_count := y\<rparr>) = sock_inv s"
  "sock_inv (os_request r s) = sock_inv s"
  by (simp_all add: sock_inv_def timer_conns_def timer_inv_def pool_inv_def)

lemma sock_inv_upd_conn:
  "sock_inv s \<Longrightarrow> fd (f (conns s a)) = fd (conns s a) \<Longrightarrow> sock_inv (upd_conn a f s)"
  by (simp add: sock_inv_def timer_conns_def pool_inv_upd_conn)

lemma sock_inv_epoll: "sock_inv s \<Longrightarrow> sock_inv (snd (epoll_oper_event ok f fl et bc a s))"
  by (simp add: sock_inv_def timer_conns_def timer_inv_def pool_inv_epoll)

lemma conns_upd: "conns (upd_conn a f s) b = (if b = a then f (conns s a) else conns s b)"
  by (simp add: upd_conn_def)

lemma keeps_upd_conn [inv_intros]:
  "fd (f (conns s' a)) = fd (conns s' a) \<Longrightarrow> whandler (f (conns s' a)) = whandler (conns s' a) \<Longrightarrow>
   rhandler (f (conns s' a)) = rhandler (conns s' a) \<Longrightarrow> keeps s s' \<Longrightarrow> keeps s (upd_conn a f s')"
  by (auto simp: keeps_def sock_inv_upd_conn online_inv_upd_conn conns_upd)

lemma keeps_epoll [inv_intros]: "keeps s s' \<Longrightarrow> keeps s (snd (epoll_oper_event ok f fl et bc a s'))"
  by (simp add: keeps_def sock_inv_epoll whandler_epoll)

lemma keeps_fields:
  assumes "keeps s s'"
  shows "keeps s (s'\<lparr>m_sendsem := x\<rparr>)" "keeps s (s'\<lparr>m_msgtosend_count := y\<rparr>)"
    "keeps s (s'\<lparr>m_send_msgList := z\<rparr>)" "keeps s (s'\<lparr>m_sendmutex := b\<rparr>)"
    "keeps s (s'\<lparr>m_lastprinttime := y\<rparr>)"
    "keeps s (os_request r s')"
  using assms by (simp_all add: keeps_def)

lemmas [inv_intros] = keeps_fields

lemma keeps_close:
  assumes "close_accepted_connection c1 c2 now a t s' = Inr s''" "a \<in> accepted s" "keeps s s'"
  shows "keeps s s''"
proof -
  have acc: "a \<in> accepted s'" using assms(2,3) by (simp add: keeps_accepted)
  note c = close_accepted_timer [OF assms(1)] close_accepted_connection_conns(3) [OF assms(1)]
  have "pool_inv s''" if "pool_inv s'"
    by (rule pool_inv_close_accepted [OF that accepted_pool [OF acc] assms(1)])
  with assms(3) c whandler_close_accepted [OF assms(1)] close_accepted_frame(3) [OF assms(1)]
    online_inv_close_accepted [OF assms(1) acc]
  show ?thesis by (auto simp: keeps_def sock_inv_def timer_conns_def)
qed

section \<open>Reading\<close>

lemma recv_write_fd: "recv_write ys c = Inr c' \<Longrightarrow>
   fd c' = fd c \<and> whandler c' = whandler c \<and> rhandler c' = rhandler c"
  by (auto simp: recv_write_def split: if_splits buf_ptr.splits hdr_ptr.splits option.splits)

lemma FreeMemory_fd: "FreeMemory_header c = Inr c' \<Longrightarrow>
   fd c' = fd c \<and> whandler c' = whandler c \<and> rhandler c' = rhandler c"
  by (auto simp: FreeMemory_header_def split: hdr_ptr.splits)

lemma recv_small_fd [simp]: "fd (recv_account n c) = fd c" "fd (drop_message c) = fd c"
  "whandler (recv_account n c) = whandler c" "whandler (drop_message c) = whandler c"
  "rhandler (recv_account n c) = rhandler c" "rhandler (drop_message c) = rhandler c"
  by (simp_all add: recv_account_def drop_message_def Let_def)

lemma keeps_recvproc:
  assumes "recvproc env r a s' = Inr (n, s'')" "a \<in> accepted s" "keeps s s'"
  shows "keeps s s''"
proof -
  from assms(1) obtain c where c: "recv_write (ra_data r) (conns s' a) = Inr c"
    by (auto simp: recvproc_def bindE_Inr_iff)
  let ?s = "upd_conn a (\<lambda>_. c) s'"
  have k: "keeps s ?s" by (intro inv_intros assms(3)) (use recv_write_fd [OF c] in simp_all)
  from assms(1) c have "s'' = ?s \<or> (\<exists>x. close_accepted_connection (env_ctl_ok env) (env_close_ok env)
      (env_now env) a False ?s = Inr s'')"
    by (auto simp: recvproc_def bindE_Inr_iff Let_def split: if_splits)
  then show ?thesis
  proof
    assume "s'' = ?s"
    with k show ?thesis by simp
  next
    assume "\<exists>x. close_accepted_connection (env_ctl_ok env) (env_close_ok env) (env_now env) a False ?s = Inr s''"
    with keeps_close [OF _ assms(2) k] show ?thesis by blast
  qed
qed

lemma keeps_header_recv:
  assumes "pkg_header_recv env r a s' = Inr (n, s'')" "a \<in> accepted s" "keeps s s'"
  shows "keeps s s''"
  using assms keeps_recvproc [OF _ assms(2,3)]
  by (auto simp: pkg_header_recv_def bindE_Inr_iff split: if_splits intro!: inv_intros)

lemma keeps_body_recv:
  assumes "pkg_body_recv env r a s' = Inr (n, s'')" "a \<in> accepted s" "keeps s s'"
  shows "keeps s s''"
  using assms keeps_recvproc [OF _ assms(2,3)]
  by (auto simp: pkg_body_recv_def bindE_Inr_iff split: if_splits intro!: inv_intros dest!: FreeMemory_fd)

lemma PutToStateMach_whandler [simp]:
  "whandler (PutToStateMach c) = whandler c" "rhandler (PutToStateMach c) = rhandler c"
  by (simp_all add: PutToStateMach_def)

lemma keeps_body_proc:
  assumes "pkg_body_proc a w = Inr w'" "keeps s (g_socket w)"
  shows "keeps s (g_socket w')"
  using assms by (auto simp: pkg_body_proc_def bindE_Inr_iff Let_def PutToStateMach_frame
      intro!: inv_intros dest!: FreeMemory_fd)

lemma keeps_header_proc:
  assumes "pkg_header_proc a w = Inr w'" "keeps s (g_socket w)"
  shows "keeps s (g_socket w')"
  using assms
  by (auto simp: pkg_header_proc_def bindE_Inr_iff Let_def split: hdr_ptr.splits if_splits
      intro!: inv_intros dest!: FreeMemory_fd elim!: keeps_body_proc)

lemma keeps_header_event:
  assumes "header_event env r a w = Inr w'" "a \<in> accepted s" "keeps s (g_socket w)"
  shows "keeps s (g_socket w')"
proof -
  from assms(1) obtain n s1 where s1: "pkg_header_recv env r a (g_socket w) = Inr (n, s1)"
    by (auto simp: header_event_def bindE_Inr_iff)
  note k = keeps_header_recv [OF s1 assms(2,3)]
  consider "w' = w\<lparr>g_socket := s1\<rparr>"
    | "w' = w\<lparr>g_socket := upd_conn a (\<lambda>c. c\<lparr>curstat := PKG_HD_RECVING\<rparr>) s1\<rparr>"
    | "pkg_header_proc a (w\<lparr>g_socket := s1\<rparr>) = Inr w'"
  proof (cases "n = -1")
    case True
    with assms(1) s1 that(1) show thesis by (simp add: header_event_def Let_def)
  next
    case n: False
    with assms(1) s1 that(2,3) show thesis
      by (cases "n = int (recvlen (conns (g_socket w) a))") (simp_all add: header_event_def Let_def)
  qed
  then show ?thesis
  proof cases
    case 1
    with k show ?thesis by simp
  next
    case 2
    with keeps_upd_conn [OF _ _ _ k] show ?thesis by simp
  next
    case 3
    then show ?thesis by (rule keeps_header_proc) (use k in simp)
  qed
qed

lemma keeps_body_event:
  assumes "body_event env r a w = Inr w'" "a \<in> accepted s" "keeps s (g_socket w)"
  shows "keeps s (g_socket w')"
proof (cases "recvlen (conns (g_socket w) a) = 0")
  case True
  with assms show ?thesis by (simp add: body_event_def Let_def)
next
  case False
  with assms(1) obtain n s1 where s1: "pkg_body_recv env r a (g_socket w) = Inr (n, s1)"
    by (auto simp: body_event_def bindE_Inr_iff Let_def)
  note k = keeps_body_recv [OF s1 assms(2,3)]
  consider "w' = w\<lparr>g_socket := s1\<rparr>"
    | "w' = w\<lparr>g_socket := upd_conn a (\<lambda>c. c\<lparr>curstat := PKG_BD_RECVING\<rparr>) s1\<rparr>"
    | "pkg_body_proc a (w\<lparr>g_socket := s1\<rparr>) = Inr w'"
  proof (cases "n = -1")
    case True
    with assms(1) False s1 that(1) show thesis by (simp add: body_event_def Let_def)
  next
    case n: False
    with assms(1) False s1 that(2,3) show thesis
      by (cases "n = int (recvlen (conns (g_socket w) a))") (simp_all add: body_event_def Let_def)
  qed
  then show ?thesis
  proof cases
    case 1
    with k show ?thesis by simp
  next
    case 2
    with keeps_upd_conn [OF _ _ _ k] show ?thesis by simp
  next
    case 3
    then show ?thesis by (rule keeps_body_proc) (use k in simp)
  qed
qed

lemma keeps_readable_request:
  assumes "readable_request env r a w = Inr w'" "a \<in> accepted s" "keeps s (g_socket w)"
  shows "keeps s (g_socket w')"
proof -
  have start: "keeps s (upd_conn a (\<lambda>c. c\<lparr>p_headerinfo := HdrLive (AllocMemory PKG_HEADER_LEN),
            p_recvbuf := InHeader 0, recvlen := PKG_HEADER_LEN\<rparr>) (g_socket w))"
    using assms(3) by (intro inv_intros) simp_all
  let ?c = "conns (g_socket w) a"
  show ?thesis
  proof (cases "curstat ?c = PKG_HD_INIT")
    case True
    with assms(1) have "header_event env r a (w\<lparr>g_socket := upd_conn a (\<lambda>c. c\<lparr>
            p_headerinfo := HdrLive (AllocMemory PKG_HEADER_LEN),
            p_recvbuf := InHeader 0, recvlen := PKG_HEADER_LEN\<rparr>) (g_socket w)\<rparr>) = Inr w'"
      by (simp add: readable_request_def)
    then show ?thesis by (rule keeps_header_event) (use assms(2) start in simp_all)
  next
    case ninit: False
    show ?thesis
    proof (cases "curstat ?c = PKG_HD_RECVING \<and> recvlen ?c \<noteq> 0")
      case True
      with assms(1) have "header_event env r a w = Inr w'" by (simp add: readable_request_def)
      then show ?thesis using assms(2,3) by (rule keeps_header_event)
    next
      case nhdr: False
      show ?thesis
      proof (cases "curstat ?c = PKG_BD_INIT \<or> curstat ?c = PKG_BD_RECVING")
        case True
        with assms(1) have "body_event env r a w = Inr w'" by (auto simp: readable_request_def)
        then show ?thesis using assms(2,3) by (rule keeps_body_event)
      next
        case False
        with assms(1) ninit nhdr have "w' = w"
          by (cases "curstat ?c = PKG_HD_RECVING") (simp_all add: readable_request_def Let_def)
        with assms(3) show ?thesis by simp
      qed
    qed
  qed
qed

section \<open>Sending\<close>

lemma send_small_whandler [simp]:
  "whandler (clear_send c) = whandler c" "whandler (sent_part n c) = whandler c"
  "whandler (take_message m c) = whandler c"
  "rhandler (clear_send c) = rhandler c" "rhandler (sent_part n c) = rhandler c"
  "rhandler (take_message m c) = rhandler c"
  by (simp_all add: clear_send_def sent_part_def take_message_def Let_def)

text \<open>The interface of the sending side: sending and answering change a connection only in fields that neither
  receiving nor the invariants depend on, the send queue and its counters. A relation that such changes
  keep is kept by every operation of the sender and of the business layer.\<close>

definition recv_view :: "connection \<Rightarrow> byte \<times> hdr_ptr \<times> byte list option \<times> buf_ptr \<times> nat \<times> u64 \<times> bool \<times> int" where
  "recv_view c = (curstat c, p_headerinfo c, p_msgrecv c, p_recvbuf c, recvlen c, sequence c, istimeout c, inrecyList c)"

definition send_side :: "connection \<Rightarrow> connection \<Rightarrow> bool" where
  "send_side c c' \<longleftrightarrow> fd c' = fd c \<and> rhandler c' = rhandler c \<and> whandler c' = whandler c \<and> recv_view c' = recv_view c"

lemma send_side_small [simp]:
  "send_side c (clear_send c)" "send_side c (sent_part n c)" "send_side c (take_message m c)"
  "send_side c (c\<lparr>iThrowsendCount := k\<rparr>)" "send_side c ((clear_send c)\<lparr>iThrowsendCount := k\<rparr>)"
  "send_side c ((sent_part n c)\<lparr>iThrowsendCount := k\<rparr>)" "send_side c (c\<lparr>sendlen_already := n\<rparr>)"
  "send_side c (c\<lparr>isend_count := k\<rparr>)" "send_side c (c\<lparr>sendlen_suppose := n\<rparr>)"
  "send_side c (c\<lparr>ping_update_time := t, sendlen_suppose := n\<rparr>)"
  by (simp_all add: send_side_def recv_view_def clear_send_def sent_part_def take_message_def)

locale send_frame =
  fixes R :: "csocket \<Rightarrow> csocket \<Rightarrow> bool"
  assumes R_upd: "R s s' \<Longrightarrow> send_side (conns s' a) (f (conns s' a)) \<Longrightarrow> R s (upd_conn a f s')"
    and R_epoll: "R s s' \<Longrightarrow> R s (snd (epoll_oper_event ok g fl et bc a s'))"
    and R_os: "R s s' \<Longrightarrow> R s (os_request r s')"
    and R_sem: "R s s' \<Longrightarrow> R s (s'\<lparr>m_sendsem := x\<rparr>)"
    and R_count: "R s s' \<Longrightarrow> R s (s'\<lparr>m_msgtosend_count := y\<rparr>)"
    and R_list: "R s s' \<Longrightarrow> R s (s'\<lparr>m_send_msgList := z\<rparr>)"
    and R_mutex: "R s s' \<Longrightarrow> R s (s'\<lparr>m_sendmutex := b\<rparr>)"
begin

lemmas R_intros = R_upd R_epoll R_os R_sem R_count R_list R_mutex

lemma sendproc:
  assumes "sendproc ans a s' = Inr (r, ans', s'')" "R s s'"
  shows "R s s''"
  using sendproc_cases [OF assms(1)] assms(2) by (auto intro: R_os)

lemma send_scan:
  "send_scan ctl_ok ans ms s' = Inr (e, kept, ans', s'') \<Longrightarrow> R s s' \<Longrightarrow> R s s''"
proof (induction ms arbitrary: ans s' kept)
  case Nil
  then show ?case by simp
next
  case (Cons m ms)
  let ?a = "lp_curconn (msg_head m)"
  from Cons.prems(1) refl show ?case
  proof (cases rule: send_scan_step)
    case outdated
    show ?thesis by (rule Cons.IH [OF outdated(2)]) (use Cons.prems(2) in \<open>intro R_intros; simp\<close>)
  next
    case (busy kept')
    from Cons.IH [OF busy(4) Cons.prems(2)] show ?thesis .
  next
    case (send r ans1 s0 s1)
    have "R s s0" unfolding send(3) using Cons.prems(2) by (intro R_intros) simp_all
    with send(4) have k: "R s s1" by (rule sendproc)
    from send(5) show ?thesis
      by (elim disjE conjE) (auto intro!: Cons.IH R_intros k simp del: upd_conn_upd_conn)
  qed
qed

lemma send_round:
  assumes "SendMsgThread_round stop ctl_ok ans t s' = Inr (leave, t', ans', s'')" "R s s'"
  shows "R s s''"
proof (cases "stop \<or> ifshutdown t \<or> \<not> m_msgtosend_count s' > 0")
  case True
  with assms have "s'' = s'\<lparr>m_sendsem := m_sendsem s' - 1\<rparr>"
    by (auto simp: SendMsgThread_round_eq Let_def split: if_splits)
  with assms(2) show ?thesis by (auto intro: R_intros)
next
  case False
  from SendMsgThread_round_visit [OF assms(1) False] obtain e kept s1 where
    scan: "Send.send_scan ctl_ok ans (m_send_msgList s') (s'\<lparr>m_sendsem := m_sendsem s' - 1\<rparr>) = Inr (e, kept, ans', s1)"
    and s'': "s'' = s1\<lparr>m_send_msgList := kept, m_sendmutex := (if e = ScanReturn then True else m_sendmutex s1)\<rparr>"
    by metis
  have "R s s1" by (rule send_scan [OF scan]) (use assms(2) in \<open>intro R_intros\<close>)
  then show ?thesis unfolding s'' by (intro R_intros)
qed

lemma writable_request:
  assumes "writable_request ctl_ok ans a s' = Inr (ans', s'')" "R s s'"
  shows "R s s''"
proof -
  from assms(1) obtain r s1 ans1 where sp: "Send.sendproc ans a s' = Inr (r, ans1, s1)"
    by (auto simp: writable_request_def Let_def bindE_Inr_iff)
  note k = sendproc [OF sp assms(2)]
  from assms(1) sp show ?thesis
    by (auto simp: writable_request_def Let_def simp del: upd_conn_upd_conn split: if_splits
        intro!: R_intros k)
qed

lemma MsgSendInQueue:
  assumes "MsgSendInQueue msg s' = Inr s''" "R s s'"
  shows "R s s''"
  using assms by (auto simp: MsgSendInQueue_eq Let_def split: if_splits intro!: R_intros)

lemma run_handler:
  assumes "run_handler now h a msg s' = Inr (ok, s'')" "R s s'"
  shows "R s s''"
  using assms
  by (cases h) (auto simp: run_handler_def handle_ping_def handle_register_def handle_login_def
      queue_info_reply_def bindE_Inr_iff split: if_splits option.splits
      elim!: MsgSendInQueue intro!: R_intros)

lemma ThreadRecvProc:
  assumes "ThreadRecvProc now msg s' = Inr (r, s'')" "R s s'"
  shows "R s s''"
  using assms run_handler [OF _ assms(2)]
  by (auto simp: ThreadRecvProc_def Let_def bindE_Inr_iff split: if_splits option.splits)

end

interpretation keeping: send_frame keeps
  by unfold_locales (auto simp: send_side_def intro: inv_intros)

section \<open>Accepting\<close>

lemma get_connection_item_effect:
  assumes "sock_inv s" "fst new \<notin> set (m_connectionList s)" "fst new \<noteq> 0"
    and get: "get_connection_item new s = (a, s')"
  shows "sock_inv s'" "a \<in> set (m_connectionList s')" "a \<notin> set (m_free_connectionList s')"
    "a \<notin> set (m_recy_connectionList s')" "fd (conns s' a) = -1" "m_timermap s' = m_timermap s"
proof -
  from assms(1) have pool: "pool_inv s" by (simp add: sock_inv_def)
  have "pool_inv s'" using pool_inv_get [OF pool assms(2,3)] by (simp add: get)
  moreover have t: "m_timermap s' = m_timermap s" "m_timermap_size s' = m_timermap_size s"
    "m_timer_value s' = m_timer_value s" "set (m_connectionList s) \<subseteq> set (m_connectionList s')"
    using get by (auto simp: get_connection_item_def split: list.splits)
  ultimately show "sock_inv s'"
    using assms(1) by (auto simp: sock_inv_def timer_inv_def timer_conns_def)
  show "m_timermap s' = m_timermap s" by (fact t(1))
  show "a \<in> set (m_connectionList s')" "a \<notin> set (m_free_connectionList s')"
    "a \<notin> set (m_recy_connectionList s')" "fd (conns s' a) = -1"
    using get_connection_item_fresh [OF pool assms(2) get] by simp_all
qed

lemma sock_inv_upd_out:
  assumes "sock_inv s" "a \<notin> set (m_free_connectionList s)" "a \<notin> set (m_recy_connectionList s)"
  shows "sock_inv (upd_conn a f s)"
  using assms by (simp add: sock_inv_def timer_conns_def pool_inv_upd_conn)

lemma sock_inv_Add:
  assumes "sock_inv s" "a \<in> set (m_connectionList s)" "length (m_timermap s) + 1 < 2 ^ 64"
  shows "sock_inv (AddToTimerQueue now a s)"
proof -
  have "timer_inv (AddToTimerQueue now a s)"
    using timer_inv_Add [OF _ assms(3)] assms(1) by (simp add: sock_inv_def)
  moreover have "pool_inv (upd_conn a (\<lambda>c. c\<lparr>ping_update_time := now\<rparr>) s)"
    using assms(1) by (simp add: sock_inv_def pool_inv_upd_conn)
  then have "pool_inv (AddToTimerQueue now a s)"
    by (simp add: AddToTimerQueue_def pool_inv_def Let_def)
  ultimately show ?thesis
    using assms by (simp add: sock_inv_def timer_conns_def AddToTimerQueue_def Let_def)
qed

lemma sock_inv_close_connection:
  assumes "sock_inv s" "a \<in> set (m_connectionList s)" "close_connection ok a s = Inr s'"
  shows "sock_inv s'"
proof -
  have "pool_inv s'"
    using assms(1) by (intro pool_inv_close_connection [OF _ assms(2,3)]) (simp add: sock_inv_def)
  moreover have "m_timermap s' = m_timermap s" "m_timermap_size s' = m_timermap_size s"
    "m_timer_value s' = m_timer_value s" "m_connectionList s' = m_connectionList s"
    using assms(3) by (auto simp: close_connection_cases free_connection_item_def split: if_splits)
  ultimately show ?thesis using assms(1) by (simp add: sock_inv_def timer_inv_def timer_conns_def)
qed

lemma sock_inv_accept:
  assumes inv: "sock_inv s" and new: "fst (ae_new env) \<notin> set (m_connectionList s)" "fst (ae_new env) \<noteq> 0"
    and room: "length (m_timermap s) + 1 < 2 ^ 64"
    and run: "accept_connection env acc4 li connfd peer s = Inr s'"
  shows "sock_inv s'"
proof (cases "m_online_count s \<ge> m_worker_connections s \<or> pool_too_big s")
  case True
  with run inv show ?thesis by (auto simp: accept_connection_def split: if_splits)
next
  case False
  obtain a s1 where get: "get_connection_item (ae_new env) s = (a, s1)" by fastforce
  note g = get_connection_item_effect [OF inv new get]
  define s2 where "s2 = upd_conn a (\<lambda>c. (GetOneToUse (ae_now env) c)
                \<lparr>fd := connfd, p_listenitem := li, s_sockaddr := peer,
                 rhandler := event_readable_request_handler,
                 whandler := event_writable_request_handler\<rparr>) s1"
  define s3 where "s3 = snd (epoll_oper_event (ae_ctl_ok env) connfd EPOLL_CTL_ADD (EPOLLIN OR EPOLLRDHUP) 0 a s2)"
  have s3: "sock_inv s3" unfolding s3_def s2_def by (intro sock_inv_epoll sock_inv_upd_out g)
  have pool3: "a \<in> set (m_connectionList s3)" "length (m_timermap s3) + 1 < 2 ^ 64"
    using g(2,6) room by (simp_all add: s3_def s2_def)
  have "\<not> m_online_count s \<ge> m_worker_connections s" "\<not> pool_too_big s" using False by simp_all
  note run = run [unfolded accept_connection_def if_not_P [OF this(1)] if_not_P [OF this(2)] get Let_def
      prod.case, folded s2_def, unfolded case_prod_unfold fst_epoll, folded s3_def]
  show ?thesis
  proof (cases "ae_ctl_ok env")
    case True
    with run sock_inv_Add [OF s3 pool3] s3 show ?thesis
      by (auto simp: bindE_def split: if_splits sum.splits)
  next
    case False
    with run sock_inv_close_connection [OF s3 pool3(1)] show ?thesis
      by (auto simp: bindE_def split: if_splits sum.splits)
  qed
qed

lemma sock_inv_event_accept:
  "event_accept env ans acc4 a s = Inr (u, s') \<Longrightarrow> sock_inv s \<Longrightarrow>
   fst (ae_new env) \<notin> set (m_connectionList s) \<Longrightarrow> fst (ae_new env) \<noteq> 0 \<Longrightarrow>
   length (m_timermap s) + 1 < 2 ^ 64 \<Longrightarrow> sock_inv s'"
  by (induction env ans acc4 a s rule: event_accept.induct)
    (auto simp: bindE_Inr_iff split: if_splits intro: sock_inv_accept)

section \<open>Events\<close>

lemma online_inv_event_accept:
  "event_accept env ans acc4 a s = Inr (u, s') \<Longrightarrow> online_inv s \<Longrightarrow> pool_inv s \<Longrightarrow>
   fst (ae_new env) \<notin> set (m_connectionList s) \<Longrightarrow> fst (ae_new env) \<noteq> 0 \<Longrightarrow>
   (\<forall>x \<in> set ans. case x of Accepted f _ \<Rightarrow> 0 \<le> f | AcceptErr _ \<Rightarrow> True) \<Longrightarrow> online_inv s'"
  by (induction env ans acc4 a s rule: event_accept.induct)
    (auto simp: bindE_Inr_iff split: if_splits intro: online_inv_accept)

text \<open>The handler of a connection may run twice for one event; reading is done on accepted connections.\<close>

lemma keeps_run_event_handler:
  assumes "run_event_handler env h a w = Inr w'" "h \<noteq> event_accept_handler"
    and "h = event_readable_request_handler \<Longrightarrow> a \<in> accepted (g_socket w)"
  shows "keeps (g_socket w) (g_socket w')"
proof (cases h)
  case event_accept_handler
  with assms(2) show ?thesis by simp
next
  case event_readable_request_handler
  with assms(1) have "readable_request (ee_os env) (ee_recv env) a w = Inr w'"
    by (simp add: run_event_handler_def)
  from keeps_readable_request [OF this assms(3) keeps_refl] event_readable_request_handler show ?thesis by simp
next
  case event_writable_request_handler
  with assms(1) obtain ans' s' where "writable_request (env_ctl_ok (ee_os env)) (ee_send env) a (g_socket w)
      = Inr (ans', s')" and w': "g_socket w' = s'"
    by (auto simp: run_event_handler_def bindE_Inr_iff)
  from keeping.writable_request [OF this(1) keeps_refl] w' show ?thesis by simp
qed

lemma event_accept_inv:
  assumes "sock_inv (g_socket w)" "online_inv (g_socket w)" "env_ok env w"
    and run: "run_event_handler env event_accept_handler a w = Inr w'"
  shows "sock_inv (g_socket w') \<and> online_inv (g_socket w')"
proof -
  from run obtain u s' where acc: "event_accept (ee_accept env) (ee_accepts env) (use_accept4 w) a (g_socket w)
      = Inr (u, s')" and w': "g_socket w' = s'"
    by (auto simp: run_event_handler_def bindE_Inr_iff)
  show ?thesis
    unfolding w' using sock_inv_event_accept [OF acc] online_inv_event_accept [OF acc] assms(1-3)
    by (simp add: env_ok_def sock_inv_def)
qed

lemma if_E: "(if b then x else y) = z \<Longrightarrow> (x = z \<Longrightarrow> P) \<Longrightarrow> (y = z \<Longrightarrow> P) \<Longrightarrow> P"
  by (cases b) simp_all

lemma process_event_inv:
  assumes inv: "sock_inv (g_socket w)" "online_inv (g_socket w)" and a: "a \<in> set (m_connectionList (g_socket w))"
    and env: "env_ok env w"
    and out: "ev AND EPOLLOUT = 0 \<or> rhandler (conns (g_socket w) a) = event_readable_request_handler \<and>
      whandler (conns (g_socket w) a) = event_writable_request_handler"
    and run: "process_event env ev a w = Inr w'"
  shows "sock_inv (g_socket w') \<and> online_inv (g_socket w')"
proof (cases "a = 0")
  case True
  with run inv show ?thesis by (simp add: process_event_def)
next
  case False
  with run obtain w1 where w1: "(if ev AND EPOLLIN \<noteq> 0
      then run_event_handler env (rhandler (conns (g_socket w) a)) a w else Inr w) = Inr w1"
    by (auto simp: process_event_def bindE_Inr_iff)
  have k1: "keeps (g_socket w) (g_socket w1)" if "rhandler (conns (g_socket w) a) \<noteq> event_accept_handler"
    using w1 keeps_run_event_handler [OF _ that, of env a w w1] a
    by (cases "ev AND EPOLLIN = 0") (auto simp: keeps_refl accepted_def)
  show ?thesis
  proof (cases "ev AND EPOLLOUT = 0")
    case True
    with False run w1 have "w' = w1" by (auto simp: process_event_def)
    with w1 inv k1 event_accept_inv [OF inv env, of a w'] show ?thesis
      by (cases "rhandler (conns (g_socket w) a) = event_accept_handler") (auto simp: keeps_def split: if_splits)
  next
    case nout: False
    with out have h: "rhandler (conns (g_socket w) a) = event_readable_request_handler"
      "whandler (conns (g_socket w) a) = event_writable_request_handler" by simp_all
    from h(1) have k: "keeps (g_socket w) (g_socket w1)" by (intro k1) simp
    then have a1: "a \<in> accepted (g_socket w1)" and inv1: "sock_inv (g_socket w1)" "online_inv (g_socket w1)"
      and h1: "whandler (conns (g_socket w1) a) = event_writable_request_handler"
      using inv a h by (simp_all add: keeps_def accepted_def)
    note run1 = run [unfolded process_event_def if_not_P [OF False] w1 bindE_simps if_P [OF nout] h1]
    have "keeps (g_socket w1) (g_socket w')"
    proof (rule if_E [OF run1])
      assume "bindE (close_accepted_connection (env_ctl_ok (ee_os env)) (env_close_ok (ee_os env))
          (env_now (ee_os env)) a False
          (upd_conn a (\<lambda>c. c\<lparr>iThrowsendCount := iThrowsendCount c - 1\<rparr>) (g_socket w1)))
        (\<lambda>s. Inr (w1\<lparr>g_socket := s\<rparr>)) = Inr w'"
      then obtain s where s: "close_accepted_connection (env_ctl_ok (ee_os env)) (env_close_ok (ee_os env))
          (env_now (ee_os env)) a False
          (upd_conn a (\<lambda>c. c\<lparr>iThrowsendCount := iThrowsendCount c - 1\<rparr>) (g_socket w1)) = Inr s"
        "g_socket w' = s" by (auto simp: bindE_Inr_iff)
      show ?thesis unfolding s(2)
        by (rule keeps_close [OF s(1) a1]) (intro inv_intros; simp)
    next
      assume "run_event_handler env event_writable_request_handler a w1 = Inr w'"
      then show ?thesis by (rule keeps_run_event_handler) simp_all
    qed
    with inv1 show ?thesis by (simp add: keeps_def)
  qed
qed

section \<open>The helper threads\<close>

lemma sock_inv_timer_pass:
  assumes inv: "sock_inv s" and w: "m_waittime s > 0" and run: "timer_pass ctl_ok True t s = Some (Inr s')"
  shows "sock_inv s'"
proof -
  from inv have i: "timer_inv s" "pool_inv s" "timer_conns s" by (simp_all add: sock_inv_def)
  from timer_pass_examined [OF i w, of ctl_ok t] run obtain s1 where
    inv': "timer_inv s'" "pool_inv s'" and ex: "examined t (due t (m_timermap s)) s1 s'"
    and s1: "m_connectionList s1 = m_connectionList s" "m_timermap s1 = rescheduled t (m_waittime s) (m_timermap s)"
    by auto
  have "snd ` set (m_timermap s') \<subseteq> snd ` set (m_timermap s)"
    using due_rescheduled(2) [of t "m_waittime s" "m_timermap s"]
    by (auto simp: examined_timermap [OF ex] s1(2))
  moreover have "m_connectionList s' = m_connectionList s"
    using ex s1(1) by (simp add: examined_def)
  ultimately have "timer_conns s'" using i(3) by (force simp: timer_conns_def)
  with inv' show ?thesis by (simp add: sock_inv_def)
qed

lemma recycle_one_timer [simp]:
  "m_timermap (fold recycle_one as s) = m_timermap s"
  "m_timermap_size (fold recycle_one as s) = m_timermap_size s"
  "m_timer_value (fold recycle_one as s) = m_timer_value s"
  "m_connectionList (fold recycle_one as s) = m_connectionList s"
  by (induction as arbitrary: s) (simp_all add: recycle_one_def free_connection_item_def)

lemma sock_inv_recycle:
  assumes "sock_inv s" "RecyConnThread_body False False clock stop s = (leave, s')"
  shows "sock_inv s'"
proof -
  from assms(1) have pool: "pool_inv s" by (simp add: sock_inv_def)
  from pool_inv_RecyConnThread_body [OF pool, of clock stop] assms(2) have "pool_inv s'" by simp
  moreover have "timer_inv s' = timer_inv s" "timer_conns s' = timer_conns s"
    using RecyConnThread_body_eq [OF pool, of clock stop] assms(2)
    by (cases "0 < m_recy_connection_count s";
        auto simp: RecyConnThread_body_def timer_inv_def timer_conns_def)+
  ultimately show ?thesis using assms(1) by (simp add: sock_inv_def)
qed

lemma keeps_ThreadFunc_process:
  assumes "ThreadFunc_process now i w = Inr w'"
  shows "keeps (g_socket w) (g_socket w')"
proof (cases "msg_held (m_threadvec (g_threadpool w) ! i)")
  case None
  with assms show ?thesis by (simp add: ThreadFunc_process_def keeps_refl)
next
  case (Some m)
  with assms obtain r s where s: "ThreadRecvProc now m (g_socket w) = Inr (r, s)" "g_socket w' = s"
    by (auto simp: ThreadFunc_process_def bindE_Inr_iff Let_def case_prod_unfold)
  from keeping.ThreadRecvProc [OF s(1) keeps_refl] show ?thesis by (simp add: s(2))
qed

lemma background_step_inv:
  assumes "background_step w w'" and inv: "sock_inv (g_socket w)" "online_inv (g_socket w)"
  shows "sock_inv (g_socket w') \<and> online_inv (g_socket w')"
  using assms(1)
proof cases
  case (timer ctl_ok t s')
  have "timer_inv (g_socket w)" using inv(1) by (simp add: sock_inv_def)
  from online_inv_timer_pass [OF inv(2) this timer(3,2)] sock_inv_timer_pass [OF inv(1) timer(3,2)] timer(1)
  show ?thesis by simp
next
  case (recycle clock stop s')
  have "pool_inv (g_socket w)" using inv(1) by (simp add: sock_inv_def)
  from online_inv_recycle [OF this recycle(2) inv(2)] sock_inv_recycle [OF inv(1) recycle(2)] recycle(1)
  show ?thesis by simp
next
  case (send ctl_ok ans t s' leave t' ans')
  with keeping.send_round [OF send(2) keeps_refl] inv show ?thesis by (simp add: keeps_def)
next
  case (take_msg i t p)
  with inv show ?thesis by simp
next
  case (process i now)
  with keeps_ThreadFunc_process [OF process(2)] inv show ?thesis by (simp add: keeps_def)
qed

lemma worker_step_inv:
  assumes "worker_step w w'" and inv: "sock_inv (g_socket w)" "online_inv (g_socket w)"
  shows "sock_inv (g_socket w') \<and> online_inv (g_socket w')"
  using assms(1)
proof cases
  case (event env ev a)
  then show ?thesis using process_event_inv inv by blast
next
  case background
  then show ?thesis using background_step_inv inv by blast
qed

end
