(* ===== verification/Startup.thy ===== *)
theory Startup
  imports Workers
begin

text \<open>
  From start-up to every reachable state: what opening the ports and \<open>epoll_event_init\<close> leave
  behind satisfies the invariants of the pool and of the timer, and each step of a thread keeps them.
\<close>

section \<open>Start-up of a worker\<close>

text \<open>Opening the ports changes the list of listening sockets and nothing else of the state.\<close>

definition only_listen :: "csocket \<Rightarrow> csocket \<Rightarrow> bool" where
  "only_listen s s' \<longleftrightarrow> s' = s\<lparr>m_ListenSocketList := m_ListenSocketList s', os_trace := os_trace s'\<rparr>"

lemma only_listen_trans:
  assumes "only_listen s t" "only_listen t u"
  shows "only_listen s u"
proof -
  from assms have "u = s\<lparr>m_ListenSocketList := m_ListenSocketList t, os_trace := os_trace t\<rparr>
      \<lparr>m_ListenSocketList := m_ListenSocketList u, os_trace := os_trace u\<rparr>"
    unfolding only_listen_def by metis
  then show ?thesis by (simp add: only_listen_def)
qed

lemma only_listen_one: "only_listen s (snd (open_listen_one e p s))"
  by (simp add: open_listen_one_def only_listen_def os_request_def Let_def)

lemma only_listen_loop: "open_listen_loop es s = (ok, s') \<Longrightarrow> only_listen s s'"
proof (induction es s rule: open_listen_loop.induct)
  case (1 s)
  then show ?case by (simp add: only_listen_def)
next
  case (2 p e es s)
  show ?case
  proof (cases "open_listen_one e p s")
    case (Pair ok1 s1)
    then show ?thesis
      using 2 only_listen_one [of s e p] by (cases ok1) (auto intro: only_listen_trans)
  qed
qed

lemma only_listen_sockets: "open_listen_sockets ports env s = (ok, s') \<Longrightarrow> only_listen s s'"
  by (auto simp: open_listen_sockets_def split: prod.splits bool.splits if_splits dest!: only_listen_loop)

lemma connectpool_fill_spec:
  assumes "distinct (map fst news)"
  shows "m_connectionList (connectpool_fill news s) = m_connectionList s @ map fst news"
    "m_free_connectionList (connectpool_fill news s) = m_free_connectionList s @ map fst news"
    "a \<in> fst ` set news \<Longrightarrow> fd (conns (connectpool_fill news s) a) = -1"
    "a \<notin> fst ` set news \<Longrightarrow> conns (connectpool_fill news s) a = conns s a"
    "m_recy_connectionList (connectpool_fill news s) = m_recy_connectionList s"
    "m_recy_connection_count (connectpool_fill news s) = m_recy_connection_count s"
    "m_timermap (connectpool_fill news s) = m_timermap s"
    "m_timermap_size (connectpool_fill news s) = m_timermap_size s"
    "m_timer_value (connectpool_fill news s) = m_timer_value s"
    "m_create_connections_count (connectpool_fill news s) = m_create_connections_count s"
  using assms
  by (induction news arbitrary: s) (auto simp: connection_new_def)

lemma sock_inv_connectpool_init:
  assumes pre: "m_connectionList s = []" "m_free_connectionList s = []" "m_recy_connectionList s = []"
      "m_recy_connection_count s = 0" "m_timermap s = []" "m_timermap_size s = 0"
    and cnt: "m_create_connections_count s = int (length news)"
    and news: "distinct (map fst news)" "0 \<notin> fst ` set news"
  shows "sock_inv (connectpool_init news s)"
    "m_connectionList (connectpool_init news s) = map fst news"
  using assms connectpool_fill_spec [OF news(1), where s = s]
  by (auto simp: sock_inv_def pool_inv_def timer_inv_def timer_conns_def connectpool_init_def Let_def)

lemma get_connection_item_list:
  "m_connectionList (snd (get_connection_item new s)) =
    (if m_free_connectionList s = [] then m_connectionList s @ [fst new] else m_connectionList s)"
  by (simp add: get_connection_item_def split: list.splits)

lemma sock_inv_standby:
  "standby_loop news oks i s = Inr s' \<Longrightarrow> sock_inv s \<Longrightarrow>
   distinct (map fst news) \<Longrightarrow> 0 \<notin> fst ` set news \<Longrightarrow> fst ` set news \<inter> set (m_connectionList s) = {} \<Longrightarrow>
   sock_inv s'"
proof (induction news arbitrary: oks i s)
  case Nil
  then show ?case by (simp split: if_splits)
next
  case (Cons new news)
  show ?case
  proof (cases "i < length (m_ListenSocketList s) \<and> oks \<noteq> []")
    case False
    with Cons.prems(1,2) show ?thesis by (cases oks) (auto split: if_splits)
  next
    case True
    then obtain ctl_ok oks' where oks: "oks = ctl_ok # oks'" by (cases oks) auto
    obtain a s1 where get: "get_connection_item new s = (a, s1)" by fastforce
    have new: "fst new \<notin> set (m_connectionList s)" "fst new \<noteq> 0" using Cons.prems(4,5) by auto
    note g = get_connection_item_effect [OF Cons.prems(2) new get]
    let ?pos = "m_ListenSocketList s ! i"
    define s2 where "s2 = (upd_conn a (\<lambda>c. c\<lparr>fd := l_fd ?pos, p_listenitem := Some i,
        rhandler := event_accept_handler\<rparr>) s1)"
    define s3 where "s3 = s2\<lparr>m_ListenSocketList := (m_ListenSocketList s2)[i := ?pos\<lparr>l_connitem := a\<rparr>]\<rparr>"
    define s4 where "s4 = snd (epoll_oper_event ctl_ok (l_fd ?pos) EPOLL_CTL_ADD (EPOLLIN OR EPOLLRDHUP) 0 a s3)"
    have "sock_inv s2" unfolding s2_def by (intro sock_inv_upd_out g)
    then have "sock_inv s3" by (simp add: s3_def sock_inv_def pool_inv_def timer_inv_def timer_conns_def)
    then have s4: "sock_inv s4" unfolding s4_def by (rule sock_inv_epoll)
    have "m_connectionList s4 = m_connectionList s1" by (simp add: s4_def s3_def s2_def)
    then have l: "set (m_connectionList s4) \<subseteq> insert (fst new) (set (m_connectionList s))"
      using get_connection_item_list [of new s] by (auto simp: get)
    have run: "standby_loop news oks' (i + 1) s4 = Inr s'"
      using Cons.prems(1) True unfolding s4_def s3_def s2_def
      by (simp add: oks get Let_def case_prod_unfold fst_epoll split: if_splits)
    have "fst ` set news \<inter> insert (fst new) (set (m_connectionList s)) = {}"
      using Cons.prems(3,5) by simp
    with l have "fst ` set news \<inter> set (m_connectionList s4) = {}" by blast
    with Cons.prems(3,4) show ?thesis by (intro Cons.IH [OF run s4]) simp_all
  qed
qed

lemma sock_inv_epoll_event_init:
  assumes "epoll_event_init create_ok pool_news news oks s = Inr s'"
    and "m_connectionList s = []" "m_free_connectionList s = []" "m_recy_connectionList s = []"
      "m_recy_connection_count s = 0" "m_timermap s = []" "m_timermap_size s = 0"
      "m_create_connections_count s = int (length pool_news)"
    and "distinct (map fst (pool_news @ news))" "0 \<notin> fst ` set (pool_news @ news)"
  shows "sock_inv s'"
proof -
  have d: "distinct (map fst pool_news)" "0 \<notin> fst ` set pool_news" using assms(9,10) by (simp_all add: image_Un)
  note init = sock_inv_connectpool_init [OF assms(2-8) d]
  from assms(1) have run: "standby_loop news oks 0 (connectpool_init pool_news s) = Inr s'"
    by (simp add: epoll_event_init_def split: if_splits)
  show ?thesis
    by (rule sock_inv_standby [OF run init(1)]) (use assms(9,10) in \<open>auto simp: init(2) image_Un\<close>)
qed

text \<open>Before the first client arrives nobody is served, and nothing waits to be sent.\<close>

definition no_clients :: "csocket \<Rightarrow> bool" where
  "no_clients s \<longleftrightarrow> m_online_count s = 0 \<and> serving s = {} \<and> m_timermap s = [] \<and> m_send_msgList s = []"

lemma no_clients_online: "no_clients s \<Longrightarrow> online_inv s"
  by (simp add: no_clients_def online_inv_def)

lemma no_clients_get: "no_clients s \<Longrightarrow> no_clients (snd (get_connection_item new s))"
  by (auto simp: no_clients_def serving_def get_connection_item_def connection_new_def split: list.splits)

lemma no_clients_standby_conn:
  assumes "no_clients s"
  shows "no_clients (snd (epoll_oper_event ok f EPOLL_CTL_ADD ev 0 a
    (upd_conn a (\<lambda>c. c\<lparr>fd := f, p_listenitem := Some i, rhandler := event_accept_handler\<rparr>) s
       \<lparr>m_ListenSocketList := l\<rparr>)))"
  using assms by (auto simp: no_clients_def serving_def)

lemma no_clients_standby:
  "standby_loop news oks i s = Inr s' \<Longrightarrow> no_clients s \<Longrightarrow> no_clients s'"
proof (induction news arbitrary: oks i s)
  case Nil
  then show ?case by (simp split: if_splits)
next
  case (Cons new news)
  show ?case
  proof (cases "i < length (m_ListenSocketList s) \<and> oks \<noteq> []")
    case False
    with Cons.prems(1,2) show ?thesis by (cases oks) (auto split: if_splits)
  next
    case True
    then obtain ok oks' where oks: "oks = ok # oks'" by (cases oks) auto
    obtain a s1 where get: "get_connection_item new s = (a, s1)" by fastforce
    have s1: "no_clients s1" using no_clients_get [OF Cons.prems(2), of new] by (simp add: get)
    show ?thesis
      using Cons.prems(1) True Cons.IH [OF _ no_clients_standby_conn [OF s1]]
      by (simp add: oks get Let_def case_prod_unfold fst_epoll split: if_splits)
  qed
qed

lemma no_clients_fill:
  "no_clients s \<Longrightarrow> no_clients (connectpool_fill news s)"
proof (induction news arbitrary: s)
  case Nil
  then show ?case by simp
next
  case (Cons new news)
  have "no_clients (upd_conn (fst new) (\<lambda>_. connection_new (snd new) (-1))
      (s\<lparr>m_connectionList := m_connectionList s @ [fst new],
         m_free_connectionList := m_free_connectionList s @ [fst new]\<rparr>))"
    using Cons.prems by (auto simp: no_clients_def serving_def connection_new_def)
  from Cons.IH [OF this] show ?case by simp
qed

lemma no_clients_epoll_event_init:
  assumes "epoll_event_init create_ok pool_news news oks s = Inr s'" "no_clients s"
  shows "no_clients s'"
proof -
  from assms(1) have run: "standby_loop news oks 0 (connectpool_init pool_news s) = Inr s'"
    by (simp add: epoll_event_init_def split: if_splits)
  have "no_clients (connectpool_init pool_news s)"
    using no_clients_fill [OF assms(2)] by (simp add: connectpool_init_def no_clients_def serving_def Let_def)
  from no_clients_standby [OF run this] show ?thesis .
qed

section \<open>The helper threads\<close>

text \<open>\<open>Initialize_SubProc\<close>: \<open>init_ok i\<close> are the answers of the four mutex initialisations and of
  \<open>sem_init\<close>, \<open>create_ok i\<close> those of \<open>pthread_create\<close> for the recycling, the send and the timer thread.\<close>

definition start_helper :: "bool \<Rightarrow> csocket \<Rightarrow> fault + csocket" where
  "start_helper ok s =
     (let s = s\<lparr>m_threadVector := m_threadVector s @ [\<lparr>running = False, ifshutdown = False\<rparr>]\<rparr>
      in if \<not> ok then Inl (ProcExit (-1)) else Inr s)"

definition Initialize_SubProc :: "(nat \<Rightarrow> bool) \<Rightarrow> (nat \<Rightarrow> bool) \<Rightarrow> csocket \<Rightarrow> fault + csocket" where
  "Initialize_SubProc init_ok create_ok s =
     (if \<not> list_all init_ok [0, 1, 2, 3, 4] then Inl (ProcExit (-1))
      else bindE (start_helper (create_ok 0) (s\<lparr>m_sendmutex := False, m_sendsem := 0\<rparr>)) (\<lambda>s.
           bindE (start_helper (create_ok 1) s) (\<lambda>s.
           if m_TimeEnable s = 1 then start_helper (create_ok 2) s else Inr s)))"

text \<open>\<open>Shutdown_SubProc\<close> in two parts, before and after the loop that waits until no helper is running.\<close>

definition Shutdown_request :: "csocket \<Rightarrow> csocket" where
  "Shutdown_request s = s\<lparr>m_threadVector := map (\<lambda>t. t\<lparr>ifshutdown := True\<rparr>) (m_threadVector s),
     m_sendsem := m_sendsem s + 1\<rparr>"

definition helpers_stopped :: "csocket \<Rightarrow> bool" where
  "helpers_stopped s \<longleftrightarrow> list_all (\<lambda>t. \<not> running t) (m_threadVector s)"

definition Shutdown_finish :: "csocket \<Rightarrow> csocket" where
  "Shutdown_finish s = timermap_clean (sendmsglist_clean (connectpool_clean (s\<lparr>m_threadVector := []\<rparr>)))"

text \<open>\<open>init_worker_process\<close>.\<close>

record worker_env =
  we_pool_threads :: "nat \<Rightarrow> bool"
  we_init :: "nat \<Rightarrow> bool"
  we_helpers :: "nat \<Rightarrow> bool"
  we_epoll :: bool
  we_pool_news :: "(addr \<times> connection) list"
  we_news :: "(addr \<times> connection) list"
  we_ctl :: "bool list"

definition init_worker_process :: "(string \<Rightarrow> int \<Rightarrow> int) \<Rightarrow> worker_env \<Rightarrow> world \<Rightarrow> fault + world" where
  "init_worker_process GetInt e w =
     bindE (Create (we_pool_threads e) (CThreadPool_Initialize_SubProc GetInt (g_threadpool w))) (\<lambda>p.
     bindE (Initialize_SubProc (we_init e) (we_helpers e) (g_socket w)) (\<lambda>s.
     bindE (epoll_event_init (we_epoll e) (we_pool_news e) (we_news e) (we_ctl e) s) (\<lambda>s.
     Inr (w\<lparr>g_socket := s, g_threadpool := p\<rparr>))))"

text \<open>A worker process starts with the socket object as the constructor, the configuration and the
  master's listening sockets leave it; the allocator gives each object an address of its own.\<close>

definition env_news_ok :: "worker_env \<Rightarrow> csocket \<Rightarrow> bool" where
  "env_news_ok e s \<longleftrightarrow> m_create_connections_count s = int (length (we_pool_news e)) \<and>
     distinct (map fst (we_pool_news e @ we_news e)) \<and> 0 \<notin> fst ` set (we_pool_news e @ we_news e)"

definition worker_init :: "world \<Rightarrow> bool" where
  "worker_init w \<longleftrightarrow> (\<exists>heap GetInt ports env s0 e.
     open_listen_sockets ports env (ReadConf GetInt (CSocket_new heap)) = (True, s0) \<and> env_news_ok e s0 \<and>
     init_worker_process GetInt e \<lparr>g_socket = s0, g_threadpool = CThreadPool_new, use_accept4 = True\<rparr> = Inr w)"

text \<open>Starting the helpers changes only the list of threads, the mutex and the semaphore.\<close>

lemma Initialize_SubProc_frame:
  assumes "Initialize_SubProc i c s = Inr s'"
  shows "\<exists>ts. s' = s\<lparr>m_threadVector := m_threadVector s @ ts, m_sendmutex := False, m_sendsem := 0\<rparr> \<and>
    ts = replicate (if m_TimeEnable s = 1 then 3 else 2) \<lparr>running = False, ifshutdown = False\<rparr>"
  using assms
  by (auto simp: Initialize_SubProc_def start_helper_def Let_def bindE_Inr_iff numeral_3_eq_3 numeral_2_eq_2
      split: if_splits)

lemma ReadConf_frame:
  "m_connectionList (ReadConf G s) = m_connectionList s" "m_free_connectionList (ReadConf G s) = m_free_connectionList s"
  "m_recy_connectionList (ReadConf G s) = m_recy_connectionList s"
  "m_recy_connection_count (ReadConf G s) = m_recy_connection_count s"
  "m_timermap (ReadConf G s) = m_timermap s" "m_timermap_size (ReadConf G s) = m_timermap_size s"
  "m_online_count (ReadConf G s) = m_online_count s" "conns (ReadConf G s) = conns s"
  "m_send_msgList (ReadConf G s) = m_send_msgList s"
  by (simp_all add: ReadConf_def Let_def)

lemma worker_init_idle:
  assumes "worker_init w"
  shows "sock_inv (g_socket w)" "no_clients (g_socket w)"
    "\<exists>p ok. m_msgqueue p = [] \<and> m_threadvec p = [] \<and> Create ok p = Inr (g_threadpool w)"
proof -
  from assms obtain heap GetInt ports env s0 e where
    o: "open_listen_sockets ports env (ReadConf GetInt (CSocket_new heap)) = (True, s0)" "env_news_ok e s0"
      "init_worker_process GetInt e \<lparr>g_socket = s0, g_threadpool = CThreadPool_new, use_accept4 = True\<rparr> = Inr w"
    unfolding worker_init_def by blast
  from o(3) obtain s1 where s1: "Initialize_SubProc (we_init e) (we_helpers e) s0 = Inr s1"
    and run: "epoll_event_init (we_epoll e) (we_pool_news e) (we_news e) (we_ctl e) s1 = Inr (g_socket w)"
    and pool: "Create (we_pool_threads e) (CThreadPool_Initialize_SubProc GetInt CThreadPool_new) = Inr (g_threadpool w)"
    by (auto simp: init_worker_process_def bindE_Inr_iff)
  note s0 = only_listen_sockets [OF o(1), unfolded only_listen_def]
  from Initialize_SubProc_frame [OF s1] obtain ts where
    s1_eq: "s1 = s0\<lparr>m_threadVector := ts, m_sendmutex := False, m_sendsem := 0\<rparr>" by blast
  have news: "m_create_connections_count s1 = int (length (we_pool_news e))"
    "distinct (map fst (we_pool_news e @ we_news e))" "0 \<notin> fst ` set (we_pool_news e @ we_news e)"
    using o(2) by (simp_all add: env_news_ok_def s1_eq)
  show "sock_inv (g_socket w)"
    by (rule sock_inv_epoll_event_init [OF run _ _ _ _ _ _ news])
      (unfold s1_eq, (subst s0, simp add: ReadConf_frame CSocket_new_def)+)
  have "no_clients s1"
    unfolding s1_eq by (subst s0) (simp add: no_clients_def serving_def ReadConf_frame CSocket_new_def)
  then show "no_clients (g_socket w)" by (rule no_clients_epoll_event_init [OF run])
  show "\<exists>p ok. m_msgqueue p = [] \<and> m_threadvec p = [] \<and> Create ok p = Inr (g_threadpool w)"
    using pool by (intro exI [of _ "CThreadPool_Initialize_SubProc GetInt CThreadPool_new"] exI [of _ "we_pool_threads e"])
      (simp add: CThreadPool_Initialize_SubProc_def CThreadPool_ReadConf_def CThreadPool_new_def)
qed

lemma worker_init_inv: "worker_init w \<Longrightarrow> sock_inv (g_socket w) \<and> online_inv (g_socket w)"
  using worker_init_idle(1,2) no_clients_online by blast

interpretation worker: invariant_of worker_init worker_step "\<lambda>w. sock_inv (g_socket w) \<and> online_inv (g_socket w)"
  by unfold_locales (auto dest: worker_init_inv worker_step_inv)

text \<open>C6. In every state a worker process can reach from its start-up -- through events of the epoll loop
  (accepting, reading, writing, closing), passes of the timer thread, visits of the recycling
  thread, rounds of the send thread and the processing of messages, in any order and with any
  answers of the operating system -- the pool and the timer queue are sound: no connection is free
  or waiting for release twice, or both, or while it is open; the counters equal the lengths of the
  queues; the timer queue is sorted with \<open>m_timer_value\<close> at its front and holds connections of the
  pool only.\<close>

theorem worker_state_sound:
  assumes "reach worker_init worker_step w"
  shows "pool_inv (g_socket w) \<and> timer_inv (g_socket w) \<and> timer_conns (g_socket w)"
  using worker.reach_inv [OF assms] by (simp add: sock_inv_def)

definition start_config :: "string \<Rightarrow> int \<Rightarrow> int" where
  "start_config name def = (if name = ''ListenPortCount'' then 1
     else if name = ''ConnectionsToCreate'' then 2 else def)"

definition start_listen :: "nat \<Rightarrow> listen_env" where
  "start_listen i = \<lparr>le_sock = 5, le_reuseaddr = True, le_reuseport = True, le_nonblock = True,
     le_bind = True, le_listen = True\<rparr>"

definition start_socket :: csocket where
  "start_socket = snd (open_listen_sockets (\<lambda>_. 9000) start_listen
     (ReadConf start_config (CSocket_new (\<lambda>_. zero_connection))))"

definition start_env :: worker_env where
  "start_env = \<lparr>we_pool_threads = (\<lambda>_. True), we_init = (\<lambda>_. True), we_helpers = (\<lambda>_. True), we_epoll = True,
     we_pool_news = [(1, zero_connection), (2, zero_connection)], we_news = [(3, zero_connection)], we_ctl = [True]\<rparr>"

definition start_example :: world where
  "start_example =
     (case init_worker_process start_config start_env
          \<lparr>g_socket = start_socket, g_threadpool = CThreadPool_new, use_accept4 = True\<rparr> of
        Inr w \<Rightarrow> w
      | Inl _ \<Rightarrow> \<lparr>g_socket = start_socket, g_threadpool = CThreadPool_new, use_accept4 = True\<rparr>)"

lemma start_init: "worker_init start_example"
proof -
  have "open_listen_sockets (\<lambda>_. 9000) start_listen (ReadConf start_config (CSocket_new (\<lambda>_. zero_connection))) =
      (True, start_socket)" by code_simp
  moreover have "env_news_ok start_env start_socket" by code_simp
  moreover have "isl (init_worker_process start_config start_env
      \<lparr>g_socket = start_socket, g_threadpool = CThreadPool_new, use_accept4 = True\<rparr>) = False" by code_simp
  then have "init_worker_process start_config start_env
      \<lparr>g_socket = start_socket, g_threadpool = CThreadPool_new, use_accept4 = True\<rparr> = Inr start_example"
    by (auto simp: start_example_def split: sum.splits)
  ultimately show ?thesis unfolding worker_init_def by blast
qed

theorem worker_state_sound_witness:
  "pool_inv (g_socket start_example) \<and> m_free_connectionList (g_socket start_example) = [2]"
proof
  show "pool_inv (g_socket start_example)"
    using worker_state_sound [OF reach_init [of worker_init, OF start_init]] by (rule conjunct1)
  show "m_free_connectionList (g_socket start_example) = [2]" by code_simp
qed

text \<open>C5. In every state a worker process can reach from its start-up, \<open>m_online_count\<close> is exactly the number
  of clients being served -- accepted connections whose descriptor is open -- and this number never
  exceeds the configured \<open>worker_connections\<close>; only accepted connections are in the timer queue.\<close>

theorem online_count_exact:
  assumes "reach worker_init worker_step w"
  shows "m_online_count (g_socket w) = int (card (serving (g_socket w))) \<and>
    card (serving (g_socket w)) \<le> nat (m_worker_connections (g_socket w)) \<and>
    (\<forall>e \<in> set (m_timermap (g_socket w)). lp_curconn (snd e) \<in> accepted (g_socket w))"
  using conjunct2 [OF worker.reach_inv [OF assms]] by (simp add: online_inv_def image_subset_iff)

text \<open>A worker with one client.\<close>

definition client_event :: event_env where
  "client_event = \<lparr>ee_os = quiet_env, ee_accept = accept_example\<lparr>ae_new := (4, zero_connection)\<rparr>,
     ee_accepts = [Accepted 9 []], ee_recv = \<lparr>ra_n = 0, ra_data = [], ra_errno = 0\<rparr>, ee_send = []\<rparr>"

definition client_example :: world where
  "client_example = (case process_event client_event EPOLLIN 1 start_example of Inr w \<Rightarrow> w | Inl _ \<Rightarrow> start_example)"

lemma client_reach: "reach worker_init worker_step client_example"
proof -
  have "\<not> isl (process_event client_event EPOLLIN 1 start_example)" by code_simp
  then have ev: "process_event client_event EPOLLIN 1 start_example = Inr client_example"
    by (cases "process_event client_event EPOLLIN 1 start_example") (simp_all add: client_example_def)
  have mem: "1 \<in> set (m_connectionList (g_socket start_example))" by code_simp
  have state: "m_connectionList (g_socket start_example) = [1, 2]" "m_timermap (g_socket start_example) = []"
    by code_simp+
  have ok: "env_ok client_event start_example"
    by (simp add: env_ok_def state client_event_def)
  have "worker_step start_example client_example" by (rule worker_step.event [OF ev mem ok]) simp
  with reach_init [of worker_init, OF start_init] show ?thesis by (rule reach_step)
qed

theorem online_count_exact_witness:
  "m_online_count (g_socket client_example) = 1 \<and> card (serving (g_socket client_example)) = 1"
proof -
  have "m_online_count (g_socket client_example) = 1" by code_simp
  with online_count_exact [OF client_reach] show ?thesis by simp
qed

end
