(* ===== verification/FmtString.thy ===== *)
theory FmtString
  imports Prelude
begin

text \<open>
  The string functions of \<open>app/func_string.cxx\<close>: trimming, and the formatting engine behind every
  log message. A C string is the list of its characters before the terminator; the buffer of
  \<open>fmt_string\<close> is a character array with a position in it, and \<open>lim\<close> stands for the position \<open>last\<close>.
\<close>

section \<open>Trimming\<close>

definition Ltrim :: "string \<Rightarrow> string" where
  "Ltrim line = dropWhile (\<lambda>c. c = CHR '' '') line"

definition rtrimmed :: "char \<Rightarrow> bool" where
  "rtrimmed c \<longleftrightarrow> c = CHR '' '' \<or> c = CHR 0x0A \<or> c = CHR 0x0D"

text \<open>\<open>Rtrim\<close> shortens its argument in place; the result is the argument, or a null pointer when
  nothing is left of it. The model returns the shortened string and the result.\<close>

function Rtrim :: "string \<Rightarrow> string \<times> string option" where
  "Rtrim s = (if length s > 0
     then if rtrimmed (s ! (length s - 1)) then Rtrim (take (length s - 1) s) else (s, Some s)
     else (s, None))"
  by pat_completeness auto
termination by (relation "measure length") auto

declare Rtrim.simps [simp del]

section \<open>Numbers\<close>

text \<open>The queue of digits the loops fill, lowest digit first.\<close>

function dec_units :: "u64 \<Rightarrow> string" where
  "dec_units v =
     (let unit = v mod 10; v' = (v - unit) div 10
      in char_of (unat unit + 48) # (if v' \<noteq> 0 then dec_units v' else []))"
  by pat_completeness auto

lemma unat_dec_step: "unat ((v - v mod 10) div 10 :: u64) = unat v div 10"
proof -
  have "unat (v - v mod 10) = unat v - unat v mod 10"
    by (simp add: unat_sub word_le_nat_alt unat_mod)
  then show ?thesis
    by (simp add: unat_div) (metis div_mult_mod_eq add_diff_cancel_right' nonzero_mult_div_cancel_right zero_neq_numeral)
qed

termination dec_units
proof (relation "measure unat")
  fix v unit v' :: u64
  assume "unit = v mod 10" "v' = (v - unit) div 10" "v' \<noteq> 0"
  then have "unat v' = unat v div 10" by (simp add: unat_dec_step)
  moreover have "0 < unat v'" using \<open>v' \<noteq> 0\<close> by (simp add: unat_gt_0)
  ultimately show "(v', v) \<in> measure unat" by simp
qed simp

declare dec_units.simps [simp del]

function hex_units :: "string \<Rightarrow> u64 \<Rightarrow> string" where
  "hex_units table v = (if v \<noteq> 0 then table ! unat (v AND 0x0f) # hex_units table (drop_bit 4 v) else [])"
  by pat_completeness auto
termination
proof (relation "measure (unat \<circ> snd)")
  fix table :: string and v :: u64
  assume "v \<noteq> 0"
  then have "unat v div 16 < unat v" by (simp add: unat_gt_0)
  then show "((table, drop_bit 4 v), table, v) \<in> measure (unat \<circ> snd)"
    by (simp add: unat_div drop_bit_eq_div)
qed simp

declare hex_units.simps [simp del]

definition num_units :: "nat \<Rightarrow> u64 \<Rightarrow> string" where
  "num_units hexadecimal v =
     (if hexadecimal = 0 then dec_units v
      else if hexadecimal = 1 then hex_units ''0123456789abcdef'' v
      else hex_units ''0123456789ABCDEF'' v)"

section \<open>Writing into the buffer\<close>

text \<open>\<open>*buf++ = c\<close> through a pointer that may be null.\<close>

definition put_char :: "char \<Rightarrow> nat option \<Rightarrow> string \<Rightarrow> fault + (nat option \<times> string)" where
  "put_char c buf mem = (case buf of None \<Rightarrow> Inl BadAccess
     | Some p \<Rightarrow> if p < length mem then Inr (Some (p + 1), mem[p := c]) else Inl BadAccess)"

text \<open>The loop \<open>*buf-- = c\<close> that stores characters from the last position to the first.\<close>

fun store_back :: "string \<Rightarrow> nat \<Rightarrow> string \<Rightarrow> fault + string" where
  "store_back [] p mem = Inr mem"
| "store_back (c # cs) p mem =
     (if p < length mem then store_back cs (p - 1) (mem[p := c]) else Inl BadAccess)"

fun store_forward :: "string \<Rightarrow> nat \<Rightarrow> string \<Rightarrow> fault + string" where
  "store_forward [] p mem = Inr mem"
| "store_forward (c # cs) p mem =
     (if p < length mem then store_forward cs (p + 1) (mem[p := c]) else Inl BadAccess)"

text \<open>\<open>ui64_string\<close>: the lowest \<open>width\<close> digits, filled up with \<open>zero\<close> on the left. The test \<open>buf < last\<close>
  is made after \<open>buf += (width-1)\<close>; the addresses are those of one array, so it is \<open>p + width \<le> lim\<close>
  (for \<open>width = 0\<close> the pointer moves back by one).\<close>

definition ui64_string ::
  "nat \<Rightarrow> nat \<Rightarrow> u64 \<Rightarrow> char \<Rightarrow> nat \<Rightarrow> u64 \<Rightarrow> string \<Rightarrow> fault + (nat option \<times> string)" where
  "ui64_string lim p v zero hexadecimal width mem =
     (let units = num_units hexadecimal v;
          non_zero = length units;
          w = (if width = 0 then non_zero else unat width);
          shown = (if width = 0 then non_zero else min non_zero w)
      in if int p + (int w - 1) < int lim then
           bindE (store_back (take shown units @ replicate (w - shown) zero) (p + w - 1) mem)
             (\<lambda>mem. Inr (Some (p + w), mem))
         else Inr (None, mem))"

text \<open>\<open>frac_string\<close>: the highest \<open>width_frac\<close> digits, filled up on the right; only the first position
  is compared with \<open>lim\<close>.\<close>

definition frac_string ::
  "nat \<Rightarrow> nat option \<Rightarrow> u64 \<Rightarrow> char \<Rightarrow> nat \<Rightarrow> u64 \<Rightarrow> string \<Rightarrow> fault + (nat option \<times> string)" where
  "frac_string lim buf v zero hexadecimal width_frac mem =
     (let units = num_units hexadecimal v;
          non_zero = length units;
          w = (if width_frac = 0 then non_zero else unat width_frac);
          shown = (if width_frac = 0 then non_zero else min non_zero w)
      in case buf of
           None \<Rightarrow> Inl BadAccess
         | Some p \<Rightarrow> if p < lim then
             bindE (store_forward (take shown (rev units) @ replicate (w - shown) zero) p mem)
               (\<lambda>mem. Inr (Some (p + w), mem))
           else Inr (None, mem))"

section \<open>Directives\<close>

text \<open>An optional argument of the call: a 32-bit integer, a string, or a \<open>double\<close> given by its sign and
  the integer part of its magnitude, which is all of it the code looks at.\<close>

datatype fmt_arg = ArgInt u32 | ArgStr string | ArgDouble bool u64

record fmt_spec =
  zero :: char
  width :: u64
  sign :: bool
  hex :: nat
  width_frac :: u64

definition is_digit :: "char \<Rightarrow> bool" where
  "is_digit c \<longleftrightarrow> 48 \<le> (of_char c :: nat) \<and> (of_char c :: nat) \<le> 57"

fun parse_number :: "string \<Rightarrow> u64 \<Rightarrow> u64 \<times> string" where
  "parse_number [] n = (n, [])"
| "parse_number (c # f) n =
     (if is_digit c then parse_number f (n * 10 + (of_nat (of_char c) - 48)) else (n, c # f))"

text \<open>The loop over \<open>u\<close>, \<open>X\<close>, \<open>x\<close> and the precision that ends it.\<close>

fun parse_flags :: "string \<Rightarrow> fmt_spec \<Rightarrow> fmt_spec \<times> string" where
  "parse_flags [] sp = (sp, [])"
| "parse_flags (c # f) sp =
     (if c = CHR ''u'' then parse_flags f (sp\<lparr>sign := False\<rparr>)
      else if c = CHR ''X'' then parse_flags f (sp\<lparr>hex := 2, sign := False\<rparr>)
      else if c = CHR ''x'' then parse_flags f (sp\<lparr>hex := 1, sign := False\<rparr>)
      else if c = CHR ''.'' then (let (n, f) = parse_number f 0 in (sp\<lparr>width_frac := n\<rparr>, f))
      else (sp, c # f))"

definition parse_spec :: "string \<Rightarrow> fmt_spec \<times> string" where
  "parse_spec f =
     (let z = (if f \<noteq> [] \<and> hd f = CHR ''0'' then CHR ''0'' else CHR '' '');
          (n, f) = parse_number f 0
      in parse_flags f \<lparr>zero = z, width = n, sign = True, hex = 0, width_frac = 0\<rparr>)"

lemma length_parse_number: "parse_number f n = (m, f') \<Longrightarrow> length f' \<le> length f"
  by (induction f n rule: parse_number.induct) (auto split: if_splits)

lemma length_parse_flags: "parse_flags f sp = (sp', f') \<Longrightarrow> length f' \<le> length f"
  by (induction f sp rule: parse_flags.induct)
    (auto split: if_splits prod.splits dest!: length_parse_number)

lemma length_parse_spec: "parse_spec f = (sp, f') \<Longrightarrow> length f' \<le> length f"
  by (auto simp: parse_spec_def Let_def split: prod.splits dest!: length_parse_number length_parse_flags)

lemma length_after_conversion:
  "(sp, f) = parse_spec (tl fmt) \<Longrightarrow> fmt \<noteq> [] \<Longrightarrow> length f - Suc 0 < length fmt"
  using length_parse_spec [of "tl fmt" sp f] by (cases fmt) auto

section \<open>fmt_string\<close>

text \<open>The number at the end of the loop body, for \<open>%d\<close> and \<open>%p\<close>.\<close>

definition put_int ::
  "nat \<Rightarrow> fmt_spec \<Rightarrow> u32 \<Rightarrow> nat option \<Rightarrow> string \<Rightarrow> fault + (nat option \<times> string)" where
  "put_int lim sp w buf mem =
     (let i64 = (if sign sp then sint w else 0);
          v = (if sign sp then word_of_int (if i64 < 0 then - i64 else i64) else ucast w :: u64)
      in bindE (if sign sp \<and> i64 < 0 then put_char CHR ''-'' buf mem else Inr (buf, mem)) (\<lambda>(buf, mem).
         case buf of None \<Rightarrow> Inl BadAccess
         | Some p \<Rightarrow> ui64_string lim p v (zero sp) (hex sp) (width sp) mem))"

definition put_str :: "nat \<Rightarrow> string \<Rightarrow> nat option \<Rightarrow> string \<Rightarrow> fault + (nat option \<times> string)" where
  "put_str lim s buf mem = (case buf of
      None \<Rightarrow> if s = [] then Inr (None, mem) else Inl BadAccess
    | Some p \<Rightarrow>
        bindE (if p + length s < lim then store_forward s p mem else Inr mem)
          (\<lambda>mem. Inr (Some (p + length s), mem)))"

text \<open>\<open>%f\<close>: the precision digits come from \<open>frac_string\<close> of the number itself.\<close>

definition put_double ::
  "nat \<Rightarrow> fmt_spec \<Rightarrow> bool \<Rightarrow> u64 \<Rightarrow> nat option \<Rightarrow> string \<Rightarrow> fault + (nat option \<times> string)" where
  "put_double lim sp neg v buf mem =
     bindE (if neg then put_char CHR ''-'' buf mem else Inr (buf, mem)) (\<lambda>(buf, mem).
     case buf of None \<Rightarrow> Inl BadAccess
     | Some p \<Rightarrow> bindE (ui64_string lim p v (zero sp) 0 (width sp) mem) (\<lambda>(buf, mem).
         if width_frac sp \<noteq> 0 then
           bindE (if (case buf of None \<Rightarrow> True | Some p \<Rightarrow> p < lim) then put_char CHR ''.'' buf mem
                  else Inr (buf, mem))
             (\<lambda>(buf, mem). frac_string lim buf v CHR ''0'' 0 (width_frac sp) mem)
         else Inr (buf, mem)))"

text \<open>The switch on the conversion character. A missing argument, or one of another type, is undefined.\<close>

definition convert ::
  "nat \<Rightarrow> fmt_spec \<Rightarrow> char \<Rightarrow> fmt_arg list \<Rightarrow> nat option \<Rightarrow> string \<Rightarrow>
   fault + (fmt_arg list \<times> nat option \<times> string)" where
  "convert lim sp c args buf mem =
     (if c = CHR ''%'' then bindE (put_char CHR ''%'' buf mem) (\<lambda>r. Inr (args, r))
      else if c = CHR ''d'' then
        (case args of ArgInt w # args \<Rightarrow> bindE (put_int lim sp w buf mem) (\<lambda>r. Inr (args, r))
         | _ \<Rightarrow> Inl BadAccess)
      else if c = CHR ''s'' then
        (case args of ArgStr s # args \<Rightarrow> bindE (put_str lim s buf mem) (\<lambda>r. Inr (args, r))
         | _ \<Rightarrow> Inl BadAccess)
      else if c = CHR ''p'' then
        (case args of ArgInt w # args \<Rightarrow>
             bindE (put_int lim (sp\<lparr>sign := True\<rparr>) w buf mem) (\<lambda>r. Inr (args, r))
         | _ \<Rightarrow> Inl BadAccess)
      else if c = CHR ''f'' then
        (case args of ArgDouble neg v # args \<Rightarrow>
             bindE (put_double lim sp neg v buf mem) (\<lambda>r. Inr (args, r))
         | _ \<Rightarrow> Inl BadAccess)
      else bindE (put_char c buf mem) (\<lambda>r. Inr (args, r)))"

text \<open>A null pointer compares below every position. A \<open>%\<close> at the end of the format makes the loop step
  over the terminator.\<close>

definition before :: "nat option \<Rightarrow> nat \<Rightarrow> bool" where
  "before buf lim = (case buf of None \<Rightarrow> True | Some p \<Rightarrow> p < lim)"

function fmt_string ::
  "nat \<Rightarrow> string \<Rightarrow> fmt_arg list \<Rightarrow> nat option \<Rightarrow> string \<Rightarrow> fault + (nat option \<times> string)" where
  "fmt_string lim fmt args buf mem =
     (if fmt = [] \<or> \<not> before buf lim then Inr (buf, mem)
      else if hd fmt = CHR ''%'' then
        (let (sp, f) = parse_spec (tl fmt) in
         if f = [] then Inl BadAccess
         else case convert lim sp (hd f) args buf mem of
             Inl e \<Rightarrow> Inl e
           | Inr (args, buf, mem) \<Rightarrow> fmt_string lim (tl f) args buf mem)
      else case put_char (hd fmt) buf mem of
             Inl e \<Rightarrow> Inl e
           | Inr (buf, mem) \<Rightarrow> fmt_string lim (tl fmt) args buf mem)"
  by pat_completeness auto
termination
  by (relation "measure (\<lambda>(_, fmt, _). length fmt)") (auto simp: length_after_conversion)

declare fmt_string.simps [simp del]

section \<open>Effect of the stores\<close>

lemma write_at_append:
  "off + length xs + length ys \<le> length mem \<Longrightarrow>
   write_at (write_at mem off xs) (off + length xs) ys = write_at mem off (xs @ ys)"
  by (cases xs) (auto simp: write_at_def min_def ac_simps)

lemma write_at_single: "p < length mem \<Longrightarrow> mem[p := c] = write_at mem p [c]"
  by (simp add: write_at_def upd_conv_take_nth_drop)

lemma put_char_eq: "p < length mem \<Longrightarrow> put_char c (Some p) mem = Inr (Some (p + 1), write_at mem p [c])"
  by (simp add: put_char_def write_at_single)

lemma store_forward_eq:
  "p + length cs \<le> length mem \<Longrightarrow> store_forward cs p mem = Inr (write_at mem p cs)"
proof (induction cs arbitrary: p mem)
  case Nil
  then show ?case by simp
next
  case (Cons c cs)
  then have "store_forward (c # cs) p mem = Inr (write_at (write_at mem p [c]) (p + 1) cs)"
    by (simp add: write_at_single)
  then show ?case using Cons.prems write_at_append [of p "[c]" cs mem] by simp
qed

lemma store_back_eq:
  "length cs \<le> p + 1 \<Longrightarrow> p < length mem \<Longrightarrow>
   store_back cs p mem = Inr (write_at mem (p + 1 - length cs) (rev cs))"
proof (induction cs arbitrary: p mem)
  case Nil
  then show ?case by simp
next
  case (Cons c cs)
  show ?case
  proof (cases "cs = []")
    case True
    with Cons.prems show ?thesis by (simp add: write_at_single)
  next
    case False
    with Cons.prems(1) have p: "0 < p" "length cs \<le> p" by (cases cs; simp)+
    have "store_back (c # cs) p mem = Inr (write_at (mem[p := c]) (p - length cs) (rev cs))"
      using Cons.prems p by (simp add: Cons.IH)
    also have "write_at (mem[p := c]) (p - length cs) (rev cs) = write_at mem (p - length cs) (rev (c # cs))"
      using Cons.prems(2) p by (simp add: write_at_def take_update_cancel upd_conv_take_nth_drop drop_update_cancel)
    finally show ?thesis using p by simp
  qed
qed

section \<open>The text of a number\<close>

definition num_text :: "char \<Rightarrow> nat \<Rightarrow> u64 \<Rightarrow> u64 \<Rightarrow> string" where
  "num_text z h w v =
     (let u = num_units h v
      in if w = 0 then rev u else replicate (unat w - length u) z @ rev (take (unat w) u))"

definition frac_text :: "u64 \<Rightarrow> u64 \<Rightarrow> string" where
  "frac_text w v =
     (let u = rev (num_units 0 v) in take (unat w) u @ replicate (unat w - length u) CHR ''0'')"

lemma ui64_string_eq:
  assumes "p + length (num_text z h w v) \<le> lim" "p + length (num_text z h w v) \<le> length mem"
  shows "ui64_string lim p v z h w mem =
    Inr (Some (p + length (num_text z h w v)), write_at mem p (num_text z h w v))"
proof -
  let ?u = "num_units h v"
  define n where "n = (if w = 0 then length ?u else unat w)"
  define cs where "cs = take (if w = 0 then length ?u else min (length ?u) n) ?u @
    replicate (n - (if w = 0 then length ?u else min (length ?u) n)) z"
  have tx: "rev cs = num_text z h w v"
    by (cases "length ?u \<le> unat w") (simp_all add: cs_def n_def num_text_def Let_def min_def)
  have len: "length cs = n" by (simp add: cs_def n_def min_def)
  then have w: "length (num_text z h w v) = n" by (simp flip: tx)
  have "ui64_string lim p v z h w mem =
      bindE (store_back cs (p + n - 1) mem) (\<lambda>mem. Inr (Some (p + n), mem))"
    using assms(1) unfolding w by (simp add: ui64_string_def Let_def cs_def n_def)
  also have "\<dots> = Inr (Some (p + n), write_at mem p (rev cs))"
  proof (cases "n = 0")
    case True
    with len show ?thesis by simp
  next
    case False
    have "store_back cs (p + n - 1) mem = Inr (write_at mem (p + n - 1 + 1 - length cs) (rev cs))"
      by (rule store_back_eq) (use assms w False in \<open>auto simp: len\<close>)
    then show ?thesis using False len by simp
  qed
  finally show ?thesis unfolding tx w .
qed

lemma ui64_string_no_room:
  assumes "lim < p + length (num_text z h w v)" "num_text z h w v \<noteq> []"
  shows "ui64_string lim p v z h w mem = Inr (None, mem)"
proof -
  have "length (num_text z h w v) = (if w = 0 then length (num_units h v) else unat w)"
    by (simp add: num_text_def Let_def min_def)
  with assms show ?thesis by (simp add: ui64_string_def Let_def)
qed

lemma frac_string_eq:
  assumes "p < lim" "p + unat w \<le> length mem" "w \<noteq> 0"
  shows "frac_string lim (Some p) v CHR ''0'' 0 w mem = Inr (Some (p + unat w), write_at mem p (frac_text w v))"
proof -
  let ?u = "rev (num_units 0 v)"
  have cs: "take (min (length ?u) (unat w)) ?u @ replicate (unat w - min (length ?u) (unat w)) CHR ''0'' = frac_text w v"
    by (cases "length ?u \<le> unat w") (simp_all add: frac_text_def Let_def min_def)
  have "length (frac_text w v) = unat w" by (simp add: frac_text_def Let_def)
  then show ?thesis
    using assms cs by (simp add: frac_string_def Let_def store_forward_eq)
qed

section \<open>The text a format stands for\<close>

text \<open>The reference semantics: what a call prints when there is room for it, as a function from the
  format and the arguments to a string, without buffers and positions.\<close>

definition int_text :: "fmt_spec \<Rightarrow> u32 \<Rightarrow> string" where
  "int_text sp w =
     (if sign sp then
        (if sint w < 0 then ''-'' @ num_text (zero sp) (hex sp) (width sp) (word_of_int (- sint w))
         else num_text (zero sp) (hex sp) (width sp) (word_of_int (sint w)))
      else num_text (zero sp) (hex sp) (width sp) (ucast w))"

definition double_text :: "fmt_spec \<Rightarrow> bool \<Rightarrow> u64 \<Rightarrow> string" where
  "double_text sp neg v = (if neg then ''-'' else []) @ num_text (zero sp) 0 (width sp) v @
     (if width_frac sp \<noteq> 0 then ''.'' @ frac_text (width_frac sp) v else [])"

definition directive :: "fmt_spec \<Rightarrow> char \<Rightarrow> fmt_arg list \<Rightarrow> (string \<times> fmt_arg list) option" where
  "directive sp c args =
     (if c = CHR ''%'' then Some (''%'', args)
      else if c = CHR ''d'' then
        (case args of ArgInt w # args \<Rightarrow> Some (int_text sp w, args) | _ \<Rightarrow> None)
      else if c = CHR ''s'' then
        (case args of ArgStr s # args \<Rightarrow> Some (s, args) | _ \<Rightarrow> None)
      else if c = CHR ''p'' then
        (case args of ArgInt w # args \<Rightarrow> Some (int_text (sp\<lparr>sign := True\<rparr>) w, args) | _ \<Rightarrow> None)
      else if c = CHR ''f'' then
        (case args of ArgDouble neg v # args \<Rightarrow> Some (double_text sp neg v, args) | _ \<Rightarrow> None)
      else Some ([c], args))"

function render :: "string \<Rightarrow> fmt_arg list \<Rightarrow> string option" where
  "render fmt args =
     (if fmt = [] then Some []
      else if hd fmt = CHR ''%'' then
        (let (sp, f) = parse_spec (tl fmt) in
         if f = [] then None
         else case directive sp (hd f) args of
             None \<Rightarrow> None
           | Some (s, args) \<Rightarrow> map_option ((@) s) (render (tl f) args))
      else map_option ((#) (hd fmt)) (render (tl fmt) args))"
  by pat_completeness auto
termination
  by (relation "measure (\<lambda>(fmt, _). length fmt)") (auto simp: length_after_conversion)

declare render.simps [simp del]

lemma put_int_eq:
  assumes "p + length (int_text sp w) \<le> lim" "p + length (int_text sp w) \<le> length mem"
  shows "put_int lim sp w (Some p) mem = Inr (Some (p + length (int_text sp w)), write_at mem p (int_text sp w))"
proof (cases "sign sp \<and> sint w < 0")
  case False
  with assms show ?thesis by (auto simp: put_int_def int_text_def Let_def ui64_string_eq)
next
  case True
  let ?s = "num_text (zero sp) (hex sp) (width sp) (word_of_int (- sint w))"
  have s: "int_text sp w = ''-'' @ ?s" using True by (simp add: int_text_def)
  have "put_int lim sp w (Some p) mem = ui64_string lim (p + 1) (word_of_int (- sint w)) (zero sp) (hex sp) (width sp)
      (write_at mem p ''-'')"
    using True assms unfolding s by (simp add: put_int_def Let_def put_char_eq)
  also have "\<dots> = Inr (Some (p + 1 + length ?s), write_at (write_at mem p ''-'') (p + 1) ?s)"
    by (rule ui64_string_eq) (use assms in \<open>auto simp: s\<close>)
  finally show ?thesis using assms write_at_append [of p "''-''" ?s mem] by (simp add: s)
qed

lemma put_str_eq:
  assumes "p + length s < lim" "p + length s \<le> length mem"
  shows "put_str lim s (Some p) mem = Inr (Some (p + length s), write_at mem p s)"
  using assms by (simp add: put_str_def store_forward_eq)

lemma length_frac_text [simp]: "length (frac_text w v) = unat w"
  by (simp add: frac_text_def Let_def)

lemma put_double_eq:
  assumes "p + length (double_text sp neg v) < lim" "p + length (double_text sp neg v) \<le> length mem"
  shows "put_double lim sp neg v (Some p) mem =
    Inr (Some (p + length (double_text sp neg v)), write_at mem p (double_text sp neg v))"
proof -
  define pre where "pre = (if neg then ''-'' else [])"
  define s where "s = num_text (zero sp) 0 (width sp) v"
  define q where "q = p + length pre"
  have d: "double_text sp neg v = pre @ s @ (if width_frac sp \<noteq> 0 then ''.'' @ frac_text (width_frac sp) v else [])"
    by (simp add: double_text_def pre_def s_def)
  define e where "e = q + length s + (if width_frac sp \<noteq> 0 then 1 + unat (width_frac sp) else 0)"
  have room: "q + length s < lim" "e < lim" "e \<le> length mem" "q + length s \<le> length mem"
    using assms by (auto simp: d q_def e_def split: if_splits)
  have m: "(if neg then put_char CHR ''-'' (Some p) mem else Inr (Some p, mem)) = Inr (Some q, write_at mem p pre)"
    using room by (cases neg) (simp_all add: pre_def q_def put_char_eq)
  have len: "length (write_at mem p pre) = length mem" using room by (simp add: q_def)
  have u: "ui64_string lim q v (zero sp) 0 (width sp) (write_at mem p pre) =
      Inr (Some (q + length s), write_at mem p (pre @ s))"
    using room len write_at_append [of p pre s mem]
    by (simp add: ui64_string_eq s_def [symmetric] q_def)
  show ?thesis
  proof (cases "width_frac sp = 0")
    case True
    then show ?thesis using m u by (simp add: put_double_def d q_def add.assoc)
  next
    case False
    define r where "r = q + length s"
    have dot: "put_char CHR ''.'' (Some r) (write_at mem p (pre @ s)) =
        Inr (Some (r + 1), write_at mem p (pre @ s @ ''.''))"
      using room write_at_append [of p "pre @ s" "''.''" mem]
      by (simp add: put_char_eq r_def q_def e_def False add.assoc)
    have fr: "frac_string lim (Some (r + 1)) v CHR ''0'' 0 (width_frac sp) (write_at mem p (pre @ s @ ''.'')) =
        Inr (Some (r + 1 + unat (width_frac sp)), write_at mem p ((pre @ s @ ''.'') @ frac_text (width_frac sp) v))"
      using room False write_at_append [of p "pre @ s @ ''.''" "frac_text (width_frac sp) v" mem]
      by (subst frac_string_eq) (auto simp: r_def q_def e_def add.assoc)
    show ?thesis
      using m u dot fr room False by (simp add: put_double_def d r_def q_def e_def add.assoc)
  qed
qed

lemma convert_eq:
  assumes "directive sp c args = Some (s, args')" "p + length s < lim" "p + length s \<le> length mem"
  shows "convert lim sp c args (Some p) mem = Inr (args', Some (p + length s), write_at mem p s)"
  using assms
  by (auto simp: convert_def directive_def put_char_eq put_int_eq put_str_eq put_double_eq
      split: if_splits list.splits fmt_arg.splits)

lemma fmt_string_render:
  "render fmt args = Some s \<Longrightarrow> p + length s < lim \<Longrightarrow> p + length s \<le> length mem \<Longrightarrow>
   fmt_string lim fmt args (Some p) mem = Inr (Some (p + length s), write_at mem p s)"
proof (induction fmt args arbitrary: p s mem rule: render.induct)
  case (1 fmt args)
  show ?case
  proof (cases "fmt = []")
    case True
    with 1(3) have "s = []" by (simp add: render.simps)
    with True show ?thesis by (simp add: fmt_string.simps)
  next
    case ne: False
    have lt: "p < lim" using 1(4) by simp
    show ?thesis
    proof (cases "hd fmt = CHR ''%''")
      case False
      with ne 1(3) obtain s' where s': "render (tl fmt) args = Some s'" "s = hd fmt # s'"
        by (auto simp: render.simps [of fmt])
      have "fmt_string lim (tl fmt) args (Some (p + 1)) (write_at mem p [hd fmt]) =
          Inr (Some (p + 1 + length s'), write_at (write_at mem p [hd fmt]) (p + 1) s')"
        by (rule 1(2) [OF ne False s'(1)]) (use 1(4,5) in \<open>auto simp: s'(2)\<close>)
      with ne False lt 1(4,5) show ?thesis
        using write_at_append [of p "[hd fmt]" s' mem]
        by (simp add: fmt_string.simps [of _ fmt] before_def put_char_eq s'(2))
    next
      case True
      obtain sp f where ps: "parse_spec (tl fmt) = (sp, f)" by fastforce
      with ne True 1(3) obtain s1 args1 s2 where d: "f \<noteq> []" "directive sp (hd f) args = Some (s1, args1)"
        "render (tl f) args1 = Some s2" "s = s1 @ s2"
        by (auto simp: render.simps [of fmt] split: if_splits option.splits)
      have c: "convert lim sp (hd f) args (Some p) mem = Inr (args1, Some (p + length s1), write_at mem p s1)"
        by (rule convert_eq [OF d(2)]) (use 1(4,5) d(4) in auto)
      have "fmt_string lim (tl f) args1 (Some (p + length s1)) (write_at mem p s1) =
          Inr (Some (p + length s1 + length s2), write_at (write_at mem p s1) (p + length s1) s2)"
        by (rule 1(1) [OF ne True ps [symmetric] refl d(1,2) refl d(3)]) (use 1(4,5) d(4) in auto)
      with ne True lt ps d c 1(4,5) show ?thesis
        using write_at_append [of p s1 s2 mem]
        by (simp add: fmt_string.simps [of _ fmt] before_def add.assoc)
    qed
  qed
qed

section \<open>Calls that go wrong\<close>

text \<open>The text a call prints before it meets a directive its arguments do not fit, if it does.\<close>

function faults_after :: "string \<Rightarrow> fmt_arg list \<Rightarrow> string option" where
  "faults_after fmt args =
     (if fmt = [] then None
      else if hd fmt = CHR ''%'' then
        (let (sp, f) = parse_spec (tl fmt) in
         if f = [] then Some []
         else case directive sp (hd f) args of
             None \<Rightarrow> Some []
           | Some (s, args) \<Rightarrow> map_option ((@) s) (faults_after (tl f) args))
      else map_option ((#) (hd fmt)) (faults_after (tl fmt) args))"
  by pat_completeness auto
termination
  by (relation "measure (\<lambda>(fmt, _). length fmt)") (auto simp: length_after_conversion)

declare faults_after.simps [simp del]

lemma convert_fault: "directive sp c args = None \<Longrightarrow> convert lim sp c args buf mem = Inl BadAccess"
  by (auto simp: convert_def directive_def split: if_splits list.splits fmt_arg.splits)

lemma fmt_string_faults:
  "faults_after fmt args = Some s \<Longrightarrow> p + length s < lim \<Longrightarrow> p + length s \<le> length mem \<Longrightarrow>
   fmt_string lim fmt args (Some p) mem = Inl BadAccess"
proof (induction fmt args arbitrary: p s mem rule: faults_after.induct)
  case (1 fmt args)
  have ne: "fmt \<noteq> []" using 1(3) by (auto simp: faults_after.simps)
  have lt: "p < lim" using 1(4) by simp
  show ?case
  proof (cases "hd fmt = CHR ''%''")
    case False
    with ne 1(3) obtain s' where s': "faults_after (tl fmt) args = Some s'" "s = hd fmt # s'"
      by (auto simp: faults_after.simps [of fmt])
    have "fmt_string lim (tl fmt) args (Some (p + 1)) (write_at mem p [hd fmt]) = Inl BadAccess"
      by (rule 1(2) [OF ne False s'(1)]) (use 1(4,5) in \<open>auto simp: s'(2)\<close>)
    with ne False lt 1(5) show ?thesis
      by (simp add: fmt_string.simps [of _ fmt] before_def put_char_eq s'(2))
  next
    case True
    obtain sp f where ps: "parse_spec (tl fmt) = (sp, f)" by fastforce
    show ?thesis
    proof (cases "f = [] \<or> directive sp (hd f) args = None")
      case bad: True
      with ne True lt ps show ?thesis
        by (auto simp: fmt_string.simps [of _ fmt] before_def convert_fault)
    next
      case False
      with ne True ps 1(3) obtain s1 args1 s2 where d: "f \<noteq> []" "directive sp (hd f) args = Some (s1, args1)"
        "faults_after (tl f) args1 = Some s2" "s = s1 @ s2"
        by (auto simp: faults_after.simps [of fmt] split: option.splits)
      have c: "convert lim sp (hd f) args (Some p) mem = Inr (args1, Some (p + length s1), write_at mem p s1)"
        by (rule convert_eq [OF d(2)]) (use 1(4,5) d(4) in auto)
      have "fmt_string lim (tl f) args1 (Some (p + length s1)) (write_at mem p s1) = Inl BadAccess"
        by (rule 1(1) [OF ne True ps [symmetric] refl d(1,2) refl d(3)]) (use 1(4,5) d(4) in auto)
      with ne True lt ps d(1) c show ?thesis
        by (simp add: fmt_string.simps [of _ fmt] before_def)
    qed
  qed
qed

section \<open>Where the engine writes\<close>

text \<open>The part of the memory outside the buffer \<open>[p, lim)\<close>.\<close>

definition outside_same :: "nat \<Rightarrow> nat \<Rightarrow> string \<Rightarrow> string \<Rightarrow> bool" where
  "outside_same p lim mem mem' \<longleftrightarrow>
     length mem' = length mem \<and> (\<forall>i < length mem. i < p \<or> lim \<le> i \<longrightarrow> mem' ! i = mem ! i)"

definition no_double :: "fmt_arg list \<Rightarrow> bool" where
  "no_double args \<longleftrightarrow> (\<forall>neg v. ArgDouble neg v \<notin> set args)"

text \<open>The position after a call: null, or not before the position at its beginning.\<close>

definition at_least :: "nat \<Rightarrow> nat option \<Rightarrow> bool" where
  "at_least p buf \<longleftrightarrow> (case buf of None \<Rightarrow> True | Some q \<Rightarrow> p \<le> q)"

lemma outside_same_refl: "outside_same p lim mem mem"
  by (simp add: outside_same_def)

lemma outside_same_trans:
  "outside_same p lim a b \<Longrightarrow> outside_same q lim b c \<Longrightarrow> p \<le> q \<Longrightarrow> outside_same p lim a c"
  by (auto simp: outside_same_def)

lemma outside_same_update: "p \<le> q \<Longrightarrow> q < lim \<Longrightarrow> outside_same p lim mem (mem[q := c])"
  by (auto simp: outside_same_def nth_list_update)

lemma put_char_outside:
  "put_char c (Some q) mem = Inr (b, mem') \<Longrightarrow> p \<le> q \<Longrightarrow> q < lim \<Longrightarrow>
   outside_same p lim mem mem' \<and> b = Some (q + 1)"
  by (auto simp: put_char_def outside_same_update split: if_splits)

lemma store_forward_outside:
  "store_forward cs q mem = Inr mem' \<Longrightarrow> p \<le> q \<Longrightarrow> q + length cs \<le> lim \<Longrightarrow> outside_same p lim mem mem'"
proof (induction cs arbitrary: q mem)
  case (Cons c cs)
  then have "outside_same p lim (mem[q := c]) mem'"
    by (intro Cons.IH [of "q + 1"]) (auto split: if_splits)
  with Cons.prems show ?case
    using outside_same_trans [OF outside_same_update [of p q lim mem c]] by auto
qed (simp add: outside_same_refl)

lemma store_back_outside:
  "store_back cs q mem = Inr mem' \<Longrightarrow> q < lim \<Longrightarrow> p + length cs \<le> q + 1 \<Longrightarrow> outside_same p lim mem mem'"
proof (induction cs arbitrary: q mem)
  case (Cons c cs)
  show ?case
  proof (cases cs)
    case Nil
    with Cons.prems show ?thesis by (auto simp: outside_same_update split: if_splits)
  next
    case (Cons c' cs')
    with Cons.prems have "outside_same p lim (mem[q := c]) mem'"
      by (intro Cons.IH [of "q - 1"]) (auto split: if_splits)
    with Cons.prems show ?thesis
      using outside_same_trans [OF outside_same_update [of p q lim mem c]] by auto
  qed
qed (simp add: outside_same_refl)

lemma ui64_string_outside:
  assumes "ui64_string lim q v z h w mem = Inr (b, mem')" "p \<le> q"
  shows "outside_same p lim mem mem' \<and> at_least q b"
proof -
  define n where "n = (if w = 0 then length (num_units h v) else unat w)"
  define cs where "cs = take (if w = 0 then length (num_units h v) else min (length (num_units h v)) n) (num_units h v) @
    replicate (n - (if w = 0 then length (num_units h v) else min (length (num_units h v)) n)) z"
  have len: "length cs = n" by (simp add: cs_def n_def min_def)
  have eq: "ui64_string lim q v z h w mem = (if int q + (int n - 1) < int lim then
      bindE (store_back cs (q + n - 1) mem) (\<lambda>mem. Inr (Some (q + n), mem)) else Inr (None, mem))"
    by (simp add: ui64_string_def Let_def cs_def n_def)
  show ?thesis
  proof (cases "int q + (int n - 1) < int lim")
    case False
    with assms show ?thesis by (simp add: eq outside_same_refl at_least_def)
  next
    case True
    with assms(1) have s: "store_back cs (q + n - 1) mem = Inr mem'" "b = Some (q + n)"
      by (auto simp: eq bindE_Inr_iff)
    have "outside_same p lim mem mem'"
    proof (cases "n = 0")
      case True
      with len s(1) show ?thesis by (simp add: outside_same_refl)
    next
      case n: False
      show ?thesis by (rule store_back_outside [OF s(1)]) (use True n len assms(2) in auto)
    qed
    then show ?thesis by (simp add: s(2) at_least_def)
  qed
qed

lemma put_int_outside:
  assumes "put_int lim sp w (Some q) mem = Inr (b, mem')" "p \<le> q" "q < lim"
  shows "outside_same p lim mem mem' \<and> at_least q b"
proof (cases "sign sp \<and> sint w < 0")
  case False
  with assms ui64_string_outside [OF _ assms(2)] show ?thesis
    by (auto simp: put_int_def Let_def split: if_splits)
next
  case True
  with assms(1) obtain mem1 where m: "put_char CHR ''-'' (Some q) mem = Inr (Some (q + 1), mem1)"
    "ui64_string lim (q + 1) (word_of_int (- sint w)) (zero sp) (hex sp) (width sp) mem1 = Inr (b, mem')"
    by (auto simp: put_int_def Let_def bindE_Inr_iff put_char_def split: if_splits)
  have "outside_same p lim mem mem1" using put_char_outside [OF m(1) assms(2,3)] by simp
  moreover have "outside_same (q + 1) lim mem1 mem' \<and> at_least (q + 1) b"
    by (rule ui64_string_outside [OF m(2)]) simp
  ultimately show ?thesis
    using outside_same_trans [of p lim mem mem1 "q + 1" mem'] assms(2) by (auto simp: at_least_def split: option.splits)
qed

lemma put_str_outside:
  assumes "put_str lim s (Some q) mem = Inr (b, mem')" "p \<le> q"
  shows "outside_same p lim mem mem' \<and> at_least q b"
  using assms store_forward_outside [of s q mem mem' p lim]
  by (auto simp: put_str_def bindE_Inr_iff outside_same_refl at_least_def split: if_splits)

lemma convert_outside:
  assumes "convert lim sp c args (Some q) mem = Inr (args', b, mem')" "p \<le> q" "q < lim" "no_double args"
  shows "outside_same p lim mem mem' \<and> at_least q b \<and> no_double args'"
  using assms put_char_outside [OF _ assms(2,3)] put_int_outside [OF _ assms(2,3)] put_str_outside [OF _ assms(2)]
  by (auto simp: convert_def bindE_Inr_iff no_double_def at_least_def split: if_splits list.splits fmt_arg.splits
      dest: put_char_outside)

lemma convert_null:
  "convert lim sp c args None mem = Inr (args', b, mem') \<Longrightarrow> no_double args \<Longrightarrow>
   mem' = mem \<and> b = None \<and> no_double args'"
  by (auto simp: convert_def put_char_def put_int_def put_str_def Let_def no_double_def bindE_Inr_iff
      split: if_splits list.splits fmt_arg.splits option.splits)

lemma fmt_string_outside:
  "fmt_string lim fmt args buf mem = Inr (b, mem') \<Longrightarrow> no_double args \<Longrightarrow> at_least p buf \<Longrightarrow>
   outside_same p lim mem mem' \<and> at_least p b"
proof (induction lim fmt args buf mem rule: fmt_string.induct)
  case (1 lim fmt args buf mem)
  note run = 1(3) [unfolded fmt_string.simps [of lim fmt]]
  show ?case
  proof (cases "fmt = [] \<or> \<not> before buf lim")
    case True
    with run 1(5) show ?thesis by (auto simp: outside_same_refl)
  next
    case go: False
    show ?thesis
    proof (cases "hd fmt = CHR ''%''")
      case False
      with go run obtain b1 m1 where s: "put_char (hd fmt) buf mem = Inr (b1, m1)"
        "fmt_string lim (tl fmt) args b1 m1 = Inr (b, mem')"
        by (auto split: sum.splits prod.splits)
      then obtain q where q: "buf = Some q" "q < lim" "p \<le> q"
        using go 1(5) by (auto simp: put_char_def before_def at_least_def split: option.splits)
      with put_char_outside [of "hd fmt" q mem b1 m1 p lim] s(1)
      have o: "outside_same p lim mem m1" "b1 = Some (q + 1)" by simp_all
      have "outside_same p lim m1 mem' \<and> at_least p b"
        by (rule 1(2) [OF go False s(1) refl s(2) 1(4)]) (use o(2) q in \<open>simp add: at_least_def\<close>)
      with outside_same_trans [OF o(1)] show ?thesis by blast
    next
      case True
      obtain sp f where ps: "parse_spec (tl fmt) = (sp, f)" by fastforce
      with go True run obtain args1 b1 m1 where s: "f \<noteq> []"
        "convert lim sp (hd f) args buf mem = Inr (args1, b1, m1)"
        "fmt_string lim (tl f) args1 b1 m1 = Inr (b, mem')"
        by (auto split: if_splits sum.splits prod.splits)
      have o: "outside_same p lim mem m1 \<and> at_least p b1 \<and> no_double args1"
      proof (cases buf)
        case None
        with convert_null [of lim sp "hd f" args mem args1 b1 m1] s(2) 1(4) show ?thesis
          by (simp add: outside_same_refl at_least_def)
      next
        case (Some q)
        then have "p \<le> q" "q < lim" using go 1(5) by (auto simp: before_def at_least_def)
        with convert_outside [of lim sp "hd f" args q mem args1 b1 m1 p] s(2) 1(4) Some show ?thesis
          by (auto simp: at_least_def split: option.splits)
      qed
      have "outside_same p lim m1 mem' \<and> at_least p b"
        by (rule 1(1) [OF go True ps [symmetric] refl s(1,2) refl refl s(3)]) (use o in simp_all)
      with outside_same_trans [of p lim mem m1 p mem'] o show ?thesis by blast
    qed
  qed
qed

section \<open>Reading a decimal number back\<close>

definition dec_value :: "string \<Rightarrow> nat" where
  "dec_value s = foldl (\<lambda>n c. n * 10 + (of_char c - 48)) 0 s"

lemma dec_value_snoc: "dec_value (s @ [c]) = dec_value s * 10 + (of_char c - 48)"
  by (simp add: dec_value_def)

lemma unat_mod_10: "unat (v mod 10 :: u64) = unat v mod 10"
  by (simp add: unat_mod)

lemma of_char_digit: "n < 10 \<Longrightarrow> of_char (char_of (n + 48) :: char) = (n + 48 :: nat)"
  by simp

lemma dec_units_value: "dec_value (rev (dec_units v)) = unat v"
proof (induction v rule: dec_units.induct)
  case (1 v)
  let ?w = "(v - v mod 10) div 10"
  have d: "dec_units v = char_of (unat v mod 10 + 48) # (if ?w \<noteq> 0 then dec_units ?w else [])"
    by (subst dec_units.simps) (simp add: Let_def unat_mod_10)
  have c: "of_char (char_of (unat v mod 10 + 48) :: char) - 48 = unat v mod 10"
    by (subst of_char_digit) auto
  show ?case
  proof (cases "?w = 0")
    case True
    then have "unat v div 10 = 0" using unat_dec_step [of v] by simp
    then have "unat v mod 10 = unat v" by simp
    with True c show ?thesis by (simp add: d dec_value_def)
  next
    case False
    then have "dec_value (rev (dec_units ?w)) = unat v div 10" using 1 by (simp add: unat_dec_step)
    with False c show ?thesis by (simp add: d dec_value_snoc)
  qed
qed

lemma length_dec_units: "unat v < 10 ^ n \<Longrightarrow> 0 < n \<Longrightarrow> length (dec_units v) \<le> n"
proof (induction v arbitrary: n rule: dec_units.induct)
  case (1 v)
  let ?w = "(v - v mod 10) div 10"
  show ?case
  proof (cases "?w = 0")
    case True
    then have "length (dec_units v) = 1" by (subst dec_units.simps) (simp add: Let_def)
    with 1(3) show ?thesis by simp
  next
    case False
    then have "0 < unat ?w" by (simp only: unat_gt_0) simp
    then have pos: "unat v div 10 \<noteq> 0" by (simp add: unat_dec_step)
    then obtain m where m: "n = Suc m" "0 < m"
      using 1(2,3) by (cases n; cases "n - 1") (auto simp: div_eq_0_iff)
    have "unat ?w < 10 ^ m" using 1(2) by (simp add: unat_dec_step m less_mult_imp_div_less mult.commute)
    with 1(1) [of "v mod 10" ?w m] False m have "length (dec_units ?w) \<le> m" by simp
    with False m show ?thesis by (subst dec_units.simps) (simp add: Let_def)
  qed
qed

lemma length_dec_units_20: "length (dec_units v) \<le> 20"
proof (rule length_dec_units)
  have "unat v < 2 ^ 64" using unsigned_less [of v, where 'a = nat] by simp
  then show "unat v < 10 ^ 20" by simp
qed simp

lemma dec_units_digits: "\<forall>c \<in> set (dec_units v). is_digit c"
proof (induction v rule: dec_units.induct)
  case (1 v)
  have "is_digit (char_of (unat (v mod 10) + 48))"
    unfolding is_digit_def by (subst of_char_digit | simp add: unat_mod_10)+
  then show ?case using 1 by (subst dec_units.simps) (simp add: Let_def)
qed

lemma dec_units_ne [simp]: "dec_units v \<noteq> []"
  by (subst dec_units.simps) (simp add: Let_def)

section \<open>Properties\<close>

text \<open>C33. The formatting engine implements its reference semantics: whenever the format and the arguments
  have a text and the text fits before \<open>last\<close>, the call writes exactly this text at the current
  position, changes nothing else, and returns the position behind it.\<close>

theorem fmt_string_prints:
  assumes "render fmt args = Some s" "p + length s < lim" "p + length s \<le> length mem"
  shows "fmt_string lim fmt args (Some p) mem = Inr (Some (p + length s), write_at mem p s)"
  using assms by (rule fmt_string_render)

theorem fmt_string_prints_witness:
  "fmt_string 30 ''%4d/%02d [%s] %d'' [ArgInt 2023, ArgInt 6, ArgStr ''info'', ArgInt (- 5)] (Some 0)
     (replicate 32 CHR 0x00) = Inr (Some 17, ''2023/06 [info] -5'' @ replicate 15 CHR 0x00)"
proof -
  have r: "render ''%4d/%02d [%s] %d'' [ArgInt 2023, ArgInt 6, ArgStr ''info'', ArgInt (- 5)] =
      Some ''2023/06 [info] -5''" by code_simp
  from fmt_string_prints [OF r, of 0 30 "replicate 32 CHR 0x00"] show ?thesis
    by (simp add: write_at_def)
qed

text \<open>Whatever the format and the arguments are -- texts that do not fit, formats that do not match
  their arguments -- a call without \<open>%f\<close> that returns has written inside the buffer only: every
  character before its start and from \<open>last\<close> on is as before.\<close>

theorem fmt_string_stays_inside:
  assumes "fmt_string lim fmt args (Some p) mem = Inr (b, mem')" "\<forall>neg v. ArgDouble neg v \<notin> set args"
  shows "length mem' = length mem \<and> (\<forall>i < length mem. i < p \<or> lim \<le> i \<longrightarrow> mem' ! i = mem ! i)"
  using fmt_string_outside [of lim fmt args "Some p" mem b mem' p] assms
  by (simp add: no_double_def at_least_def outside_same_def)

theorem fmt_string_stays_inside_witness:
  "fmt_string 4 ''a%s%d'' [ArgStr ''long text'', ArgInt 5] (Some 1) ''012345'' = Inr (Some 11, ''0a2345'') \<and>
   ''0a2345'' ! 4 = ''012345'' ! 4"
proof -
  have r: "fmt_string 4 ''a%s%d'' [ArgStr ''long text'', ArgInt 5] (Some 1) ''012345'' = Inr (Some 11, ''0a2345'')"
    by code_simp
  from fmt_string_stays_inside [OF r] have "''0a2345'' ! 4 = ''012345'' ! 4" by simp
  with r show ?thesis by simp
qed

text \<open>The precision of \<open>%f\<close> does not show the fraction: the digits behind the point are the digits of
  the integer part once more, whatever the fraction is.\<close>

theorem fraction_repeats_integer_part:
  "render ''%.2f'' [ArgDouble False v] =
     Some (rev (dec_units v) @ ''.'' @ take 2 (rev (dec_units v) @ ''0''))"
proof -
  have p: "parse_spec ''.2f'' = (\<lparr>zero = CHR '' '', width = 0, sign = True, hex = 0, width_frac = 2\<rparr>, ''f'')"
    by (simp add: parse_spec_def is_digit_def Let_def)
  have u: "unat (2 :: u64) = 2" by simp
  obtain c cs where c: "rev (dec_units v) = c # cs" by (cases "rev (dec_units v)") simp_all
  then have len: "length (dec_units v) = length (c # cs)" by (metis length_rev)
  have "frac_text 2 v = take 2 (rev (dec_units v) @ ''0'')"
    by (cases cs) (simp_all add: frac_text_def num_units_def Let_def u c len)
  then show ?thesis
    by (subst render.simps)
      (simp add: p directive_def double_text_def num_text_def num_units_def render.simps [of "[]"])
qed

end
