(* ===== verification/Conf.thy ===== *)
theory Conf
  imports FmtString
begin

text \<open>
  The configuration reader (\<open>app/c_conf.cxx\<close>): a list of items with a name and a value, filled line
  by line from a file and searched by name.
\<close>

section \<open>Items\<close>

record conf_item =
  itemname :: string
  itemvalue :: string

abbreviation (input) LINESIZE :: nat where "LINESIZE \<equiv> 200"

abbreviation (input) itemname_size :: nat where "itemname_size \<equiv> 30"
abbreviation (input) itemvalue_size :: nat where "itemvalue_size \<equiv> 60"

section \<open>Reading a line\<close>

text \<open>\<open>fgets(line, n + 1, fp)\<close> on the rest of the file: at most \<open>n\<close> characters, up to a newline. The result is
  the line and what is left.\<close>

fun fgets :: "nat \<Rightarrow> string \<Rightarrow> string \<times> string" where
  "fgets 0 cs = ([], cs)"
| "fgets (Suc n) [] = ([], [])"
| "fgets (Suc n) (c # cs) =
     (if c = CHR 0x0A then ([c], cs) else (let (l, r) = fgets n cs in (c # l, r)))"

definition c_string :: "string \<Rightarrow> string" where
  "c_string s = takeWhile (\<lambda>c. c \<noteq> CHR 0x00) s"

text \<open>One round of the loop in \<open>Load\<close>. A plain \<open>char\<close> is signed on this machine, so a line that starts
  with a byte above 127 is skipped. A value or name that does not fit its array, and a name that is
  empty (\<open>Rtrim\<close> answers with a null pointer), are faults.\<close>

definition load_line :: "string \<Rightarrow> conf_item list \<Rightarrow> fault + conf_item list" where
  "load_line line items =
     (let strline = Ltrim line in
      if strline \<noteq> [] \<and> (of_char (hd strline) :: nat) \<ge> 128 then Inr items
      else if strline = [] \<or> hd strline = CHR 0x0A \<or> hd strline = CHR 0x0D \<or> hd strline = CHR ''#'' \<or>
              hd strline = CHR ''['' then Inr items
      else
        let strline = takeWhile (\<lambda>c. c \<noteq> CHR ''#'') strline;
            strline = fst (Rtrim strline)
        in if CHR ''='' \<notin> set strline then Inr items
           else
             let sepline = length (takeWhile (\<lambda>c. c \<noteq> CHR ''='') strline);
                 value = Ltrim (drop (sepline + 1) strline)
             in if length value \<ge> itemvalue_size then Inl BadAccess
                else case Rtrim (take sepline strline) of
                    (_, None) \<Rightarrow> Inl BadAccess
                  | (_, Some name) \<Rightarrow>
                      if length name \<ge> itemname_size then Inl BadAccess
                      else Inr (items @ [\<lparr>itemname = name, itemvalue = value\<rparr>]))"

text \<open>The loop \<open>while(!feof(fp))\<close>. \<open>err\<close> says that reading fails at the end of what could be read instead
  of reporting the end of the file: then \<open>feof\<close> stays false and the loop goes on for ever, which is the
  value \<open>None\<close>.\<close>

partial_function (option) Load_loop ::
  "bool \<Rightarrow> string \<Rightarrow> conf_item list \<Rightarrow> (fault + conf_item list) option" where
  "Load_loop err cs items =
     (if cs = [] then (if err then Load_loop err cs items else Some (Inr items))
      else
        case load_line (c_string (fst (fgets (LINESIZE - 2) cs))) items of
          Inl e \<Rightarrow> Some (Inl e)
        | Inr items \<Rightarrow> Load_loop err (snd (fgets (LINESIZE - 2) cs)) items)"

text \<open>\<open>file\<close> is \<open>None\<close> when \<open>fopen\<close> fails.\<close>

definition Load ::
  "(string \<times> bool) option \<Rightarrow> conf_item list \<Rightarrow> (fault + bool \<times> conf_item list) option" where
  "Load file items = (case file of
      None \<Rightarrow> Some (Inr (False, items))
    | Some (cs, err) \<Rightarrow>
        map_option (\<lambda>r. case r of Inl e \<Rightarrow> Inl e | Inr items \<Rightarrow> Inr (True, items)) (Load_loop err cs items))"

section \<open>Looking up\<close>

fun GetString :: "conf_item list \<Rightarrow> string \<Rightarrow> string option" where
  "GetString [] name = None"
| "GetString (it # its) name = (if itemname it = name then Some (itemvalue it) else GetString its name)"

text \<open>\<open>atoi\<close> of the standard library: \<open>strtol\<close> in base ten, which clamps to the range of \<open>long\<close>, cut to
  an \<open>int\<close>.\<close>

definition is_space :: "char \<Rightarrow> bool" where
  "is_space c \<longleftrightarrow> c = CHR '' '' \<or> (9 \<le> (of_char c :: nat) \<and> (of_char c :: nat) \<le> 13)"

definition atoi :: "string \<Rightarrow> int" where
  "atoi s =
     (let s = dropWhile is_space s;
          neg = (s \<noteq> [] \<and> hd s = CHR ''-'');
          s = (if s \<noteq> [] \<and> (hd s = CHR ''-'' \<or> hd s = CHR ''+'') then tl s else s);
          n = int (dec_value (takeWhile is_digit s));
          l = max (- (2 ^ 63)) (min (2 ^ 63 - 1) (if neg then - n else n))
      in sint (word_of_int l :: u32))"

fun GetInt :: "conf_item list \<Rightarrow> string \<Rightarrow> int \<Rightarrow> int" where
  "GetInt [] name def = def"
| "GetInt (it # its) name def = (if itemname it = name then atoi (itemvalue it) else GetInt its name def)"

section \<open>Termination\<close>

lemma length_fgets: "length (snd (fgets n cs)) = length cs - length (fst (fgets n cs))"
  by (induction n cs rule: fgets.induct) (auto split: prod.splits)

lemma fgets_progress: "cs \<noteq> [] \<Longrightarrow> length (snd (fgets (Suc n) cs)) < length cs"
  by (cases cs) (auto simp: length_fgets split: prod.splits, metis less_Suc_eq_le diff_le_self length_fgets snd_conv)

text \<open>Without a read error the loop ends after at most one round for each character.\<close>

lemma Load_loop_returns: "\<exists>r. Load_loop False cs items = Some r"
proof (induction "length cs" arbitrary: cs items rule: less_induct)
  case less
  show ?case
  proof (cases "cs = []")
    case True
    then show ?thesis by (subst Load_loop.simps) simp
  next
    case False
    show ?thesis
      by (subst Load_loop.simps)
        (use False less fgets_progress [of cs 197] in \<open>auto split: sum.splits\<close>)
  qed
qed

text \<open>With a read error nothing but a fault ends it.\<close>

lemma Load_loop_err:
  assumes "Load_loop err cs items = Some r"
  shows "err \<longrightarrow> (\<exists>e. r = Inl e)"
proof (rule Load_loop.raw_induct [where P = "\<lambda>err cs items r. err \<longrightarrow> (\<exists>e. r = Inl e)", OF _ assms])
  fix loop :: "bool \<Rightarrow> string \<Rightarrow> conf_item list \<Rightarrow> (fault + conf_item list) option" and err cs items r
  assume IH: "\<And>err cs items r. loop err cs items = Some r \<Longrightarrow> err \<longrightarrow> (\<exists>e. r = Inl e)"
    and step: "(if cs = [] then if err then loop err cs items else Some (Inr items)
      else case load_line (c_string (fst (fgets (LINESIZE - 2) cs))) items of
          Inl e \<Rightarrow> Some (Inl e)
        | Inr items \<Rightarrow> loop err (snd (fgets (LINESIZE - 2) cs)) items) = Some r"
  show "err \<longrightarrow> (\<exists>e. r = Inl e)"
    using step IH [of err] by (auto split: if_splits sum.splits intro: sym)
qed

section \<open>Printing a configuration\<close>

text \<open>A file as one would write it: lines that hold an item, and comments, section headings and blank
  lines between them.\<close>

datatype conf_line = ItemLine conf_item | OtherLine string

fun print_line :: "conf_line \<Rightarrow> string" where
  "print_line (ItemLine it) = itemname it @ '' = '' @ itemvalue it @ [CHR 0x0A]"
| "print_line (OtherLine s) = s @ [CHR 0x0A]"

fun line_items :: "conf_line list \<Rightarrow> conf_item list" where
  "line_items [] = []"
| "line_items (ItemLine it # ls) = it # line_items ls"
| "line_items (OtherLine _ # ls) = line_items ls"

definition plain :: "string \<Rightarrow> bool" where
  "plain s \<longleftrightarrow> (\<forall>c \<in> set s. c \<noteq> CHR 0x00 \<and> c \<noteq> CHR 0x0A \<and> c \<noteq> CHR ''#'')"

text \<open>A name or a value has no blank at its ends.\<close>

definition trimmed :: "string \<Rightarrow> bool" where
  "trimmed s \<longleftrightarrow> (s \<noteq> [] \<longrightarrow> hd s \<noteq> CHR '' '' \<and> \<not> rtrimmed (last s))"

definition wf_item :: "conf_item \<Rightarrow> bool" where
  "wf_item it \<longleftrightarrow> plain (itemname it) \<and> plain (itemvalue it) \<and> trimmed (itemname it) \<and> trimmed (itemvalue it) \<and>
     itemname it \<noteq> [] \<and> CHR ''='' \<notin> set (itemname it) \<and> hd (itemname it) \<noteq> CHR ''['' \<and>
     hd (itemname it) \<noteq> CHR 0x0D \<and> (of_char (hd (itemname it)) :: nat) < 128 \<and>
     length (itemname it) < itemname_size \<and> length (itemvalue it) < itemvalue_size"

definition wf_line :: "conf_line \<Rightarrow> bool" where
  "wf_line l \<longleftrightarrow> (case l of
      ItemLine it \<Rightarrow> wf_item it
    | OtherLine s \<Rightarrow> (\<forall>c \<in> set s. c \<noteq> CHR 0x00 \<and> c \<noteq> CHR 0x0A) \<and> length s < LINESIZE - 2 \<and>
        (Ltrim s = [] \<or> hd (Ltrim s) = CHR ''#'' \<or> hd (Ltrim s) = CHR ''[''))"

lemma fgets_line:
  "CHR 0x0A \<notin> set s \<Longrightarrow> length s < n \<Longrightarrow> fgets n (s @ [CHR 0x0A] @ rest) = (s @ [CHR 0x0A], rest)"
proof (induction s arbitrary: n)
  case Nil
  then show ?case by (cases n) simp_all
next
  case (Cons c s)
  then show ?case by (cases n) auto
qed

lemma Rtrim_keep: "s \<noteq> [] \<Longrightarrow> \<not> rtrimmed (last s) \<Longrightarrow> Rtrim s = (s, Some s)"
  by (subst Rtrim.simps) (simp add: last_conv_nth)

lemma Rtrim_strip: "rtrimmed c \<Longrightarrow> Rtrim (s @ [c]) = Rtrim s"
  by (subst Rtrim.simps) simp

lemma Ltrim_keep: "trimmed s \<Longrightarrow> Ltrim s = s"
  by (cases s) (auto simp: Ltrim_def trimmed_def)

lemma rtrimmed_blank [simp]: "rtrimmed CHR '' ''" "rtrimmed CHR 0x0A" "\<not> rtrimmed CHR ''=''"
  by (simp_all add: rtrimmed_def)

lemma takeWhile_all: "\<forall>c \<in> set s. P c \<Longrightarrow> takeWhile P s = s"
  by simp

lemma load_other:
  assumes "wf_line (OtherLine s)"
  shows "load_line (s @ [CHR 0x0A]) items = Inr items"
proof (cases "Ltrim s = []")
  case True
  then have "Ltrim (s @ [CHR 0x0A]) = [CHR 0x0A]"
    by (simp add: Ltrim_def dropWhile_append)
  then show ?thesis by (simp add: load_line_def)
next
  case False
  then have "Ltrim (s @ [CHR 0x0A]) = Ltrim s @ [CHR 0x0A]"
    by (simp add: Ltrim_def dropWhile_append)
  moreover have "hd (Ltrim s) = CHR ''#'' \<or> hd (Ltrim s) = CHR ''[''"
    using False assms by (simp add: wf_line_def)
  ultimately show ?thesis using False by (elim disjE) (simp_all add: load_line_def)
qed

lemma load_item:
  assumes wf: "wf_item it"
  shows "load_line (itemname it @ '' = '' @ itemvalue it @ [CHR 0x0A]) items = Inr (items @ [it])"
proof -
  let ?n = "itemname it" and ?v = "itemvalue it"
  let ?line = "?n @ '' = '' @ ?v @ [CHR 0x0A]"
  have n: "?n \<noteq> []" "hd ?n \<noteq> CHR '' ''" "\<not> rtrimmed (last ?n)" "CHR ''='' \<notin> set ?n"
    "\<forall>c \<in> set (?n @ '' = '' @ ?v @ [CHR 0x0A]). c \<noteq> CHR ''#''"
    using wf by (auto simp: wf_item_def plain_def trimmed_def)
  have l: "Ltrim ?line = ?line" using n(1,2) by (cases ?n) (simp_all add: Ltrim_def)
  have h: "hd ?line = hd ?n" using n(1) by simp
  have hd_n: "hd ?n \<noteq> CHR 0x0A" "hd ?n \<noteq> CHR ''#''"
    using wf hd_in_set [OF n(1)] by (auto simp: wf_item_def plain_def)
  have hash: "takeWhile (\<lambda>c. c \<noteq> CHR ''#'') ?line = ?line" by (rule takeWhile_all) (fact n(5))
  define body where "body = ?n @ '' ='' @ (if ?v = [] then [] else '' '' @ ?v)"
  have r: "fst (Rtrim ?line) = body"
  proof -
    have "Rtrim ?line = Rtrim (?n @ '' = '' @ ?v)"
      using Rtrim_strip [of "CHR 0x0A" "?n @ '' = '' @ ?v"] by simp
    also have "\<dots> = (body, Some body)"
    proof (cases "?v = []")
      case True
      have "Rtrim (?n @ '' = '') = Rtrim (?n @ '' ='')"
        using Rtrim_strip [of "CHR '' ''" "?n @ '' =''"] by simp
      with True show ?thesis by (simp add: body_def Rtrim_keep)
    next
      case False
      then have "\<not> rtrimmed (last ?v)" using wf by (simp add: wf_item_def trimmed_def)
      with False show ?thesis by (simp add: body_def Rtrim_keep)
    qed
    finally show ?thesis by simp
  qed
  have eq: "CHR ''='' \<in> set body" by (simp add: body_def)
  have sep: "takeWhile (\<lambda>c. c \<noteq> CHR ''='') body = ?n @ '' ''"
    using n(4) unfolding body_def by (subst takeWhile_append2) (auto intro: ccontr)
  have drop: "drop (Suc (Suc (length ?n))) body = (if ?v = [] then [] else '' '' @ ?v)"
    by (simp add: body_def)
  have v: "Ltrim (if ?v = [] then [] else '' '' @ ?v) = ?v"
    using Ltrim_keep [of ?v] wf by (simp add: Ltrim_def wf_item_def)
  have take: "take (Suc (length ?n)) body = ?n @ '' ''" by (simp add: body_def)
  have name: "Rtrim (?n @ '' '') = (?n, Some ?n)"
    using Rtrim_strip [of "CHR '' ''" ?n] n(1,3) by (simp add: Rtrim_keep)
  show ?thesis
    unfolding load_line_def Let_def l hash r
    using wf h n(1) hd_n eq by (simp add: sep drop v take name wf_item_def)
qed

lemma c_string_line: "\<forall>c \<in> set s. c \<noteq> CHR 0x00 \<Longrightarrow> c_string (s @ [CHR 0x0A]) = s @ [CHR 0x0A]"
  by (simp add: c_string_def)

lemma Load_loop_line:
  assumes "wf_line l"
  shows "Load_loop err (print_line l @ rest) items = Load_loop err rest (items @ line_items [l])"
proof -
  obtain s where s: "print_line l = s @ [CHR 0x0A]" "\<forall>c \<in> set s. c \<noteq> CHR 0x00" "CHR 0x0A \<notin> set s"
    "length s < LINESIZE - 2" "load_line (s @ [CHR 0x0A]) items = Inr (items @ line_items [l])"
  proof (cases l)
    case (ItemLine it)
    then have wf: "wf_item it" using assms by (simp add: wf_line_def)
    have "\<forall>c \<in> set (itemname it @ '' = '' @ itemvalue it). c \<noteq> CHR 0x00 \<and> c \<noteq> CHR 0x0A"
      using wf by (auto simp: wf_item_def plain_def)
    moreover have "length (itemname it @ '' = '' @ itemvalue it) < LINESIZE - 2"
      using wf by (simp add: wf_item_def)
    ultimately show thesis
      using that [of "itemname it @ '' = '' @ itemvalue it"] load_item [OF wf, of items]
      by (auto simp: ItemLine)
  next
    case (OtherLine s)
    have "\<forall>c \<in> set s. c \<noteq> CHR 0x00 \<and> c \<noteq> CHR 0x0A" "length s < LINESIZE - 2"
      using assms by (simp_all add: OtherLine wf_line_def)
    then show thesis
      using that [of s] assms load_other [of s items] by (auto simp: OtherLine)
  qed
  have "fgets (LINESIZE - 2) (print_line l @ rest) = (s @ [CHR 0x0A], rest)"
    using fgets_line [OF s(3,4)] by (simp add: s(1))
  then show ?thesis
    using s(1) by (subst Load_loop.simps) (simp add: c_string_line [OF s(2)] s(5))
qed

lemma line_items_append: "line_items (xs @ ys) = line_items xs @ line_items ys"
  by (induction xs rule: line_items.induct) simp_all

lemma line_items_Cons: "line_items (l # ls) = line_items [l] @ line_items ls"
  using line_items_append [of "[l]" ls] by simp

lemma Load_loop_lines:
  "\<forall>l \<in> set ls. wf_line l \<Longrightarrow> Load_loop False (concat (map print_line ls)) items = Some (Inr (items @ line_items ls))"
proof (induction ls arbitrary: items)
  case Nil
  then show ?case by (subst Load_loop.simps) simp
next
  case (Cons l ls)
  have "Load_loop False (print_line l @ concat (map print_line ls)) items =
      Some (Inr ((items @ line_items [l]) @ line_items ls))"
    using Cons by (subst Load_loop_line) (simp_all del: line_items.simps)
  then show ?case by (simp add: line_items_Cons [of l ls] del: line_items.simps)
qed

lemma Load_lines:
  "\<forall>l \<in> set ls. wf_line l \<Longrightarrow>
   Load (Some (concat (map print_line ls), False)) items = Some (Inr (True, items @ line_items ls))"
  by (simp add: Load_def Load_loop_lines)

lemma GetInt_skip: "\<forall>it \<in> set xs. itemname it \<noteq> name \<Longrightarrow> GetInt (xs @ ys) name def = GetInt ys name def"
  by (induction xs) simp_all

lemma GetString_skip: "\<forall>it \<in> set xs. itemname it \<noteq> name \<Longrightarrow> GetString (xs @ ys) name = GetString ys name"
  by (induction xs) simp_all

section \<open>Numbers printed and read back\<close>

lemma parse_d: "parse_spec ''d'' = (\<lparr>zero = CHR '' '', width = 0, sign = True, hex = 0, width_frac = 0\<rparr>, ''d'')"
  by (simp add: parse_spec_def is_digit_def)

lemma render_d: "render ''%d'' [ArgInt w] =
    Some (int_text \<lparr>zero = CHR '' '', width = 0, sign = True, hex = 0, width_frac = 0\<rparr> w)"
  by (subst render.simps) (simp add: parse_d directive_def render.simps [of "[]"])

lemma digit_not_space: "is_digit c \<Longrightarrow> \<not> is_space c \<and> c \<noteq> CHR ''-'' \<and> c \<noteq> CHR ''+''"
  by (auto simp: is_digit_def is_space_def)

lemma rev_dec_units: "rev (dec_units v) \<noteq> [] \<and> (\<forall>c \<in> set (rev (dec_units v)). is_digit c)"
  using dec_units_digits by simp

lemma atoi_digits:
  assumes "s \<noteq> []" "\<forall>c \<in> set s. is_digit c"
  shows "atoi s = sint (word_of_int (min (2 ^ 63 - 1) (int (dec_value s))) :: u32)"
    "atoi (CHR ''-'' # s) = sint (word_of_int (max (- (2 ^ 63)) (- int (dec_value s))) :: u32)"
proof -
  have h: "\<not> is_space (hd s)" "hd s \<noteq> CHR ''-''" "hd s \<noteq> CHR ''+''"
    using assms digit_not_space [of "hd s"] hd_in_set [OF assms(1)] by auto
  have d: "dropWhile is_space s = s" using assms(1) h(1) by (cases s) simp_all
  have t: "takeWhile is_digit s = s" using assms(2) by simp
  have m: "\<not> is_space CHR ''-''" by (simp add: is_space_def)
  show "atoi s = sint (word_of_int (min (2 ^ 63 - 1) (int (dec_value s))) :: u32)"
    using assms(1) h by (simp add: atoi_def Let_def d t max_def min_def)
  show "atoi (CHR ''-'' # s) = sint (word_of_int (max (- (2 ^ 63)) (- int (dec_value s))) :: u32)"
    using m by (simp add: atoi_def Let_def t min_def max_def)
qed

lemma atoi_int_text:
  assumes "sp = \<lparr>zero = CHR '' '', width = 0, sign = True, hex = 0, width_frac = 0\<rparr>"
  shows "atoi (int_text sp w) = sint w"
proof -
  have b: "- (2 ^ 31) \<le> sint w" "sint w < 2 ^ 31"
    using sint_greater_eq [of w] sint_less [of w] by simp_all
  have u: "unat (word_of_int x :: u64) = nat x" if "0 \<le> x" "x < 2 ^ 64" for x
    using that by (simp add: unat_eq_nat_uint uint_word_of_int)
  show ?thesis
  proof (cases "sint w < 0")
    case True
    let ?v = "word_of_int (- sint w) :: u64"
    have val: "int (dec_value (rev (dec_units ?v))) = - sint w"
      unfolding dec_units_value using u [of "- sint w"] b True by simp
    have "int_text sp w = CHR ''-'' # rev (dec_units ?v)"
      using True by (simp add: assms int_text_def num_text_def num_units_def Let_def)
    then have "atoi (int_text sp w) = sint (word_of_int (max (- (2 ^ 63)) (sint w)) :: u32)"
      using atoi_digits(2) [OF rev_dec_units [THEN conjunct1] rev_dec_units [THEN conjunct2], of ?v] val by simp
    then show ?thesis using b by (simp add: max_def)
  next
    case False
    let ?v = "word_of_int (sint w) :: u64"
    have val: "int (dec_value (rev (dec_units ?v))) = sint w"
      unfolding dec_units_value using u [of "sint w"] b False by simp
    have "int_text sp w = rev (dec_units ?v)"
      using False by (simp add: assms int_text_def num_text_def num_units_def Let_def)
    then have "atoi (int_text sp w) = sint (word_of_int (min (2 ^ 63 - 1) (sint w)) :: u32)"
      using atoi_digits(1) [OF rev_dec_units [THEN conjunct1] rev_dec_units [THEN conjunct2], of ?v] val by simp
    then show ?thesis using b by (simp add: min_def)
  qed
qed

section \<open>Properties\<close>

text \<open>C34. The reader recovers a configuration file: whatever items with proper names and values a file
  holds, one on a line, with comments, section headings and blank lines anywhere between them,
  loading it yields these items, in order.\<close>

theorem conf_file_roundtrip:
  assumes "\<forall>l \<in> set ls. wf_line l"
  shows "Load (Some (concat (map print_line ls), False)) items = Some (Inr (True, items @ line_items ls))"
  using assms by (rule Load_lines)

theorem conf_file_roundtrip_witness:
  "Load (Some (''[Net]'' @ [CHR 0x0A] @ ''ListenPort0 = 9000'' @ [CHR 0x0A] @ ''#x'' @ [CHR 0x0A], False)) [] =
   Some (Inr (True, [\<lparr>itemname = ''ListenPort0'', itemvalue = ''9000''\<rparr>]))"
proof -
  let ?ls = "[OtherLine ''[Net]'', ItemLine \<lparr>itemname = ''ListenPort0'', itemvalue = ''9000''\<rparr>, OtherLine ''#x'']"
  have "\<forall>l \<in> set ?ls. wf_line l" by code_simp
  from conf_file_roundtrip [OF this, of "[]"] show ?thesis by simp
qed

text \<open>A number survives the way through a configuration file: if the value of an item is what \<open>%d\<close>
  prints for it, then after loading the file \<open>GetInt\<close> returns the number, for every 32-bit integer
  and whatever other items and lines the file has.\<close>

theorem conf_number_roundtrip:
  assumes "render ''%d'' [ArgInt w] = Some s" "\<forall>l \<in> set (ls @ ItemLine \<lparr>itemname = name, itemvalue = s\<rparr> # ls'). wf_line l"
    and "\<forall>it \<in> set (line_items ls). itemname it \<noteq> name"
  shows "\<exists>items. Load (Some (concat (map print_line (ls @ ItemLine \<lparr>itemname = name, itemvalue = s\<rparr> # ls')), False)) [] =
      Some (Inr (True, items)) \<and> GetInt items name def = sint w \<and> GetString items name = Some s"
proof -
  have "s = int_text \<lparr>zero = CHR '' '', width = 0, sign = True, hex = 0, width_frac = 0\<rparr> w"
    using assms(1) by (simp add: render_d)
  then have "atoi s = sint w" using atoi_int_text [OF refl] by simp
  then show ?thesis
    using Load_lines [OF assms(2), of "[]"] assms(3)
    by (simp add: line_items_append GetInt_skip GetString_skip)
qed

theorem conf_number_roundtrip_witness:
  "\<exists>items. Load (Some (''Daemon = -7'' @ [CHR 0x0A], False)) [] = Some (Inr (True, items)) \<and>
     GetInt items ''Daemon'' 1 = -7"
proof -
  have r: "render ''%d'' [ArgInt (- 7)] = Some ''-7''" by code_simp
  have wf: "\<forall>l \<in> set ([] @ ItemLine \<lparr>itemname = ''Daemon'', itemvalue = ''-7''\<rparr> # []). wf_line l" by code_simp
  from conf_number_roundtrip [OF r wf, of 1] show ?thesis by auto
qed

text \<open>C35. Loading returns for every file that can be read to its end. If reading fails in between, for
  instance because the path names a directory, \<open>feof\<close> never becomes true: then the loop cannot end
  regularly, whatever was read before.\<close>

theorem conf_load_terminates:
  "(\<exists>r. Load (Some (cs, False)) items = Some r) \<and> (\<forall>r. Load (Some (cs, True)) items \<noteq> Some (Inr r))"
  using Load_loop_returns [of cs items] Load_loop_err [of True cs items]
  by (auto simp: Load_def split: sum.splits)

end
