(* ===== verification/Log.thy ===== *)
theory Log
  imports Conf
begin

text \<open>
  The log (\<open>app/func_log.cxx\<close>): every message is put together in an array of fixed size and written
  in one call. The time of day, the process number, the texts of \<open>strerror\<close> and the answers of
  \<open>write\<close> and \<open>open\<close> are arguments.
\<close>

section \<open>The state\<close>

record log_t =
  log_level :: int
  log_fd :: int

text \<open>The broken-down local time, after the two corrections of month and year.\<close>

record tm =
  tm_year :: u32
  tm_mon :: u32
  tm_mday :: u32
  tm_hour :: u32
  tm_min :: u32
  tm_sec :: u32

definition err_levels :: "string list" where
  "err_levels = [''stderr'', ''emerg'', ''alert'', ''crit'', ''error'', ''warn'', ''notice'', ''info'', ''debug'']"

abbreviation (input) LOG_ALERT :: nat where "LOG_ALERT \<equiv> 2"
abbreviation (input) LOG_NOTICE :: int where "LOG_NOTICE \<equiv> 6"
abbreviation (input) MAX_ERROR_STR :: nat where "MAX_ERROR_STR \<equiv> 2048"
abbreviation (input) STDERR_FILENO :: int where "STDERR_FILENO \<equiv> 2"
abbreviation (input) ENOSPC :: int where "ENOSPC \<equiv> 28"

datatype write_ans = WriteOk | WriteErr int

section \<open>Messages\<close>

definition log_errno :: "nat \<Rightarrow> string \<Rightarrow> u32 \<Rightarrow> nat option \<Rightarrow> string \<Rightarrow> fault + (nat option \<times> string)" where
  "log_errno lim errinfo errnum buf mem =
     bindE (fmt_string lim '' [%d: '' [ArgInt errnum] buf mem)
       (\<lambda>(buf, mem). fmt_string lim ''%s]'' [ArgStr errinfo] buf mem)"

text \<open>The end both functions share: the error text, the correction of a position too far on, the newline.
  A null pointer is below \<open>last\<close> and is written through.\<close>

definition finish_message ::
  "(u32 \<Rightarrow> string) \<Rightarrow> u32 \<Rightarrow> nat option \<Rightarrow> string \<Rightarrow> fault + string" where
  "finish_message strerror errnum buf mem =
     bindE (if errnum \<noteq> 0 then log_errno MAX_ERROR_STR (strerror errnum) errnum buf mem else Inr (buf, mem))
       (\<lambda>(buf, mem).
         let buf = (case buf of None \<Rightarrow> None
               | Some p \<Rightarrow> Some (if p \<ge> MAX_ERROR_STR - 1 then MAX_ERROR_STR - 1 - 1 else p))
         in bindE (put_char CHR 0x0A buf mem) (\<lambda>(buf, mem).
              case buf of None \<Rightarrow> Inl BadAccess | Some p \<Rightarrow> Inr (take p mem)))"

text \<open>The result is the text written to the standard error output.\<close>

definition std_error_core :: "(u32 \<Rightarrow> string) \<Rightarrow> u32 \<Rightarrow> string \<Rightarrow> fmt_arg list \<Rightarrow> fault + string" where
  "std_error_core strerror errnum fmt args =
     (let errstr = replicate (MAX_ERROR_STR + 1) CHR 0x00;
          errstr = write_at errstr 0 ''nginx: ''
      in bindE (fmt_string MAX_ERROR_STR fmt args (Some (length ''nginx: '')) errstr)
           (\<lambda>(p, errstr). finish_message strerror errnum p errstr))"

text \<open>The date goes into an array of 40 characters whose end is not passed on: the limit is the highest address.\<close>

definition log_time :: "tm \<Rightarrow> fault + string" where
  "log_time t =
     bindE (fmt_string (2 ^ 64 - 1) ''%4d/%02d/%02d %02d:%02d:%02d''
        [ArgInt (tm_year t), ArgInt (tm_mon t), ArgInt (tm_mday t), ArgInt (tm_hour t), ArgInt (tm_min t), ArgInt (tm_sec t)]
        (Some 0) (replicate 40 CHR 0x00))
       (\<lambda>(_, strcurrtime). Inr (c_string strcurrtime))"

definition log_head :: "tm \<Rightarrow> u32 \<Rightarrow> nat \<Rightarrow> fault + (nat option \<times> string)" where
  "log_head t cur_pid level =
     bindE (log_time t) (\<lambda>time.
       let errstr = write_at (replicate (MAX_ERROR_STR + 1) CHR 0x00) 0 time in
       if level \<ge> length err_levels then Inl BadAccess
       else bindE (fmt_string MAX_ERROR_STR '' [%s] '' [ArgStr (err_levels ! level)] (Some (length time)) errstr)
              (\<lambda>(p, errstr). fmt_string MAX_ERROR_STR '' %p '' [ArgInt cur_pid] p errstr))"

text \<open>Where the text goes: the result is the list of writes, a descriptor and a text each.\<close>

definition log_write :: "log_t \<Rightarrow> write_ans \<Rightarrow> nat \<Rightarrow> string \<Rightarrow> (int \<times> string) list" where
  "log_write log_s ans level msg =
     (if int level > log_level log_s then []
      else (log_fd log_s, msg) # (case ans of
          WriteOk \<Rightarrow> []
        | WriteErr errno \<Rightarrow> if errno = ENOSPC then []
            else if log_fd log_s \<noteq> STDERR_FILENO then [(STDERR_FILENO, msg)] else []))"

definition log_error_core ::
  "log_t \<Rightarrow> tm \<Rightarrow> u32 \<Rightarrow> (u32 \<Rightarrow> string) \<Rightarrow> write_ans \<Rightarrow> nat \<Rightarrow> u32 \<Rightarrow> string \<Rightarrow> fmt_arg list \<Rightarrow>
   fault + (int \<times> string) list" where
  "log_error_core log_s t cur_pid strerror ans level errnum fmt args =
     bindE (log_head t cur_pid level) (\<lambda>(p, errstr).
     bindE (fmt_string MAX_ERROR_STR fmt args p errstr) (\<lambda>(p, errstr).
     bindE (finish_message strerror errnum p errstr) (\<lambda>msg. Inr (log_write log_s ans level msg))))"

section \<open>init_log\<close>

text \<open>\<open>open_fd name\<close> is what \<open>open\<close> answers, \<open>errno\<close> the error when it fails.\<close>

definition init_log ::
  "conf_item list \<Rightarrow> (string \<Rightarrow> int) \<Rightarrow> u32 \<Rightarrow> tm \<Rightarrow> u32 \<Rightarrow> (u32 \<Rightarrow> string) \<Rightarrow> write_ans \<Rightarrow>
   fault + (log_t \<times> (int \<times> string) list)" where
  "init_log items open_fd errno t cur_pid strerror ans =
     (let plogname = (case GetString items ''Log'' of None \<Rightarrow> ''logs/error.log'' | Some n \<Rightarrow> n);
          log_s = \<lparr>log_level = GetInt items ''LogLevel'' LOG_NOTICE, log_fd = open_fd plogname\<rparr>
      in if log_fd log_s = -1 then
           bindE (log_error_core log_s t cur_pid strerror ans LOG_ALERT errno
               ''[alert] could not open error log file: open() \"%s\" failed'' [ArgStr plogname])
             (\<lambda>out. Inr (log_s\<lparr>log_fd := STDERR_FILENO\<rparr>, out))
         else Inr (log_s, []))"

section \<open>The text of a line\<close>

lemma render_Nil [simp]: "render [] args = Some []"
  by (subst render.simps) simp

lemma render_char: "c \<noteq> CHR ''%'' \<Longrightarrow> render (c # f) args = map_option ((#) c) (render f args)"
  by (subst render.simps) simp

lemma render_conv: "render (CHR ''%'' # f) args =
    (let (sp, f) = parse_spec f in if f = [] then None
     else case directive sp (hd f) args of None \<Rightarrow> None
       | Some (s, args) \<Rightarrow> map_option ((@) s) (render (tl f) args))"
  by (subst render.simps) simp

lemmas render_eval = render_char render_conv parse_spec_def is_digit_def directive_def

definition field :: "char \<Rightarrow> u64 \<Rightarrow> u32 \<Rightarrow> string" where
  "field z w = int_text \<lparr>zero = z, width = w, sign = True, hex = 0, width_frac = 0\<rparr>"

definition time_text :: "tm \<Rightarrow> string" where
  "time_text t = field CHR '' '' 4 (tm_year t) @ ''/'' @ field CHR ''0'' 2 (tm_mon t) @ ''/'' @
     field CHR ''0'' 2 (tm_mday t) @ '' '' @ field CHR ''0'' 2 (tm_hour t) @ '':'' @
     field CHR ''0'' 2 (tm_min t) @ '':'' @ field CHR ''0'' 2 (tm_sec t)"

definition head_text :: "tm \<Rightarrow> u32 \<Rightarrow> nat \<Rightarrow> string" where
  "head_text t cur_pid level = time_text t @ '' ['' @ err_levels ! level @ '']  '' @ field CHR '' '' 0 cur_pid @ '' ''"

definition tm_ok :: "tm \<Rightarrow> bool" where
  "tm_ok t \<longleftrightarrow> 0 \<le> sint (tm_year t) \<and> 0 \<le> sint (tm_mon t) \<and> 0 \<le> sint (tm_mday t) \<and>
     0 \<le> sint (tm_hour t) \<and> 0 \<le> sint (tm_min t) \<and> 0 \<le> sint (tm_sec t)"

lemma render_time: "render ''%4d/%02d/%02d %02d:%02d:%02d''
    [ArgInt (tm_year t), ArgInt (tm_mon t), ArgInt (tm_mday t), ArgInt (tm_hour t), ArgInt (tm_min t), ArgInt (tm_sec t)] =
    Some (time_text t)"
  by (simp add: render_eval time_text_def field_def)

lemma render_level: "render '' [%s] '' [ArgStr s] = Some ('' ['' @ s @ ''] '')"
  by (simp add: render_eval)

lemma render_pid: "render '' %p '' [ArgInt w] = Some ('' '' @ field CHR '' '' 0 w @ '' '')"
  by (simp add: render_eval field_def)

lemma length_field: "0 \<le> sint w \<Longrightarrow> n \<noteq> 0 \<Longrightarrow> length (field z n w) = unat n"
  by (simp add: field_def int_text_def num_text_def Let_def)

lemma length_field_0: "length (field z 0 w) \<le> 21"
  using length_dec_units_20 le_trans [OF length_dec_units_20, of 21]
  by (simp add: field_def int_text_def num_text_def num_units_def)

lemma digit_not_nul: "is_digit c \<Longrightarrow> c \<noteq> CHR 0x00"
  by (auto simp: is_digit_def)

lemma field_no_nul [simp]: "0 \<le> sint w \<Longrightarrow> z \<noteq> CHR 0x00 \<Longrightarrow> CHR 0x00 \<notin> set (field z n w)"
  using dec_units_digits digit_not_nul
  by (auto simp: field_def int_text_def num_text_def num_units_def Let_def dest!: in_set_takeD)

lemma length_time_text: "tm_ok t \<Longrightarrow> length (time_text t) = 19"
  by (simp add: time_text_def tm_ok_def length_field)

lemma time_text_no_nul: "tm_ok t \<Longrightarrow> \<forall>c \<in> set (time_text t). c \<noteq> CHR 0x00"
  by (auto simp: time_text_def tm_ok_def)

lemma c_string_time: "\<forall>c \<in> set s. c \<noteq> CHR 0x00 \<Longrightarrow> c_string (s @ replicate n CHR 0x00) = s"
  by (cases n) (simp_all add: c_string_def takeWhile_append)

lemma log_time_eq:
  assumes "tm_ok t"
  shows "log_time t = Inr (time_text t)"
proof -
  have "fmt_string (2 ^ 64 - 1) ''%4d/%02d/%02d %02d:%02d:%02d''
      [ArgInt (tm_year t), ArgInt (tm_mon t), ArgInt (tm_mday t), ArgInt (tm_hour t), ArgInt (tm_min t), ArgInt (tm_sec t)]
      (Some 0) (replicate 40 CHR 0x00) = Inr (Some 19, write_at (replicate 40 CHR 0x00) 0 (time_text t))"
    using fmt_string_render [OF render_time [of t], of 0 "2 ^ 64 - 1" "replicate 40 CHR 0x00"] length_time_text [OF assms]
    by simp
  then show ?thesis
    using c_string_time [OF time_text_no_nul [OF assms]] length_time_text [OF assms]
    by (simp add: log_time_def write_at_def)
qed

abbreviation (input) empty_message :: string where "empty_message \<equiv> replicate (MAX_ERROR_STR + 1) CHR 0x00"

lemma log_head_eq:
  assumes "tm_ok t" "level < length err_levels" "length (head_text t cur_pid level) < MAX_ERROR_STR"
  shows "log_head t cur_pid level =
    Inr (Some (length (head_text t cur_pid level)), write_at empty_message 0 (head_text t cur_pid level))"
proof -
  let ?l = "'' ['' @ err_levels ! level @ ''] ''" and ?p = "'' '' @ field CHR '' '' 0 cur_pid @ '' ''"
  have h: "head_text t cur_pid level = (time_text t @ ?l) @ ?p" by (simp add: head_text_def)
  have one: "fmt_string MAX_ERROR_STR '' [%s] '' [ArgStr (err_levels ! level)] (Some (length (time_text t)))
      (write_at empty_message 0 (time_text t)) =
      Inr (Some (length (time_text t) + length ?l), write_at empty_message 0 (time_text t @ ?l))"
    using assms(3) write_at_append [of 0 "time_text t" ?l empty_message]
    by (subst fmt_string_render [OF render_level]) (simp_all add: h)
  have two: "fmt_string MAX_ERROR_STR '' %p '' [ArgInt cur_pid] (Some (length (time_text t) + length ?l))
      (write_at empty_message 0 (time_text t @ ?l)) =
      Inr (Some (length (head_text t cur_pid level)), write_at empty_message 0 (head_text t cur_pid level))"
    using assms(3) write_at_append [of 0 "time_text t @ ?l" ?p empty_message]
    by (subst fmt_string_render [OF render_pid]) (simp_all add: h add.assoc)
  show ?thesis
    using assms(2) one two by (simp add: log_head_def log_time_eq [OF assms(1)])
qed

definition error_text :: "(u32 \<Rightarrow> string) \<Rightarrow> u32 \<Rightarrow> string" where
  "error_text strerror errnum =
     (if errnum = 0 then [] else '' ['' @ field CHR '' '' 0 errnum @ '': '' @ strerror errnum @ '']'')"

lemma render_errno: "render '' [%d: '' [ArgInt w] = Some ('' ['' @ field CHR '' '' 0 w @ '': '')"
  by (simp add: render_eval field_def)

lemma render_errinfo: "render ''%s]'' [ArgStr s] = Some (s @ '']'')"
  by (simp add: render_eval)

lemma log_errno_eq:
  assumes "length s + length (error_text strerror errnum) < MAX_ERROR_STR" "errnum \<noteq> 0"
  shows "log_errno MAX_ERROR_STR (strerror errnum) errnum (Some (length s)) (write_at empty_message 0 s) =
    Inr (Some (length (s @ error_text strerror errnum)), write_at empty_message 0 (s @ error_text strerror errnum))"
proof -
  let ?a = "'' ['' @ field CHR '' '' 0 errnum @ '': ''" and ?b = "strerror errnum @ '']''"
  have e: "error_text strerror errnum = ?a @ ?b" using assms(2) by (simp add: error_text_def)
  have one: "fmt_string MAX_ERROR_STR '' [%d: '' [ArgInt errnum] (Some (length s)) (write_at empty_message 0 s) =
      Inr (Some (length (s @ ?a)), write_at empty_message 0 (s @ ?a))"
    using assms(1) write_at_append [of 0 s ?a empty_message]
    by (subst fmt_string_render [OF render_errno]) (simp_all add: e)
  have two: "fmt_string MAX_ERROR_STR ''%s]'' [ArgStr (strerror errnum)] (Some (length (s @ ?a)))
      (write_at empty_message 0 (s @ ?a)) =
      Inr (Some (length (s @ ?a @ ?b)), write_at empty_message 0 (s @ ?a @ ?b))"
    using assms(1) write_at_append [of 0 "s @ ?a" ?b empty_message]
    by (subst fmt_string_render [OF render_errinfo]) (simp_all add: e add.assoc)
  show ?thesis unfolding e log_errno_def one using two by simp
qed

lemma finish_message_eq:
  assumes "length s + length (error_text strerror errnum) < MAX_ERROR_STR - 1"
  shows "finish_message strerror errnum (Some (length s)) (write_at empty_message 0 s) =
    Inr (s @ error_text strerror errnum @ [CHR 0x0A])"
proof -
  let ?s = "s @ error_text strerror errnum"
  have e: "(if errnum \<noteq> 0 then log_errno MAX_ERROR_STR (strerror errnum) errnum (Some (length s)) (write_at empty_message 0 s)
      else Inr (Some (length s), write_at empty_message 0 s)) = Inr (Some (length ?s), write_at empty_message 0 ?s)"
  proof (cases "errnum = 0")
    case True
    then show ?thesis by (simp add: error_text_def)
  next
    case False
    with log_errno_eq [of s strerror errnum] assms show ?thesis by simp
  qed
  have "put_char CHR 0x0A (Some (length ?s)) (write_at empty_message 0 ?s) =
      Inr (Some (length ?s + 1), write_at empty_message 0 (?s @ [CHR 0x0A]))"
    using assms write_at_append [of 0 ?s "[CHR 0x0A]" empty_message] by (simp add: put_char_eq)
  then show ?thesis unfolding finish_message_def e using assms by (simp add: write_at_def)
qed

lemma log_error_core_eq:
  assumes "tm_ok t" "level < length err_levels" "render fmt args = Some s"
    and "length (head_text t cur_pid level @ s @ error_text strerror errnum) < MAX_ERROR_STR - 1"
  shows "log_error_core log_s t cur_pid strerror ans level errnum fmt args =
    Inr (log_write log_s ans level (head_text t cur_pid level @ s @ error_text strerror errnum @ [CHR 0x0A]))"
proof -
  let ?h = "head_text t cur_pid level"
  have "fmt_string MAX_ERROR_STR fmt args (Some (length ?h)) (write_at empty_message 0 ?h) =
      Inr (Some (length (?h @ s)), write_at empty_message 0 (?h @ s))"
    using assms(4) write_at_append [of 0 ?h s empty_message]
    by (subst fmt_string_render [OF assms(3)]) simp_all
  moreover have "log_head t cur_pid level = Inr (Some (length ?h), write_at empty_message 0 ?h)"
    by (rule log_head_eq [OF assms(1,2)]) (use assms(4) in simp)
  ultimately show ?thesis
    using finish_message_eq [of "?h @ s" strerror errnum] assms(4) by (simp add: log_error_core_def)
qed

text \<open>The head of a line is short; a call with the wrong arguments faults when there is room for what comes before.\<close>

lemma length_head_text:
  assumes "tm_ok t" "level < length err_levels"
  shows "length (head_text t cur_pid level) \<le> 52"
proof -
  have "length (err_levels ! level) \<le> 6"
    using assms(2) by (auto simp: err_levels_def less_Suc_eq)
  with length_time_text [OF assms(1)] length_field_0 [of "CHR '' ''" cur_pid] show ?thesis
    by (simp add: head_text_def)
qed

lemma log_error_core_faults:
  assumes "tm_ok t" "level < length err_levels" "faults_after fmt args = Some s" "length s < 1900"
  shows "log_error_core log_s t cur_pid strerror ans level errnum fmt args = Inl BadAccess"
proof -
  let ?h = "head_text t cur_pid level"
  note h = length_head_text [OF assms(1,2), of cur_pid]
  have "fmt_string MAX_ERROR_STR fmt args (Some (length ?h)) (write_at empty_message 0 ?h) = Inl BadAccess"
    by (rule fmt_string_faults [OF assms(3)]) (use h assms(4) in simp_all)
  moreover have "log_head t cur_pid level = Inr (Some (length ?h), write_at empty_message 0 ?h)"
    by (rule log_head_eq [OF assms(1,2)]) (use h in simp)
  ultimately show ?thesis by (simp add: log_error_core_def)
qed

lemma log_short:
  assumes "tm_ok t" "level < length err_levels" "render fmt args = Some s" "length s < 1900"
  shows "log_error_core log_s t cur_pid strerror ans level 0 fmt args =
    Inr (log_write log_s ans level (head_text t cur_pid level @ s @ [CHR 0x0A]))"
  using log_error_core_eq [OF assms(1-3), of cur_pid strerror 0 log_s ans] length_head_text [OF assms(1,2), of cur_pid]
    assms(4) by (simp add: error_text_def)

section \<open>Properties\<close>

text \<open>C36. A message that fits is written completely and in one piece, or not at all: its line is the date
  and time, the level in brackets, the process number, the formatted text, the error text if there
  is one, and a newline; it goes to the log file if the level is not above the configured one, and
  to the standard error output only if writing the file fails for another reason than a full disk.\<close>

theorem log_line_written:
  assumes "tm_ok t" "level < length err_levels" "render fmt args = Some s"
    and "length (head_text t cur_pid level @ s @ error_text strerror errnum) < MAX_ERROR_STR - 1"
  shows "log_error_core log_s t cur_pid strerror ans level errnum fmt args =
    (let line = head_text t cur_pid level @ s @ error_text strerror errnum @ [CHR 0x0A] in
     Inr (if int level > log_level log_s then []
          else if (\<exists>e. ans = WriteErr e \<and> e \<noteq> ENOSPC) \<and> log_fd log_s \<noteq> STDERR_FILENO
               then [(log_fd log_s, line), (STDERR_FILENO, line)] else [(log_fd log_s, line)]))"
  unfolding log_error_core_eq [OF assms] Let_def by (auto simp: log_write_def split: write_ans.splits)

definition example_time :: tm where
  "example_time = \<lparr>tm_year = 2023, tm_mon = 6, tm_mday = 4, tm_hour = 20, tm_min = 26, tm_sec = 7\<rparr>"

theorem log_line_written_witness:
  "log_error_core \<lparr>log_level = 8, log_fd = 3\<rparr> example_time 77 (\<lambda>_. ''Bad file descriptor'') WriteOk 2 9 ''fd %d'' [ArgInt 5] =
   Inr [(3, ''2023/06/04 20:26:07 [alert]  77 fd 5 [9: Bad file descriptor]'' @ [CHR 0x0A])]"
proof -
  have 1: "tm_ok example_time" "(2::nat) < length err_levels" by code_simp+
  have 2: "render ''fd %d'' [ArgInt 5] = Some ''fd 5''" by code_simp
  have h: "head_text example_time 77 2 = ''2023/06/04 20:26:07 [alert]  77 ''" by code_simp
  have e: "error_text (\<lambda>_. ''Bad file descriptor'') 9 = '' [9: Bad file descriptor]''" by code_simp
  from log_line_written [OF 1 2, of 77 "\<lambda>_. ''Bad file descriptor''" 9 "\<lparr>log_level = 8, log_fd = 3\<rparr>" WriteOk]
  show ?thesis unfolding h e by simp
qed

text \<open>A number that no longer fits ends the process: \<open>fmt_string\<close> then answers with a null pointer,
  which compares below every position, and the newline is stored through it.\<close>

theorem number_without_room_faults:
  assumes "7 + length s < MAX_ERROR_STR" "MAX_ERROR_STR < 7 + length s + length (field CHR '' '' 0 w)" "0 \<le> sint w"
  shows "std_error_core strerror 0 ''%s%d'' [ArgStr s, ArgInt w] = Inl BadAccess"
proof -
  let ?m = "write_at empty_message 0 ''nginx: ''"
  let ?m1 = "write_at ?m 7 s"
  have p1: "parse_spec ''s%d'' = (\<lparr>zero = CHR '' '', width = 0, sign = True, hex = 0, width_frac = 0\<rparr>, ''s%d'')"
    by (simp add: parse_spec_def is_digit_def Let_def)
  have s: "convert MAX_ERROR_STR sp CHR ''s'' (ArgStr s # args) (Some 7) ?m = Inr (args, Some (7 + length s), ?m1)" for sp args
    using assms(1) by (simp add: convert_def put_str_eq)
  have f: "field CHR '' '' 0 w = num_text CHR '' '' 0 0 (word_of_int (sint w))"
    using assms(3) by (simp add: field_def int_text_def)
  have "ui64_string MAX_ERROR_STR (7 + length s) (word_of_int (sint w)) CHR '' '' 0 0 ?m1 = Inr (None, ?m1)"
    by (rule ui64_string_no_room) (use assms(1,2) in \<open>auto simp: f\<close>)
  then have d: "convert MAX_ERROR_STR \<lparr>zero = CHR '' '', width = 0, sign = True, hex = 0, width_frac = 0\<rparr> CHR ''d''
      [ArgInt w] (Some (7 + length s)) ?m1 = Inr ([], None, ?m1)"
    using assms(3) by (simp add: convert_def put_int_def Let_def)
  have "fmt_string MAX_ERROR_STR ''%d'' [ArgInt w] (Some (7 + length s)) ?m1 = Inr (None, ?m1)"
    using assms(1) d by (subst fmt_string.simps) (simp add: before_def parse_d fmt_string.simps [of _ "[]"])
  then have "fmt_string MAX_ERROR_STR ''%s%d'' [ArgStr s, ArgInt w] (Some 7) ?m = Inr (None, ?m1)"
    using s by (subst fmt_string.simps) (simp add: before_def p1)
  moreover have "length ''nginx: '' = 7" by simp
  ultimately show ?thesis
    unfolding std_error_core_def Let_def by (simp only:) (simp add: finish_message_def put_char_def)
qed

theorem number_without_room_faults_witness:
  "std_error_core (\<lambda>_. []) 0 ''%s%d'' [ArgStr (replicate 2040 CHR ''x''), ArgInt 10] = Inl BadAccess"
proof -
  have "field CHR '' '' 0 10 = ''10''" by code_simp
  with number_without_room_faults [of "replicate 2040 CHR ''x''" 10 "\<lambda>_. []"] show ?thesis by simp
qed

end
