(* ===== verification/Signals.thy ===== *)
theory Signals
  imports Log
begin

text \<open>
  Signals (\<open>signal/signal.cxx\<close>): the table, the handler all signals share, the collection of ended
  child processes, and the registration. The log and the answers of \<open>waitpid\<close> and \<open>sigaction\<close> are
  arguments.
\<close>

section \<open>The table\<close>

abbreviation (input) SIGHUP :: u32 where "SIGHUP \<equiv> 1"
abbreviation (input) SIGINT :: u32 where "SIGINT \<equiv> 2"
abbreviation (input) SIGQUIT :: u32 where "SIGQUIT \<equiv> 3"
abbreviation (input) SIGUSR1 :: u32 where "SIGUSR1 \<equiv> 10"
abbreviation (input) SIGTERM :: u32 where "SIGTERM \<equiv> 15"
abbreviation (input) SIGCHLD :: u32 where "SIGCHLD \<equiv> 17"
abbreviation (input) SIGIO :: u32 where "SIGIO \<equiv> 29"
abbreviation (input) SIGSYS :: u32 where "SIGSYS \<equiv> 31"

abbreviation (input) PROCESS_MASTER :: int where "PROCESS_MASTER \<equiv> 0"
abbreviation (input) PROCESS_WORKER :: int where "PROCESS_WORKER \<equiv> 1"

abbreviation (input) LOG_EMERG :: nat where "LOG_EMERG \<equiv> 1"
abbreviation (input) LOG_INFO :: nat where "LOG_INFO \<equiv> 7"
abbreviation (input) ECHILD :: int where "ECHILD \<equiv> 10"
abbreviation (input) EINTR :: int where "EINTR \<equiv> 4"

text \<open>\<open>sig_handled\<close> is false where the table has a null handler: the signal is ignored.\<close>

record signal_t =
  signo :: u32
  signame :: string
  sig_handled :: bool

definition signals :: "signal_t list" where
  "signals =
     [\<lparr>signo = SIGHUP, signame = ''SIGHUP'', sig_handled = True\<rparr>,
      \<lparr>signo = SIGINT, signame = ''SIGINT'', sig_handled = True\<rparr>,
      \<lparr>signo = SIGTERM, signame = ''SIGTERM'', sig_handled = True\<rparr>,
      \<lparr>signo = SIGCHLD, signame = ''SIGCHLD'', sig_handled = True\<rparr>,
      \<lparr>signo = SIGQUIT, signame = ''SIGQUIT'', sig_handled = True\<rparr>,
      \<lparr>signo = SIGIO, signame = ''SIGIO'', sig_handled = True\<rparr>,
      \<lparr>signo = SIGUSR1, signame = ''SIGUSR1'', sig_handled = True\<rparr>,
      \<lparr>signo = SIGSYS, signame = ''SIGSYS, SIG_IGN'', sig_handled = False\<rparr>]"

text \<open>The search loop; behind the last signal stands an entry without a name.\<close>

fun find_signal :: "u32 \<Rightarrow> signal_t list \<Rightarrow> string option" where
  "find_signal n [] = None"
| "find_signal n (s # ss) = (if signo s = n then Some (signame s) else find_signal n ss)"

section \<open>Collecting children\<close>

text \<open>One call of the log, with the log's own state and environment already supplied.\<close>

type_synonym logger = "nat \<Rightarrow> u32 \<Rightarrow> string \<Rightarrow> fmt_arg list \<Rightarrow> fault + (int \<times> string) list"

datatype wait_res = WaitPid u32 u32 | WaitNone | WaitErr int

definition WTERMSIG :: "u32 \<Rightarrow> u32" where "WTERMSIG status = status AND 0x7f"
definition WEXITSTATUS :: "u32 \<Rightarrow> u32" where "WEXITSTATUS status = drop_bit 8 (status AND 0xff00)"

fun process_get_status :: "logger \<Rightarrow> bool \<Rightarrow> wait_res list \<Rightarrow> fault + (int \<times> string) list" where
  "process_get_status log one [] = Inl Waiting"
| "process_get_status log one (WaitNone # ws) = Inr []"
| "process_get_status log one (WaitErr err # ws) =
     (if err = EINTR then process_get_status log one ws
      else if err = ECHILD \<and> one then Inr []
      else if err = ECHILD then log LOG_INFO (word_of_int err) ''waitpid() failed!'' []
      else log LOG_INFO (word_of_int err) ''waitpid() failed!'' [])"
| "process_get_status log one (WaitPid pid status # ws) =
     bindE (if WTERMSIG status \<noteq> 0
            then log LOG_ALERT 0 ''pid = %P exited on signal %d!'' [ArgInt pid, ArgInt (WTERMSIG status)]
            else log 6 0 ''pid = %P exited with code %d!'' [ArgInt pid, ArgInt (WEXITSTATUS status)])
       (\<lambda>out. bindE (process_get_status log True ws) (\<lambda>out'. Inr (out @ out')))"

section \<open>The handler\<close>

record proc =
  process_form :: int
  reap :: int

text \<open>\<open>sender\<close> is \<open>None\<close> without signal information, else its \<open>si_pid\<close>.\<close>

definition signal_handler ::
  "logger \<Rightarrow> wait_res list \<Rightarrow> u32 \<Rightarrow> u32 option \<Rightarrow> proc \<Rightarrow> fault + (proc \<times> (int \<times> string) list)" where
  "signal_handler log ws n sender p =
     (let p = (if process_form p = PROCESS_MASTER \<and> n = SIGCHLD then p\<lparr>reap := 1\<rparr> else p);
          action = [] :: string
      in case find_signal n signals of
           None \<Rightarrow> Inl BadAccess
         | Some name \<Rightarrow>
             bindE (case sender of
                  Some pid \<Rightarrow> if pid \<noteq> 0
                    then log LOG_INFO 0 ''signal %d (%s) received from %P%s''
                           [ArgInt n, ArgStr name, ArgInt pid, ArgStr action]
                    else log LOG_INFO 0 ''signal %d (%s) received %s'' [ArgInt n, ArgStr name, ArgStr action]
                | None \<Rightarrow> log LOG_INFO 0 ''signal %d (%s) received %s'' [ArgInt n, ArgStr name, ArgStr action])
               (\<lambda>out. if n = SIGCHLD
                  then bindE (process_get_status log False ws) (\<lambda>out'. Inr (p, out @ out'))
                  else Inr (p, out)))"

section \<open>Registration\<close>

text \<open>\<open>oks\<close> are the answers of \<open>sigaction\<close>, with the error number when it fails. The result is the value
  returned, the dispositions set, and the log.\<close>

fun init_signals_loop ::
  "logger \<Rightarrow> (bool \<times> u32) list \<Rightarrow> signal_t list \<Rightarrow> fault + (int \<times> (u32 \<times> bool) list \<times> (int \<times> string) list)" where
  "init_signals_loop log oks [] = Inr (0, [], [])"
| "init_signals_loop log [] (s # ss) = Inl Waiting"
| "init_signals_loop log ((ok, errno) # oks) (s # ss) =
     (if \<not> ok then bindE (log LOG_EMERG errno ''sigaction(%s) failed'' [ArgStr (signame s)]) (\<lambda>out. Inr (-1, [], out))
      else bindE (log LOG_INFO 0 ''sigaction(%s) succed!'' [ArgStr (signame s)]) (\<lambda>out.
           bindE (init_signals_loop log oks ss) (\<lambda>(r, set_sigs, out').
             Inr (r, (signo s, sig_handled s) # set_sigs, out @ out'))))"

definition init_signals ::
  "logger \<Rightarrow> (bool \<times> u32) list \<Rightarrow> fault + (int \<times> (u32 \<times> bool) list \<times> (int \<times> string) list)" where
  "init_signals log oks = init_signals_loop log oks signals"

section \<open>Properties\<close>

lemma find_signal_length: "find_signal n ss = Some name \<Longrightarrow> \<exists>s \<in> set ss. signame s = name"
  by (induction ss) (auto split: if_splits)

lemma signal_name_short:
  assumes "find_signal n signals = Some name"
  shows "length name \<le> 15"
proof -
  from find_signal_length [OF assms] obtain s where "s \<in> set signals" "signame s = name" by blast
  then show ?thesis by (auto simp: signals_def)
qed

lemma faults_char: "c \<noteq> CHR ''%'' \<Longrightarrow> faults_after (c # f) args = map_option ((#) c) (faults_after f args)"
  by (subst faults_after.simps) simp

lemma faults_conv: "faults_after (CHR ''%'' # f) args =
    (let (sp, f) = parse_spec f in if f = [] then Some []
     else case directive sp (hd f) args of None \<Rightarrow> Some []
       | Some (s, args) \<Rightarrow> map_option ((@) s) (faults_after (tl f) args))"
  by (subst faults_after.simps) simp

lemmas faults_eval = faults_char faults_conv parse_spec_def is_digit_def directive_def

lemma sender_message_faults:
  "faults_after ''signal %d (%s) received from %P%s'' [ArgInt n, ArgStr name, ArgInt pid, ArgStr action] =
     Some (''signal '' @ field CHR '' '' 0 n @ '' ('' @ name @ '') received from P'')"
  by (simp add: faults_eval field_def)

text \<open>C37. A signal that another process sends ends the process that receives it: the engine knows no
  \<open>%P\<close>, so the string directive behind it takes the number of the sender for a pointer. This holds for
  every signal of the table, in the master and in a worker, at every log level; in particular the
  master does not survive the end of a worker (\<open>SIGCHLD\<close> carries the worker's number).\<close>

theorem signal_with_sender_faults:
  assumes "tm_ok t" "find_signal n signals = Some name" "pid \<noteq> 0"
  shows "signal_handler (log_error_core log_s t cur_pid strerror ans) ws n (Some pid) p = Inl BadAccess"
proof -
  have "length (''signal '' @ field CHR '' '' 0 n @ '' ('' @ name @ '') received from P'') < 1900"
    using signal_name_short [OF assms(2)] length_field_0 [of "CHR '' ''" n] by simp
  from log_error_core_faults [OF assms(1) _ sender_message_faults this, of 7]
  show ?thesis using assms(2,3) by (simp add: signal_handler_def err_levels_def)
qed

theorem signal_with_sender_faults_witness:
  "signal_handler (log_error_core \<lparr>log_level = 0, log_fd = 2\<rparr> example_time 77 (\<lambda>_. []) WriteOk) [] SIGCHLD (Some 78)
     \<lparr>process_form = PROCESS_MASTER, reap = 0\<rparr> = Inl BadAccess"
proof (rule signal_with_sender_faults)
  show "tm_ok example_time" "find_signal SIGCHLD signals = Some ''SIGCHLD''" by code_simp+
qed simp

definition status_line :: "u32 \<Rightarrow> u32 \<Rightarrow> string" where
  "status_line pid status =
     (if WTERMSIG status \<noteq> 0 then ''pid = P exited on signal '' else ''pid = P exited with code '') @
     field CHR '' '' 0 pid @ ''!''"

lemma render_status:
  "render ''pid = %P exited on signal %d!'' [ArgInt pid, ArgInt s] = Some (''pid = P exited on signal '' @ field CHR '' '' 0 pid @ ''!'')"
  "render ''pid = %P exited with code %d!'' [ArgInt pid, ArgInt s] = Some (''pid = P exited with code '' @ field CHR '' '' 0 pid @ ''!'')"
  by (simp_all add: render_eval field_def)

lemma log_status:
  assumes "tm_ok t"
  shows "(if WTERMSIG status \<noteq> 0
      then log_error_core log_s t cur_pid strerror ans LOG_ALERT 0 ''pid = %P exited on signal %d!''
             [ArgInt pid, ArgInt (WTERMSIG status)]
      else log_error_core log_s t cur_pid strerror ans 6 0 ''pid = %P exited with code %d!''
             [ArgInt pid, ArgInt (WEXITSTATUS status)]) =
    (let level = (if WTERMSIG status \<noteq> 0 then LOG_ALERT else 6) in
     Inr (log_write log_s ans level (head_text t cur_pid level @ status_line pid status @ [CHR 0x0A])))"
  using length_field_0 [of "CHR '' ''" pid]
  by (simp add: log_short [OF assms _ render_status(1)] log_short [OF assms _ render_status(2)] status_line_def err_levels_def)

text \<open>C38. Collecting the children takes every ended child the system reports, in order, and ends at the
  first answer that says there is none; interrupted calls are repeated. Each child gets one line in
  the log, at level alert if a signal ended it and notice otherwise -- but the line has a \<open>P\<close> in
  place of the process number, and the process number in place of the signal or the exit code.\<close>

theorem children_collected:
  assumes "tm_ok t" "\<forall>w \<in> set ws. w = WaitErr EINTR \<or> (\<exists>pid status. w = WaitPid pid status)"
  shows "process_get_status (log_error_core log_s t cur_pid strerror ans) one (ws @ WaitNone # rest) =
    Inr (concat (map (\<lambda>w. case w of
        WaitPid pid status \<Rightarrow>
          let level = (if WTERMSIG status \<noteq> 0 then LOG_ALERT else 6) in
          log_write log_s ans level (head_text t cur_pid level @ status_line pid status @ [CHR 0x0A])
      | _ \<Rightarrow> []) ws))"
  using assms(2)
proof (induction ws arbitrary: one)
  case Nil
  then show ?case by simp
next
  case (Cons w ws)
  then show ?case by (auto simp: log_status [OF assms(1)] Let_def split: if_splits)
qed

theorem children_collected_witness:
  "process_get_status (log_error_core \<lparr>log_level = 8, log_fd = 3\<rparr> example_time 77 (\<lambda>_. []) WriteOk) False
     [WaitErr EINTR, WaitPid 1234 9, WaitNone] =
   Inr [(3, ''2023/06/04 20:26:07 [alert]  77 pid = P exited on signal 1234!'' @ [CHR 0x0A])]"
proof -
  have t: "tm_ok example_time" by code_simp
  have h: "head_text example_time 77 2 @ status_line 1234 9 =
      ''2023/06/04 20:26:07 [alert]  77 pid = P exited on signal 1234!''" by code_simp
  then have h': "head_text example_time 77 2 @ status_line 1234 9 @ [CHR 0x0A] =
      ''2023/06/04 20:26:07 [alert]  77 pid = P exited on signal 1234!'' @ [CHR 0x0A]"
    by (metis append_assoc)
  have w: "WTERMSIG 9 = 9" by (simp add: WTERMSIG_def)
  from children_collected [OF t, of "[WaitErr EINTR, WaitPid 1234 9]" "\<lparr>log_level = 8, log_fd = 3\<rparr>" 77 "\<lambda>_. []" WriteOk False "[]"]
  show ?thesis by (simp add: w h' log_write_def)
qed

section \<open>Registration\<close>

lemma render_sigaction:
  "render ''sigaction(%s) failed'' [ArgStr s] = Some (''sigaction('' @ s @ '') failed'')"
  "render ''sigaction(%s) succed!'' [ArgStr s] = Some (''sigaction('' @ s @ '') succed!'')"
  by (simp_all add: render_eval)

lemma init_signals_loop_registers:
  assumes "tm_ok t" "\<forall>s \<in> set ss. length (signame s) < 100" "length ss \<le> length oks" "\<forall>x \<in> set oks. fst x"
  shows "\<exists>out. init_signals_loop (log_error_core log_s t cur_pid strerror ans) oks ss =
    Inr (0, map (\<lambda>s. (signo s, sig_handled s)) ss, out)"
  using assms(2-)
proof (induction ss arbitrary: oks)
  case Nil
  then show ?case by simp
next
  case (Cons s ss)
  from Cons.prems(2) obtain ok errno oks' where oks: "oks = (ok, errno) # oks'" by (cases oks) auto
  have "length (''sigaction('' @ signame s @ '') succed!'') < 1900" using Cons.prems(1) by simp
  from log_short [OF assms(1) _ render_sigaction(2) this, of 7]
  have "log_error_core log_s t cur_pid strerror ans LOG_INFO 0 ''sigaction(%s) succed!'' [ArgStr (signame s)] =
      Inr (log_write log_s ans LOG_INFO (head_text t cur_pid LOG_INFO @ (''sigaction('' @ signame s @ '') succed!'') @ [CHR 0x0A]))"
    by (simp add: err_levels_def)
  moreover from Cons.IH [of oks'] Cons.prems obtain out where
    "init_signals_loop (log_error_core log_s t cur_pid strerror ans) oks' ss =
      Inr (0, map (\<lambda>s. (signo s, sig_handled s)) ss, out)" by (auto simp: oks)
  ultimately show ?case using Cons.prems(3) by (simp add: oks)
qed

lemma init_signals_registers:
  assumes "tm_ok t" "8 \<le> length oks" "\<forall>x \<in> set oks. fst x"
  shows "\<exists>out. init_signals (log_error_core log_s t cur_pid strerror ans) oks =
    Inr (0, map (\<lambda>s. (signo s, sig_handled s)) signals, out)"
  unfolding init_signals_def
  by (rule init_signals_loop_registers) (use assms in \<open>auto simp: signals_def\<close>)

end
