(* ===== verification/Process.thy ===== *)
theory Process
  imports Startup Signals
begin

text \<open>
  The processes: \<open>main\<close> and \<open>freeresource\<close> (\<open>app/nginx.cxx\<close>), the title functions
  (\<open>app/func_proctitle.cxx\<close>), \<open>daemon_process\<close> (\<open>proc/proc_deamon.cxx\<close>) and the cycles of master
  and worker (\<open>proc/proc_cycle.cxx\<close>). The answers of the operating system are arguments.
\<close>

section \<open>The process title\<close>

text \<open>The loops of \<open>init_setproctitle\<close>: copy strings one behind the other into a new block; the result are
  the offsets, the new values of \<open>environ[i]\<close> or \<open>g_argv[i]\<close>, and the block.\<close>

fun copy_strings :: "string list \<Rightarrow> nat \<Rightarrow> string \<Rightarrow> fault + (nat list \<times> string)" where
  "copy_strings [] p mem = Inr ([], mem)"
| "copy_strings (s # ss) p mem =
     (let size = length s + 1 in
      if p + size \<le> length mem then
        bindE (copy_strings ss (p + size) (write_at mem p (s @ [CHR 0x00]))) (\<lambda>(ps, mem). Inr (p # ps, mem))
      else Inl BadAccess)"

record moved =
  g_p_envmem :: string
  environ :: "nat list"
  g_p_argmem :: string
  g_argv :: "nat list"

definition init_setproctitle :: "nat \<Rightarrow> nat \<Rightarrow> string list \<Rightarrow> string list \<Rightarrow> fault + moved" where
  "init_setproctitle arglen environlen args envs =
     bindE (copy_strings envs 0 (replicate environlen CHR 0x00)) (\<lambda>(env, envmem).
     bindE (copy_strings args 0 (replicate arglen CHR 0x00)) (\<lambda>(argv, argmem).
       Inr \<lparr>g_p_envmem = envmem, environ = env, g_p_argmem = argmem, g_argv = argv\<rparr>))"

text \<open>\<open>setproctitle\<close> on the original block of arguments and environment, of \<open>arglen + environlen\<close> characters.\<close>

definition setproctitle :: "nat \<Rightarrow> nat \<Rightarrow> string \<Rightarrow> string \<Rightarrow> string" where
  "setproctitle arglen environlen title block =
     (let titlelen = length title; sum_size = arglen + environlen
      in if titlelen \<ge> sum_size then block
         else let block = write_at block 0 title
              in write_at block titlelen (replicate (sum_size - titlelen) CHR 0x00))"

text \<open>What \<open>main\<close> adds up for \<open>g_arglen\<close> and \<open>g_environlen\<close>.\<close>

fun sum_lengths :: "string list \<Rightarrow> nat" where
  "sum_lengths [] = 0"
| "sum_lengths (s # ss) = length s + 1 + sum_lengths ss"

text \<open>\<open>strcpy\<close> and \<open>strcat\<close>: characters are stored one after the other, with the zero at the end; a store or a
  search behind the end of the array is undefined.\<close>

fun store_string :: "string \<Rightarrow> nat \<Rightarrow> string \<Rightarrow> fault + string" where
  "store_string [] p mem = (if p < length mem then Inr (mem[p := CHR 0x00]) else Inl BadAccess)"
| "store_string (c # cs) p mem = (if p < length mem then store_string cs (p + 1) (mem[p := c]) else Inl BadAccess)"

fun find_zero :: "nat \<Rightarrow> string \<Rightarrow> fault + nat" where
  "find_zero p [] = Inl BadAccess"
| "find_zero p (c # cs) = (if c = CHR 0x00 then Inr p else find_zero (p + 1) cs)"

definition strcpy :: "string \<Rightarrow> string \<Rightarrow> fault + string" where
  "strcpy mem s = store_string s 0 mem"

definition strcat :: "string \<Rightarrow> string \<Rightarrow> fault + string" where
  "strcat mem s = bindE (find_zero 0 mem) (\<lambda>p. store_string s p mem)"

text \<open>The title of the master, in an array of \<open>arglen + environlen\<close> characters; the loop over the arguments.\<close>

fun cat_args :: "string list \<Rightarrow> string \<Rightarrow> fault + string" where
  "cat_args [] title = Inr title"
| "cat_args (s # ss) title = bindE (strcat title s) (cat_args ss)"

definition master_title :: "nat \<Rightarrow> nat \<Rightarrow> string list \<Rightarrow> fault + string" where
  "master_title arglen environlen args =
     (let title = replicate (arglen + environlen) CHR 0x00 in
      bindE (strcpy title ''master process'') (\<lambda>title.
      bindE (strcat title '' '') (\<lambda>title.
        cat_args args title)))"

section \<open>Process numbers and forks\<close>

record ids =
  cur_pid :: u32
  parent_pid :: u32
  master_pid :: u32
  pform :: int
  g_daemonized :: int
  null_fds :: "int list"

text \<open>\<open>fork\<close> fails, or returns in the child, which then learns its number, or in the parent.\<close>

datatype fork_ans = ForkErr | ForkChild u32 | ForkParent u32

record daemon_env =
  de_fork :: fork_ans
  de_setsid :: bool
  de_null :: int
  de_dup_in :: bool
  de_dup_out :: bool
  de_close :: bool

definition daemon_process :: "daemon_env \<Rightarrow> ids \<Rightarrow> int \<times> ids" where
  "daemon_process e st = (case de_fork e of
      ForkErr \<Rightarrow> (-1, st)
    | ForkParent _ \<Rightarrow> (1, st)
    | ForkChild me \<Rightarrow>
        (let st = st\<lparr>parent_pid := cur_pid st\<rparr>;
             st = st\<lparr>master_pid := me, cur_pid := me\<rparr>
         in if \<not> de_setsid e then (-1, st)
            else if de_null e = -1 then (-1, st)
            else if \<not> de_dup_in e then (-1, st)
            else let st = st\<lparr>null_fds := null_fds st @ [0]\<rparr> in
              if \<not> de_dup_out e then (-1, st)
              else let st = st\<lparr>null_fds := null_fds st @ [1]\<rparr> in
                if de_null e > 2 \<and> \<not> de_close e then (-1, st) else (0, st)))"

text \<open>\<open>spawn_process\<close> and the loop of \<open>start_worker_process\<close>. In a child the call does not return: it becomes
  worker number \<open>n\<close>.\<close>

datatype after_fork = MasterGoesOn ids | WorkerRuns nat ids

definition spawn_process :: "nat \<Rightarrow> fork_ans \<Rightarrow> ids \<Rightarrow> int \<times> after_fork" where
  "spawn_process n f st = (case f of
      ForkErr \<Rightarrow> (-1, MasterGoesOn st)
    | ForkChild me \<Rightarrow>
        (let st = st\<lparr>parent_pid := cur_pid st\<rparr>; st = st\<lparr>cur_pid := me\<rparr>
         in (0, WorkerRuns n (st\<lparr>pform := PROCESS_WORKER\<rparr>)))
    | ForkParent pid \<Rightarrow> (uint pid, MasterGoesOn st))"

fun start_worker_process :: "nat \<Rightarrow> nat \<Rightarrow> fork_ans list \<Rightarrow> ids \<Rightarrow> fault + after_fork" where
  "start_worker_process n 0 fs st = Inr (MasterGoesOn st)"
| "start_worker_process n (Suc k) [] st = Inl Waiting"
| "start_worker_process n (Suc k) (f # fs) st =
     (case snd (spawn_process n f st) of
        WorkerRuns m st' \<Rightarrow> Inr (WorkerRuns m st')
      | MasterGoesOn st' \<Rightarrow> start_worker_process (n + 1) k fs st')"

section \<open>The worker's cycle\<close>

text \<open>The loop of \<open>worker_process_cycle\<close> has no exit; \<open>ans i\<close> and \<open>clock i\<close> are what \<open>epoll_wait\<close> and \<open>time\<close>
  answer in round \<open>i\<close>. The calls behind the loop are never reached.\<close>

partial_function (option) worker_process_cycle ::
  "(nat \<Rightarrow> wait_ans) \<Rightarrow> (nat \<Rightarrow> int) \<Rightarrow> nat \<Rightarrow> world \<Rightarrow> (fault + world) option" where
  "worker_process_cycle ans clock i w =
     (case epoll_process_events (-1) (ans i) w of
        Inl e \<Rightarrow> Some (Inl e)
      | Inr (_, w) \<Rightarrow>
          worker_process_cycle ans clock (i + 1) (w\<lparr>g_socket := snd (PrintInfo (clock i) (g_socket w))\<rparr>))"

section \<open>main\<close>

text \<open>The descriptors \<open>freeresource\<close> closes.\<close>

definition freeresource :: "log_t \<Rightarrow> int list \<times> log_t" where
  "freeresource log_s =
     (if log_fd log_s \<noteq> STDERR_FILENO \<and> log_fd log_s \<noteq> -1
      then ([log_fd log_s], log_s\<lparr>log_fd := -1\<rparr>) else ([], log_s))"

record main_env =
  me_pid :: u32
  me_ppid :: u32
  me_args :: "string list"
  me_envs :: "string list"
  me_file :: "(string \<times> bool) option"
  me_open :: "string \<Rightarrow> int"
  me_open_errno :: u32
  me_time :: tm
  me_strerror :: "u32 \<Rightarrow> string"
  me_write :: write_ans
  me_sigaction :: "(bool \<times> u32) list"
  me_listen :: "nat \<Rightarrow> listen_env"
  me_heap :: "addr \<Rightarrow> connection"
  me_daemon :: daemon_env
  me_forks :: "fork_ans list"

text \<open>How \<open>main\<close> goes on: it exits with a code, its log output and the descriptors closed; or it stays the
  master; or it is, after a fork, a worker.\<close>

datatype main_end =
    Exits int "(int \<times> string) list" "int list"
  | Stays ids csocket "conf_item list"
  | Worker nat ids csocket "conf_item list"

definition leave :: "int \<Rightarrow> (int \<times> string) list \<Rightarrow> log_t \<Rightarrow> main_end" where
  "leave code out log_s = Exits code out (fst (freeresource log_s))"

text \<open>The name \<open>sprintf\<close> makes of the number of a port, and the port it has without a configured one.\<close>

definition conf_port :: "conf_item list \<Rightarrow> nat \<Rightarrow> int" where
  "conf_port items i = GetInt items (''ListenPort'' @ rev (dec_units (of_nat i))) (9000 + int i)"

definition master_process_cycle :: "main_env \<Rightarrow> ids \<Rightarrow> csocket \<Rightarrow> conf_item list \<Rightarrow> fault + main_end" where
  "master_process_cycle e st s items =
     (let arglen = sum_lengths (me_args e); environlen = sum_lengths (me_envs e) in
      bindE (master_title arglen environlen (me_args e)) (\<lambda>title.
      bindE (start_worker_process 0 (nat (GetInt items ''WorkProcesses'' 2)) (me_forks e) st) (\<lambda>r.
        Inr (case r of MasterGoesOn st \<Rightarrow> Stays st s items | WorkerRuns n st \<Rightarrow> Worker n st s items))))"

definition main :: "main_env \<Rightarrow> (fault + main_end) option" where
  "main e =
     (let st = \<lparr>cur_pid = me_pid e, parent_pid = me_ppid e, master_pid = 0, pform = PROCESS_MASTER,
                g_daemonized = 0, null_fds = []\<rparr>;
          log_s = \<lparr>log_level = 0, log_fd = 0\<rparr>;
          log = (\<lambda>log_s. log_error_core log_s (me_time e) (cur_pid st) (me_strerror e) (me_write e));
          arglen = sum_lengths (me_args e); environlen = sum_lengths (me_envs e)
      in map_option (\<lambda>r. bindE r (\<lambda>(loaded, items).
        if \<not> loaded then
          bindE (log log_s LOG_ALERT 0 ''Failed to load the config file [%s], Now exit.'' [ArgStr ''nginx.conf''])
            (\<lambda>out. Inr (leave 2 out log_s))
        else
          bindE (init_log items (me_open e) (me_open_errno e) (me_time e) (cur_pid st) (me_strerror e) (me_write e))
            (\<lambda>(log_s, out).
          bindE (init_signals (log log_s) (me_sigaction e)) (\<lambda>(r, _, out').
          if r \<noteq> 0 then Inr (leave 1 (out @ out') log_s)
          else
            case CSocketLogic_Initialize (GetInt items) (conf_port items) (me_listen e) (CSocket_new (me_heap e)) of
              (False, s) \<Rightarrow> Inr (leave 1 (out @ out') log_s)
            | (True, s) \<Rightarrow>
                bindE (init_setproctitle arglen environlen (me_args e) (me_envs e)) (\<lambda>_.
                if GetInt items ''Daemon'' 1 = 1 then
                  (let (dae, st) = daemon_process (me_daemon e) st in
                   if dae = -1 then Inr (leave 1 (out @ out') log_s)
                   else if dae = 1 then Inr (leave 0 (out @ out') log_s)
                   else master_process_cycle e (st\<lparr>g_daemonized := 1\<rparr>) s items)
                else master_process_cycle e st s items)))))
        (Load (me_file e) []))"

section \<open>The title\<close>

definition joined :: "string list \<Rightarrow> string" where
  "joined ss = concat (map (\<lambda>s. s @ [CHR 0x00]) ss)"

lemma length_joined [simp]: "length (joined ss) = sum_lengths ss"
  by (induction ss) (simp_all add: joined_def)

lemma joined_Cons: "joined (s # ss) = s @ CHR 0x00 # joined ss"
  by (simp add: joined_def)

lemma c_string_prefix: "\<forall>c \<in> set s. c \<noteq> CHR 0x00 \<Longrightarrow> c_string (s @ CHR 0x00 # r) = s"
  by (simp add: c_string_def takeWhile_append2)

lemma copy_strings_eq:
  assumes "length mem = p + sum_lengths ss + k" "\<forall>s \<in> set ss. \<forall>c \<in> set s. c \<noteq> CHR 0x00"
  shows "\<exists>ps. copy_strings ss p mem = Inr (ps, write_at mem p (joined ss)) \<and>
    map (\<lambda>q. c_string (drop q (write_at mem p (joined ss)))) ps = ss"
  using assms
proof (induction ss arbitrary: p mem)
  case Nil
  then show ?case by (simp add: joined_def)
next
  case (Cons s ss)
  let ?m = "write_at mem p (s @ [CHR 0x00])"
  have room: "p + (length s + 1) \<le> length mem" using Cons.prems(1) by simp
  have len: "length ?m = (p + (length s + 1)) + sum_lengths ss + k" using Cons.prems(1) room by simp
  have w: "write_at ?m (p + (length s + 1)) (joined ss) = write_at mem p (joined (s # ss))"
    using write_at_append [of p "s @ [CHR 0x00]" "joined ss" mem] Cons.prems(1) by (simp add: joined_Cons)
  from Cons.IH [OF len] Cons.prems(2) obtain ps where
    ps: "copy_strings ss (p + (length s + 1)) ?m = Inr (ps, write_at mem p (joined (s # ss)))"
      "map (\<lambda>q. c_string (drop q (write_at mem p (joined (s # ss))))) ps = ss"
    unfolding w by auto
  have "drop p (write_at mem p (joined (s # ss))) = s @ CHR 0x00 # joined ss @ drop (p + length (joined (s # ss))) mem"
    using Cons.prems(1) by (simp add: write_at_def joined_Cons)
  then have "c_string (drop p (write_at mem p (joined (s # ss)))) = s"
    using Cons.prems(2) by (simp add: c_string_prefix)
  with ps room show ?case by (simp add: Let_def)
qed

lemma setproctitle_eq:
  assumes "length block = arglen + environlen" "length title < arglen + environlen"
  shows "setproctitle arglen environlen title block =
    title @ replicate (arglen + environlen - length title) CHR 0x00"
  using assms by (simp add: setproctitle_def Let_def write_at_def)

lemma sum_lengths_concat: "sum_lengths ss = length (concat ss) + length ss"
  by (induction ss) simp_all

text \<open>C39. Showing a process title loses nothing: \<open>init_setproctitle\<close> never writes outside the two blocks it
  allocates, afterwards every environment string and every argument reads as before through the new
  pointers, and \<open>setproctitle\<close> turns the original block, and nothing beyond its end, into the title
  followed by zeros.\<close>

theorem title_keeps_strings:
  assumes "\<forall>s \<in> set (args @ envs). \<forall>c \<in> set s. c \<noteq> CHR 0x00" "\<forall>c \<in> set title. c \<noteq> CHR 0x00"
    and "length block = sum_lengths args + sum_lengths envs" "length title < length block"
  shows "\<exists>m. init_setproctitle (sum_lengths args) (sum_lengths envs) args envs = Inr m \<and>
    map (\<lambda>p. c_string (drop p (g_p_envmem m))) (environ m) = envs \<and>
    map (\<lambda>p. c_string (drop p (g_p_argmem m))) (g_argv m) = args \<and>
    (let block' = setproctitle (sum_lengths args) (sum_lengths envs) title block in
     length block' = length block \<and> c_string block' = title)"
proof -
  have "\<forall>s \<in> set envs. \<forall>c \<in> set s. c \<noteq> CHR 0x00" "\<forall>s \<in> set args. \<forall>c \<in> set s. c \<noteq> CHR 0x00"
    using assms(1) by auto
  with copy_strings_eq [of "replicate (sum_lengths envs) CHR 0x00" 0 envs 0]
    copy_strings_eq [of "replicate (sum_lengths args) CHR 0x00" 0 args 0]
  obtain ps qs where
    "copy_strings envs 0 (replicate (sum_lengths envs) CHR 0x00) =
       Inr (ps, write_at (replicate (sum_lengths envs) CHR 0x00) 0 (joined envs))"
    "map (\<lambda>q. c_string (drop q (write_at (replicate (sum_lengths envs) CHR 0x00) 0 (joined envs)))) ps = envs"
    "copy_strings args 0 (replicate (sum_lengths args) CHR 0x00) =
       Inr (qs, write_at (replicate (sum_lengths args) CHR 0x00) 0 (joined args))"
    "map (\<lambda>q. c_string (drop q (write_at (replicate (sum_lengths args) CHR 0x00) 0 (joined args)))) qs = args"
    by auto
  moreover have "setproctitle (sum_lengths args) (sum_lengths envs) title block =
      title @ replicate (length block - length title) CHR 0x00"
    using setproctitle_eq [of block "sum_lengths args" "sum_lengths envs" title] assms(3,4) by simp
  ultimately show ?thesis
    using assms(4) c_string_time [OF assms(2)] by (simp add: init_setproctitle_def)
qed

theorem title_keeps_strings_witness:
  "\<exists>m. init_setproctitle 8 5 [''./nginx''] [''A=bc''] = Inr m \<and>
    map (\<lambda>p. c_string (drop p (g_p_envmem m))) (environ m) = [''A=bc'']"
proof -
  have "\<forall>s \<in> set ([''./nginx''] @ [''A=bc'']). \<forall>c \<in> set s. c \<noteq> CHR 0x00" "\<forall>c \<in> set ''worker''. c \<noteq> CHR 0x00"
    by simp_all
  moreover have "sum_lengths [''./nginx''] = 8" "sum_lengths [''A=bc''] = 5" by code_simp+
  moreover have "length (''./nginx'' @ [CHR 0x00] @ ''A=bc'' @ [CHR 0x00]) = 8 + 5"
    "length ''worker'' < length (''./nginx'' @ [CHR 0x00] @ ''A=bc'' @ [CHR 0x00])" by code_simp+
  ultimately show ?thesis
    using title_keeps_strings [of "[''./nginx'']" "[''A=bc'']" "''worker''"
        "''./nginx'' @ [CHR 0x00] @ ''A=bc'' @ [CHR 0x00]"] by metis
qed

lemma write_at_Cons: "p < length mem \<Longrightarrow> write_at (mem[p := c]) (p + 1) ys = write_at mem p (c # ys)"
  by (simp add: write_at_def take_Suc_conv_app_nth)

lemma store_string_eq:
  "store_string s p mem =
     (if p + length s < length mem then Inr (write_at mem p (s @ [CHR 0x00])) else Inl BadAccess)"
proof (induction s arbitrary: p mem)
  case Nil
  then show ?case by (simp add: write_at_def upd_conv_take_nth_drop)
next
  case (Cons c s)
  then show ?case using write_at_Cons [of p mem c "s @ [CHR 0x00]"] by simp
qed

lemma find_zero_string: "CHR 0x00 \<notin> set s \<Longrightarrow> find_zero p (s @ CHR 0x00 # rest) = Inr (p + length s)"
  by (induction s arbitrary: p) auto

text \<open>Appending to the string an array begins with.\<close>

lemma strcat_eq:
  assumes "CHR 0x00 \<notin> set t"
  shows "strcat (t @ CHR 0x00 # rest) s =
    (if length s \<le> length rest then Inr (t @ s @ CHR 0x00 # drop (length s) rest) else Inl BadAccess)"
  using assms by (simp add: strcat_def find_zero_string store_string_eq write_at_def)

lemma cat_args_eq:
  assumes "CHR 0x00 \<notin> set t" "\<forall>s \<in> set ss. CHR 0x00 \<notin> set s"
  shows "cat_args ss (t @ CHR 0x00 # rest) =
    (if length (concat ss) \<le> length rest then Inr (t @ concat ss @ CHR 0x00 # drop (length (concat ss)) rest)
     else Inl BadAccess)"
  using assms
proof (induction ss arbitrary: t rest)
  case (Cons s ss)
  then have "CHR 0x00 \<notin> set (t @ s)" by simp
  from Cons.IH [OF this, of "drop (length s) rest"] Cons.prems show ?case
    by (auto simp: strcat_eq add.commute)
qed simp

text \<open>C40. The title of the master is put together by \<open>strcpy\<close> and \<open>strcat\<close> in an array as long as the arguments
  and the environment were. Their stores leave the array exactly when the arguments are few and the
  environment is almost empty: fewer than 16 together, counting an argument as one and the environment by
  its characters with their terminators -- a start with an empty environment is enough. Otherwise the array
  holds the whole title, ended by a zero.\<close>

theorem master_title_overflows_iff:
  assumes "\<forall>s \<in> set args. CHR 0x00 \<notin> set s"
  shows "if length args + sum_lengths envs < 16
    then master_title (sum_lengths args) (sum_lengths envs) args = Inl BadAccess
    else \<exists>rest. master_title (sum_lengths args) (sum_lengths envs) args =
        Inr (''master process '' @ concat args @ CHR 0x00 # rest) \<and>
      length (''master process '' @ concat args @ CHR 0x00 # rest) = sum_lengths args + sum_lengths envs"
proof -
  define size where "size = sum_lengths args + sum_lengths envs"
  have len: "size = length (concat args) + length args + sum_lengths envs"
    by (simp add: size_def sum_lengths_concat)
  show ?thesis
  proof (cases "size < 16")
    case True
    then consider "size \<le> 14" | "size = 15" by linarith
    then have "master_title (sum_lengths args) (sum_lengths envs) args = Inl BadAccess"
    proof cases
      case 1
      then show ?thesis
        by (simp add: master_title_def strcpy_def store_string_eq size_def [symmetric] del: store_string.simps)
    next
      case 2
      have "replicate 15 (CHR 0x00) = replicate 14 (CHR 0x00) @ [CHR 0x00]" by (simp add: numeral_eq_Suc)
      then have "strcpy (replicate 15 (CHR 0x00)) ''master process'' = Inr (''master process'' @ CHR 0x00 # [])"
        by (simp add: strcpy_def store_string_eq write_at_def del: store_string.simps)
      with 2 show ?thesis
        using strcat_eq [of "''master process''" "[]" "'' ''"]
        by (simp add: master_title_def size_def [symmetric])
    qed
    with True len show ?thesis by simp
  next
    case False
    define rest where "rest = replicate (size - 16) (CHR 0x00)"
    have "replicate size (CHR 0x00) = replicate 14 (CHR 0x00) @ CHR 0x00 # CHR 0x00 # rest"
      using False by (simp add: rest_def replicate_add [symmetric] replicate_Suc [symmetric]
          del: replicate_Suc) 
    then have "strcpy (replicate size (CHR 0x00)) ''master process'' = Inr (''master process'' @ CHR 0x00 # CHR 0x00 # rest)"
      by (simp add: strcpy_def store_string_eq write_at_def del: store_string.simps)
    then have "master_title (sum_lengths args) (sum_lengths envs) args =
        cat_args args (''master process '' @ CHR 0x00 # rest)"
      using strcat_eq [of "''master process''" "CHR 0x00 # rest" "'' ''"]
      by (simp add: master_title_def size_def [symmetric])
    with cat_args_eq [of "''master process ''" args rest] assms False len show ?thesis
      by (auto simp: rest_def size_def [symmetric])
  qed
qed

theorem master_title_overflows_iff_witness:
  "master_title (sum_lengths [''./nginx'']) (sum_lengths []) [''./nginx''] = Inl BadAccess \<and>
   \<not> isl (master_title (sum_lengths [''./nginx'']) (sum_lengths [''PATH=/usr/local/bin'']) [''./nginx''])"
  using master_title_overflows_iff [of "[''./nginx'']" "[]"]
    master_title_overflows_iff [of "[''./nginx'']" "[''PATH=/usr/local/bin'']"]
  by auto

section \<open>Starting the workers\<close>

lemma start_worker_process_skip:
  "\<forall>f \<in> set fs. \<forall>me. f \<noteq> ForkChild me \<Longrightarrow>
   start_worker_process n (length fs + k) (fs @ gs) st = start_worker_process (n + length fs) k gs st"
proof (induction fs arbitrary: n)
  case (Cons f fs)
  then show ?case by (cases f) (simp_all add: spawn_process_def)
qed simp

text \<open>The master forks once for each configured worker, whatever the earlier forks answered: if none of
  the calls returns in a child it goes on unchanged after exactly that many, and the child of call
  number \<open>i\<close> becomes worker \<open>i\<close>, with the master as its parent and its own number.\<close>

theorem workers_started:
  assumes "\<forall>f \<in> set fs. \<forall>me. f \<noteq> ForkChild me"
  shows "start_worker_process 0 (length fs) (fs @ gs) st = Inr (MasterGoesOn st) \<and>
    start_worker_process 0 (length fs + Suc k) (fs @ ForkChild me # gs) st =
      Inr (WorkerRuns (length fs)
        (st\<lparr>parent_pid := cur_pid st, cur_pid := me, pform := PROCESS_WORKER\<rparr>))"
  using start_worker_process_skip [OF assms, of 0 0 gs st]
    start_worker_process_skip [OF assms, of 0 "Suc k" "ForkChild me # gs" st]
  by (simp add: spawn_process_def Let_def)

theorem workers_started_witness:
  "start_worker_process 0 3 [ForkParent 78, ForkErr, ForkChild 80]
     \<lparr>cur_pid = 77, parent_pid = 1, master_pid = 77, pform = PROCESS_MASTER, g_daemonized = 1, null_fds = []\<rparr> =
   Inr (WorkerRuns 2
     \<lparr>cur_pid = 80, parent_pid = 77, master_pid = 77, pform = PROCESS_WORKER, g_daemonized = 1, null_fds = []\<rparr>)"
  using workers_started [of "[ForkParent 78, ForkErr]" "[]"
      "\<lparr>cur_pid = 77, parent_pid = 1, master_pid = 77, pform = PROCESS_MASTER, g_daemonized = 1, null_fds = []\<rparr>" 0 80]
  by (simp add: numeral_3_eq_3)

section \<open>main\<close>

text \<open>A missing configuration file ends \<open>main\<close> with code 2, and without a word: the message is at level
  alert, but before \<open>init_log\<close> the configured level is 0, so it is dropped; and \<open>freeresource\<close> closes
  descriptor 0, which the program never opened.\<close>

theorem missing_config_is_silent:
  assumes "me_file e = None" "tm_ok (me_time e)"
  shows "main e = Some (Inr (Exits 2 [] [0]))"
proof -
  have r: "render ''Failed to load the config file [%s], Now exit.'' [ArgStr ''nginx.conf''] =
      Some ''Failed to load the config file [nginx.conf], Now exit.''"
    by (simp add: render_eval)
  show ?thesis
    using assms(1) log_short [OF assms(2) _ r, of 2]
    by (simp add: main_def Load_def Let_def err_levels_def log_write_def leave_def freeresource_def)
qed

theorem missing_config_is_silent_witness:
  "main \<lparr>me_pid = 77, me_ppid = 1, me_args = [''./nginx''], me_envs = [], me_file = None, me_open = (\<lambda>_. -1),
     me_open_errno = 2, me_time = example_time, me_strerror = (\<lambda>_. []), me_write = WriteOk, me_sigaction = [],
     me_listen = start_listen, me_heap = (\<lambda>_. zero_connection),
     me_daemon = \<lparr>de_fork = ForkErr, de_setsid = True, de_null = 3, de_dup_in = True, de_dup_out = True, de_close = True\<rparr>,
     me_forks = []\<rparr> = Some (Inr (Exits 2 [] [0]))"
proof (rule missing_config_is_silent)
  show "tm_ok (me_time \<lparr>me_pid = 77, me_ppid = 1, me_args = [''./nginx''], me_envs = [], me_file = None, me_open = (\<lambda>_. -1),
     me_open_errno = 2, me_time = example_time, me_strerror = (\<lambda>_. []), me_write = WriteOk, me_sigaction = [],
     me_listen = start_listen, me_heap = (\<lambda>_. zero_connection),
     me_daemon = \<lparr>de_fork = ForkErr, de_setsid = True, de_null = 3, de_dup_in = True, de_dup_out = True, de_close = True\<rparr>,
     me_forks = []\<rparr>)" by code_simp
qed simp

lemma master_process_cycle_worker:
  assumes "master_process_cycle e st s items = Inr (Worker n st' s' items')"
  shows "s' = s \<and> items' = items"
proof -
  from assms obtain r where
    "(case r of MasterGoesOn st \<Rightarrow> Stays st s items | WorkerRuns n st \<Rightarrow> Worker n st s items) = Worker n st' s' items'"
    by (auto simp: master_process_cycle_def Let_def bindE_Inr_iff)
  then show ?thesis by (cases r) simp_all
qed

lemma main_worker:
  assumes "main e = Some (Inr (Worker n st s items))"
  shows "Load (me_file e) [] = Some (Inr (True, items)) \<and>
    open_listen_sockets (conf_port items) (me_listen e) (ReadConf (GetInt items) (CSocket_new (me_heap e))) = (True, s)"
proof -
  from assms obtain r where r: "Load (me_file e) [] = Some r"
    by (auto simp: main_def Let_def)
  from assms r obtain loaded items1 where l: "r = Inr (loaded, items1)"
    by (cases r) (auto simp: main_def Let_def)
  show ?thesis
    using assms unfolding main_def Let_def r l
    by (auto simp: bindE_Inr_iff leave_def CSocketLogic_Initialize_eq split: if_splits prod.splits bool.splits
        dest!: master_process_cycle_worker)
qed

lemma ReadConf_waittime: "m_TimeEnable (ReadConf G s) = 1 \<Longrightarrow> 5 \<le> m_waittime (ReadConf G s)"
  by (simp add: ReadConf_def Let_def split: if_splits)

text \<open>C7. From the start of the program to every state of a worker: if \<open>main\<close>, on whatever configuration
  file, ends up as a worker and that worker's initialisation returns, then in every state it can reach
  from there the pool and the timer queue are sound; and where the heartbeat check is switched on,
  the waiting time the worker starts with is at least five seconds, whatever the file says.\<close>

theorem main_to_worker_sound:
  assumes "main e = Some (Inr (Worker n st s items))" "env_news_ok we s"
    and "init_worker_process (GetInt items) we
      \<lparr>g_socket = s, g_threadpool = CThreadPool_new, use_accept4 = True\<rparr> = Inr w0"
    and "reach (\<lambda>x. x = w0) worker_step w"
  shows "pool_inv (g_socket w) \<and> timer_inv (g_socket w) \<and> timer_conns (g_socket w) \<and>
    (m_TimeEnable s = 1 \<longrightarrow> 5 \<le> m_waittime s)"
proof -
  note o = main_worker [OF assms(1), THEN conjunct2]
  have "worker_init w0" unfolding worker_init_def using o assms(2,3) by blast
  from worker.reach_from_inv [OF assms(4) worker_init_inv [OF this]] have "sock_inv (g_socket w)" by simp
  moreover have "m_TimeEnable s = m_TimeEnable (ReadConf (GetInt items) (CSocket_new (me_heap e)))"
    "m_waittime s = m_waittime (ReadConf (GetInt items) (CSocket_new (me_heap e)))"
    by (subst only_listen_sockets [OF o, unfolded only_listen_def], simp)+
  ultimately show ?thesis using ReadConf_waittime by (simp add: sock_inv_def)
qed

definition main_lines :: "conf_line list" where
  "main_lines = [OtherLine ''[Proc]'',
     ItemLine \<lparr>itemname = ''Log'', itemvalue = ''e.log''\<rparr>,
     ItemLine \<lparr>itemname = ''Daemon'', itemvalue = ''0''\<rparr>,
     ItemLine \<lparr>itemname = ''ThreadNum'', itemvalue = ''1''\<rparr>,
     ItemLine \<lparr>itemname = ''ListenPortCount'', itemvalue = ''1''\<rparr>,
     ItemLine \<lparr>itemname = ''ConnectionsToCreate'', itemvalue = ''2''\<rparr>,
     ItemLine \<lparr>itemname = ''Sock_MaxWaitTime'', itemvalue = ''2''\<rparr>]"

definition main_example :: main_env where
  "main_example = \<lparr>me_pid = 77, me_ppid = 1, me_args = [''./nginx''], me_envs = [''PATH=/usr/local/bin''],
     me_file = Some (concat (map print_line main_lines), False), me_open = (\<lambda>_. 3),
     me_open_errno = 0, me_time = example_time, me_strerror = (\<lambda>_. []), me_write = WriteOk,
     me_sigaction = replicate 8 (True, 0), me_listen = start_listen, me_heap = (\<lambda>_. zero_connection),
     me_daemon = \<lparr>de_fork = ForkErr, de_setsid = True, de_null = 3, de_dup_in = True, de_dup_out = True, de_close = True\<rparr>,
     me_forks = [ForkErr, ForkChild 78]\<rparr>"

definition main_socket :: csocket where
  "main_socket = snd (open_listen_sockets (conf_port (line_items main_lines)) start_listen
     (ReadConf (GetInt (line_items main_lines)) (CSocket_new (\<lambda>_. zero_connection))))"

lemma main_example_runs:
  "\<exists>st. main main_example = Some (Inr (Worker 1 st main_socket (line_items main_lines)))"
proof -
  let ?items = "line_items main_lines"
  have "\<forall>l \<in> set main_lines. wf_line l" by code_simp
  from Load_lines [OF this, of "[]"] have load: "Load (me_file main_example) [] = Some (Inr (True, ?items))"
    by (simp add: main_example_def)
  have logname: "GetString ?items ''Log'' = Some ''e.log''" by code_simp
  have daemon: "GetInt ?items ''Daemon'' 1 = 0" and workers: "GetInt ?items ''WorkProcesses'' 2 = 2" by code_simp+
  have t: "tm_ok example_time" by code_simp
  from init_signals_registers [OF t, of "replicate 8 (True, 0)"] have
    "\<exists>out. init_signals (log_error_core \<lparr>log_level = GetInt ?items ''LogLevel'' LOG_NOTICE, log_fd = 3\<rparr>
       example_time 77 (\<lambda>_. []) WriteOk) (replicate 8 (True, 0)) = Inr (0, map (\<lambda>s. (signo s, sig_handled s)) signals, out)"
    by simp
  then obtain out where sig: "init_signals (log_error_core \<lparr>log_level = GetInt ?items ''LogLevel'' LOG_NOTICE, log_fd = 3\<rparr>
       example_time 77 (\<lambda>_. []) WriteOk) (replicate 8 (True, 0)) = Inr (0, map (\<lambda>s. (signo s, sig_handled s)) signals, out)"
    by blast
  have listen: "open_listen_sockets (conf_port ?items) start_listen (ReadConf (GetInt ?items) (CSocket_new (\<lambda>_. zero_connection))) =
      (True, main_socket)" by code_simp
  have titles: "\<not> isl (init_setproctitle (sum_lengths [''./nginx'']) (sum_lengths [''PATH=/usr/local/bin''])
        [''./nginx''] [''PATH=/usr/local/bin''])"
    "\<not> isl (master_title (sum_lengths [''./nginx'']) (sum_lengths [''PATH=/usr/local/bin'']) [''./nginx''])"
    by code_simp+
  then obtain m ti where "init_setproctitle (sum_lengths [''./nginx'']) (sum_lengths [''PATH=/usr/local/bin''])
        [''./nginx''] [''PATH=/usr/local/bin''] = Inr m"
      "master_title (sum_lengths [''./nginx'']) (sum_lengths [''PATH=/usr/local/bin'']) [''./nginx''] = Inr ti"
    by (auto simp: isl_def split: sum.splits) (metis isl_def sum.exhaust)
  then show ?thesis
    unfolding main_def load Let_def
    using logname daemon workers sig listen
    by (simp add: main_example_def init_log_def Let_def master_process_cycle_def numeral_2_eq_2
        CSocketLogic_Initialize_eq spawn_process_def del: sum_lengths.simps)
qed

theorem main_to_worker_sound_witness:
  "\<exists>w. init_worker_process (GetInt (line_items main_lines)) start_env
      \<lparr>g_socket = main_socket, g_threadpool = CThreadPool_new, use_accept4 = True\<rparr> = Inr w \<and>
    pool_inv (g_socket w) \<and> 5 \<le> m_waittime main_socket"
proof -
  obtain st where m: "main main_example = Some (Inr (Worker 1 st main_socket (line_items main_lines)))"
    using main_example_runs by blast
  have news: "env_news_ok start_env main_socket" by code_simp
  have "\<not> isl (init_worker_process (GetInt (line_items main_lines)) start_env
      \<lparr>g_socket = main_socket, g_threadpool = CThreadPool_new, use_accept4 = True\<rparr>)" by code_simp
  then obtain w where w: "init_worker_process (GetInt (line_items main_lines)) start_env
      \<lparr>g_socket = main_socket, g_threadpool = CThreadPool_new, use_accept4 = True\<rparr> = Inr w"
    by (metis isl_def sum.exhaust)
  have "m_TimeEnable main_socket = 1" by code_simp
  with main_to_worker_sound [OF m news w reach_init [of "\<lambda>x. x = w", OF refl]] w show ?thesis by simp
qed

end
