(* ===== verification/Service.thy ===== *)
theory Service
  imports Workers
begin

text \<open>
  The life of a request across the components: read in pieces by the \<open>EPOLLIN\<close> handler
  (\<open>net/socket_request.cxx\<close>), taken by a worker of the thread pool (\<open>threadpool/c_threadpool.cxx\<close>),
  checked and answered by the business layer (\<open>socketlogic/c_socketlogic.cxx\<close>), sent by the send
  thread (\<open>net/c_socket.cxx\<close>). The parts are composed from the lemmas of their components; what is new
  here is that reading leaves the sending side of the connection, and of the socket object, alone.
\<close>

section \<open>Reading touches the receiving side only\<close>

text \<open>The fields of a connection the receiver has no business with.\<close>

definition rest_of :: "connection \<Rightarrow> connection" where
  "rest_of c = c\<lparr>curstat := 0, p_headerinfo := HdrNull, p_msgrecv := None, recv_str := False,
     p_recvbuf := BufNull, recvlen := 0, recvlen_already := 0\<rparr>"

definition sock_rest :: "csocket \<Rightarrow> csocket" where
  "sock_rest s = s\<lparr>conns := (\<lambda>a. rest_of (conns s a))\<rparr>"

definition pool_rest :: "threadpool \<Rightarrow> threadpool" where
  "pool_rest p = p\<lparr>m_msgqueue := [], m_msgqueue_size := 0\<rparr>"

definition reads_only :: "world \<Rightarrow> world \<Rightarrow> bool" where
  "reads_only w w' \<longleftrightarrow> sock_rest (g_socket w') = sock_rest (g_socket w) \<and>
     pool_rest (g_threadpool w') = pool_rest (g_threadpool w)"

lemma sock_rest_upd:
  assumes "rest_of (f (conns s a)) = rest_of (conns s a)"
  shows "sock_rest (upd_conn a f s) = sock_rest s"
proof -
  have "(\<lambda>b. rest_of (((conns s)(a := f (conns s a))) b)) = (\<lambda>b. rest_of (conns s b))"
    by (rule ext) (simp add: assms)
  then show ?thesis by (simp add: sock_rest_def upd_conn_def)
qed

lemma pool_rest_InMsgRecv [simp]: "pool_rest (InMsgRecv m p) = pool_rest p"
  by (simp add: pool_rest_def InMsgRecv_def)

lemma rest_of_recv:
  "recv_write d c = Inr c' \<Longrightarrow> rest_of c' = rest_of c"
  "FreeMemory_header c = Inr c'' \<Longrightarrow> rest_of c'' = rest_of c"
  by (auto simp: recv_write_def FreeMemory_header_def rest_of_def
      split: if_splits buf_ptr.splits hdr_ptr.splits option.splits)

lemma rest_of_small [simp]:
  "rest_of (recv_account n c) = rest_of c" "rest_of (drop_message c) = rest_of c"
  "rest_of (PutToStateMach c) = rest_of c"
  by (simp_all add: rest_of_def recv_account_def drop_message_def PutToStateMach_def Let_def)

text \<open>A quiet answer never closes the connection.\<close>

definition harmless :: "recv_ans \<Rightarrow> bool" where
  "harmless r \<longleftrightarrow> (if ra_n r = 0 then ra_errno r = 0 \<or> ra_errno r = EAGAIN
     else ra_n r < 0 \<longrightarrow> ra_errno r = EINTR \<or> ra_errno r = EAGAIN)"

lemma quiet_harmless: "quiet_ans c r \<Longrightarrow> harmless r"
  by (auto simp: quiet_ans_def harmless_def split: if_splits)

lemma recvproc_reads_only:
  assumes "harmless r" "recvproc env r a s = Inr (n, s')"
  shows "sock_rest s' = sock_rest s"
proof -
  from assms(2) obtain c where c: "recv_write (ra_data r) (conns s a) = Inr c"
    by (auto simp: recvproc_def bindE_Inr_iff)
  with assms have "s' = upd_conn a (\<lambda>_. c) s"
    by (auto simp: recvproc_def harmless_def Let_def split: if_splits)
  with rest_of_recv(1) [OF c] show ?thesis by (simp add: sock_rest_upd)
qed

lemma part_reads_only:
  assumes "harmless r"
  shows "pkg_header_recv env r a s = Inr (n, s') \<Longrightarrow> sock_rest s' = sock_rest s"
    and "pkg_body_recv env r a s = Inr (n, s') \<Longrightarrow> sock_rest s' = sock_rest s"
  using recvproc_reads_only [OF assms]
  by (auto simp: pkg_header_recv_def pkg_body_recv_def bindE_Inr_iff sock_rest_upd rest_of_recv(2)
      split: if_splits)

lemma proc_reads_only:
  shows "pkg_body_proc a w = Inr w' \<Longrightarrow> reads_only w w'"
    and "pkg_header_proc a w = Inr w' \<Longrightarrow> reads_only w w'"
proof -
  have body: "reads_only w w'" if run: "pkg_body_proc a w = Inr w'" for w
  proof -
    from run obtain c where "FreeMemory_header ((conns (g_socket w) a)\<lparr>p_recvbuf := BufNull, recv_str := False,
        p_msgrecv := None\<rparr>) = Inr c"
      and w': "w' = w\<lparr>g_threadpool := InMsgRecv (p_msgrecv (conns (g_socket w) a)) (g_threadpool w),
        g_socket := upd_conn a (\<lambda>_. PutToStateMach c) (g_socket w)\<rparr>"
      by (auto simp: pkg_body_proc_def bindE_Inr_iff Let_def)
    from rest_of_recv(2) [OF this(1)] have "rest_of c = rest_of (conns (g_socket w) a)"
      by (simp add: rest_of_def)
    then show ?thesis by (simp add: reads_only_def w' sock_rest_upd)
  qed
  show "pkg_body_proc a w = Inr w' \<Longrightarrow> reads_only w w'" by (rule body)
  assume run: "pkg_header_proc a w = Inr w'"
  then show "reads_only w w'"
    by (auto simp: pkg_header_proc_def bindE_Inr_iff FreeMemory_header_def Let_def reads_only_def sock_rest_upd
        rest_of_def split: hdr_ptr.splits if_splits dest!: body)
qed

lemma event_reads_only:
  assumes "harmless r"
  shows "header_event env r a w = Inr w' \<Longrightarrow> reads_only w w'"
    and "body_event env r a w = Inr w' \<Longrightarrow> reads_only w w'"
proof -
  have step: "reads_only w (w\<lparr>g_socket := s\<rparr>)" "reads_only w (w\<lparr>g_socket := upd_conn a (\<lambda>c. c\<lparr>curstat := st\<rparr>) s\<rparr>)"
    "pkg_header_proc a (w\<lparr>g_socket := s\<rparr>) = Inr w' \<Longrightarrow> reads_only w w'"
    "pkg_body_proc a (w\<lparr>g_socket := s\<rparr>) = Inr w' \<Longrightarrow> reads_only w w'"
    if "sock_rest s = sock_rest (g_socket w)" for s st
    using that proc_reads_only [of a "w\<lparr>g_socket := s\<rparr>" w']
    by (auto simp: reads_only_def sock_rest_upd rest_of_def)
  show "header_event env r a w = Inr w' \<Longrightarrow> reads_only w w'"
    by (auto simp: header_event_def bindE_Inr_iff Let_def split: if_splits
        dest!: part_reads_only(1) [OF assms] intro: step)
  have "reads_only w w" by (simp add: reads_only_def)
  then show "body_event env r a w = Inr w' \<Longrightarrow> reads_only w w'"
    by (auto simp: body_event_def bindE_Inr_iff Let_def split: if_splits
        dest!: part_reads_only(2) [OF assms] intro: step)
qed

lemma readable_reads_only:
  assumes "harmless r" "readable_request env r a w = Inr w'"
  shows "reads_only w w'"
proof (cases "curstat (conns (g_socket w) a) = PKG_HD_INIT")
  case True
  let ?w = "w\<lparr>g_socket := upd_conn a (\<lambda>c. c\<lparr>p_headerinfo := HdrLive (AllocMemory PKG_HEADER_LEN),
            p_recvbuf := InHeader 0, recvlen := PKG_HEADER_LEN\<rparr>) (g_socket w)\<rparr>"
  from True assms(2) have "header_event env r a ?w = Inr w'" by (simp add: readable_request_def)
  from event_reads_only(1) [OF assms(1) this] show ?thesis
    by (simp add: reads_only_def sock_rest_upd rest_of_def)
next
  case False
  with assms(2) have "w' = w \<or> header_event env r a w = Inr w' \<or> body_event env r a w = Inr w'"
    by (auto simp: readable_request_def Let_def split: if_splits)
  with event_reads_only [OF assms(1)] show ?thesis by (auto simp: reads_only_def)
qed

lemma run_reads_only:
  "quiet_run rs a w \<Longrightarrow> recv_run rs a w = Inr w' \<Longrightarrow> reads_only w w'"
proof (induction rs arbitrary: w)
  case Nil
  then show ?case by (simp add: reads_only_def)
next
  case (Cons x rs)
  obtain env r where x: "x = (env, r)" by (cases x)
  with Cons.prems obtain w1 where w1: "readable_request env r a w = Inr w1" "recv_run rs a w1 = Inr w'"
    by (auto simp: bindE_Inr_iff)
  with Cons.prems(1) x have "quiet_ans (conns (g_socket w) a) r" "quiet_run rs a w1" by simp_all
  with Cons.IH [OF _ w1(2)] readable_reads_only [OF _ w1(1)] show ?case
    by (auto simp: reads_only_def dest: quiet_harmless)
qed

section \<open>The way of a request\<close>

lemma rest_of_fields [simp]:
  "fd (rest_of c) = fd c" "sequence (rest_of c) = sequence c" "inrecyList (rest_of c) = inrecyList c"
  "iThrowsendCount (rest_of c) = iThrowsendCount c" "isend_count (rest_of c) = isend_count c"
  by (simp_all add: rest_of_def)

text \<open>What the other components see of a connection and of the socket is as before the reading.\<close>

lemma reads_only_socket:
  assumes "reads_only w w'"
  shows "m_send_msgList (g_socket w') = m_send_msgList (g_socket w)"
    "m_sendmutex (g_socket w') = m_sendmutex (g_socket w)"
    "m_msgtosend_count (g_socket w') = m_msgtosend_count (g_socket w)"
    "m_sendsem (g_socket w') = m_sendsem (g_socket w)" "os_trace (g_socket w') = os_trace (g_socket w)"
    "rest_of (conns (g_socket w') a) = rest_of (conns (g_socket w) a)"
    "m_threadvec (g_threadpool w') = m_threadvec (g_threadpool w)"
    "m_iRunningThread (g_threadpool w') = m_iRunningThread (g_threadpool w)"
proof -
  have s: "sock_rest (g_socket w') = sock_rest (g_socket w)" and p: "pool_rest (g_threadpool w') = pool_rest (g_threadpool w)"
    using assms by (simp_all add: reads_only_def)
  show "m_send_msgList (g_socket w') = m_send_msgList (g_socket w)"
    using arg_cong [OF s, of m_send_msgList] by (simp add: sock_rest_def)
  show "m_sendmutex (g_socket w') = m_sendmutex (g_socket w)"
    using arg_cong [OF s, of m_sendmutex] by (simp add: sock_rest_def)
  show "m_msgtosend_count (g_socket w') = m_msgtosend_count (g_socket w)"
    using arg_cong [OF s, of m_msgtosend_count] by (simp add: sock_rest_def)
  show "m_sendsem (g_socket w') = m_sendsem (g_socket w)"
    using arg_cong [OF s, of m_sendsem] by (simp add: sock_rest_def)
  show "os_trace (g_socket w') = os_trace (g_socket w)"
    using arg_cong [OF s, of os_trace] by (simp add: sock_rest_def)
  show "rest_of (conns (g_socket w') a) = rest_of (conns (g_socket w) a)"
    using fun_cong [OF arg_cong [OF s, of conns], of a] by (simp add: sock_rest_def)
  show "m_threadvec (g_threadpool w') = m_threadvec (g_threadpool w)"
    using arg_cong [OF p, of m_threadvec] by (simp add: pool_rest_def)
  show "m_iRunningThread (g_threadpool w') = m_iRunningThread (g_threadpool w)"
    using arg_cong [OF p, of m_iRunningThread] by (simp add: pool_rest_def)
qed

lemma same_rest_fields:
  assumes "rest_of c' = rest_of c"
  shows "fd c' = fd c" "sequence c' = sequence c" "inrecyList c' = inrecyList c"
    "iThrowsendCount c' = iThrowsendCount c" "isend_count c' = isend_count c" "judge_token c' q = judge_token c q"
proof -
  show f: "fd c' = fd c" using arg_cong [OF assms, of fd] by simp
  show q: "sequence c' = sequence c" using arg_cong [OF assms, of sequence] by simp
  show i: "inrecyList c' = inrecyList c" using arg_cong [OF assms, of inrecyList] by simp
  show "iThrowsendCount c' = iThrowsendCount c" using arg_cong [OF assms, of iThrowsendCount] by simp
  show "isend_count c' = isend_count c" using arg_cong [OF assms, of isend_count] by simp
  show "judge_token c' q = judge_token c q" by (simp add: judge_token_iff f q i)
qed

text \<open>Receiving, when the pieces make up one valid packet.\<close>

lemma packet_received:
  assumes "curstat (conns (g_socket w) a) = PKG_HD_INIT" "quiet_run rs a w" "run_bytes rs = p" "valid_packet p"
  shows "\<exists>w1. recv_run rs a w = Inr w1 \<and> reads_only w w1 \<and>
    m_msgqueue (g_threadpool w1) = m_msgqueue (g_threadpool w) @ [Some (message_of a (sequence (conns (g_socket w) a)) p)] \<and>
    (\<forall>b. b \<noteq> a \<longrightarrow> conns (g_socket w1) b = conns (g_socket w) b)"
proof -
  have "recv_wf a (conns (g_socket w) a)" "pending (conns (g_socket w) a) = []"
    using assms(1) by (simp_all add: recv_wf_def pending_def)
  moreover have "frames p = ([p], [])" using frames_valid_packets [of "[p]"] assms(4) by simp
  ultimately show ?thesis
    using recv_run_consumes [OF _ assms(2)] run_reads_only [OF assms(2)]
    by (fastforce simp: consumes_def Let_def assms(3))
qed

text \<open>Processing: the worker takes the message and queues the reply.\<close>

lemma request_processed:
  assumes q: "m_msgqueue (g_threadpool w) = [Some (message_of a sq p)]"
    and i: "i < length (m_threadvec (g_threadpool w))" "\<not> ifshutdown (m_threadvec (g_threadpool w) ! i)"
    and p: "valid_packet p" "request_of p = Some h" "judge_token (conns (g_socket w) a) sq"
    and s: "\<not> m_sendmutex (g_socket w)" "m_msgtosend_count (g_socket w) = 0" "isend_count (conns (g_socket w) a) \<le> 400"
  shows "\<exists>th pool w3. ThreadFunc_take (m_threadvec (g_threadpool w) ! i) (g_threadpool w) = Go th pool \<and>
    ThreadFunc_process now i (w\<lparr>g_threadpool := set_thread i th pool\<rparr>) = Inr w3 \<and>
    m_msgqueue (g_threadpool w3) = [] \<and> m_iRunningThread (g_threadpool w3) = m_iRunningThread (g_threadpool w) \<and>
    g_socket w3 = (upd_conn a (\<lambda>c. (serve now h c)\<lparr>isend_count := isend_count c + 1\<rparr>) (g_socket w))
      \<lparr>m_send_msgList := m_send_msgList (g_socket w) @ [message_of a sq (reply_packet h)],
       m_msgtosend_count := 1, m_sendsem := m_sendsem (g_socket w) + 1\<rparr>"
proof -
  let ?t = "(m_threadvec (g_threadpool w) ! i)\<lparr>msg_held := Some (message_of a sq p)\<rparr>"
  let ?pool = "(g_threadpool w)\<lparr>m_msgqueue := [], m_msgqueue_size := m_msgqueue_size (g_threadpool w) - 1,
      m_iRunningThread := m_iRunningThread (g_threadpool w) + 1\<rparr>"
  have take: "ThreadFunc_take (m_threadvec (g_threadpool w) ! i) (g_threadpool w) = Go ?t ?pool"
    using q i(2) by (simp add: ThreadFunc_take_eq get_msg_item_def)
  have frame: "isend_count (serve now h c) = isend_count c" for c by (simp add: serve_def Let_def)
  have "MsgSendInQueue (message_of a sq (reply_packet h)) (upd_conn a (serve now h) (g_socket w)) =
    Inr ((upd_conn a (\<lambda>c. (serve now h c)\<lparr>isend_count := isend_count c + 1\<rparr>) (g_socket w))
      \<lparr>m_send_msgList := m_send_msgList (g_socket w) @ [message_of a sq (reply_packet h)],
       m_msgtosend_count := 1, m_sendsem := m_sendsem (g_socket w) + 1\<rparr>)"
    using s by (simp add: MsgSendInQueue_eq frame upd_conn_def Let_def)
  with ThreadRecvProc_eq [OF p(1), of now a sq "g_socket w"] p(2,3) have
    "ThreadRecvProc now (message_of a sq p) (g_socket w) =
      Inr (0, (upd_conn a (\<lambda>c. (serve now h c)\<lparr>isend_count := isend_count c + 1\<rparr>) (g_socket w))
      \<lparr>m_send_msgList := m_send_msgList (g_socket w) @ [message_of a sq (reply_packet h)],
       m_msgtosend_count := 1, m_sendsem := m_sendsem (g_socket w) + 1\<rparr>)" by simp
  then show ?thesis
    using i(1) by (simp add: take ThreadFunc_process_def set_thread_def ThreadFunc_finish_eq)
qed

text \<open>A visit that finds one message and sends all of it.\<close>

lemma send_scan_single:
  assumes a: "a = lp_curconn (msg_head m)"
    and tok: "judge_token (conns s a) (msg_cursequence (msg_head m))" "\<not> iThrowsendCount (conns s a) > 0"
    and s0: "s0 = (upd_conn a (take_message m) s)\<lparr>m_msgtosend_count := m_msgtosend_count s - 1\<rparr>"
    and sp: "sendproc ans a s0 = Inr (r, ans1, s1)" "r \<noteq> -1" "\<not> r < int (sendlen (conns s0 a))"
    and len: "sendlen_already (conns s1 a) + nat r = sendlen_suppose (conns s1 a)"
  shows "send_scan ctl_ok ans [m] s = Inr (ScanDone, [], ans1,
    upd_conn a (\<lambda>c. (clear_send c)\<lparr>iThrowsendCount := 0\<rparr>)
      (upd_conn a (\<lambda>c. c\<lparr>sendlen_already := sendlen_already c + nat r\<rparr>) s1))"
  unfolding send_scan.simps Let_def a [symmetric] s0 [symmetric] sp(1)
  using tok sp(2,3) len by simp

text \<open>Sending, when the socket has room for the whole reply.\<close>

lemma reply_sent:
  assumes m: "m_send_msgList s = [message_of a sq (reply_packet h)]" "m_msgtosend_count s = 1"
    and tok: "judge_token (conns s a) sq" "iThrowsendCount (conns s a) = 0"
    and len: "sendlen_suppose (conns s a) = length (reply_packet h)" "length (reply_packet h) \<le> k"
    and rest: "\<not> m_sendmutex s" "0 < m_sendsem s" "\<not> ifshutdown t"
  shows "\<exists>s'. SendMsgThread_round False ctl_ok [SendSpace k] t s = Inr (False, t\<lparr>running := True\<rparr>, [], s') \<and>
    os_trace s' = os_trace s @ [OsSend (fd (conns s a)) (reply_packet h)] \<and> m_send_msgList s' = [] \<and>
    m_msgtosend_count s' = 0 \<and> m_sendsem s' = m_sendsem s - 1 \<and> \<not> m_sendmutex s' \<and>
    isend_count (conns s' a) = isend_count (conns s a) - 1 \<and> (\<forall>b. b \<noteq> a \<longrightarrow> conns s' b = conns s b)"
proof -
  let ?m = "message_of a sq (reply_packet h)" and ?n = "length (reply_packet h)"
  have n: "unat (ntohs (pkgLen (pkg_head ?m))) = ?n" "0 < ?n" "min k ?n = ?n"
    using reply_packet_valid [of h] len(2) by (simp_all add: valid_packet_def stream_pkg_size_def PKG_HEADER_LEN_def)
  have body: "drop MSG_HEADER_LEN ?m = reply_packet h @ [0]" "length ?m = MSG_HEADER_LEN + ?n + 1"
    by (simp_all add: drop_message_of) (simp add: message_of_def)
  let ?s = "s\<lparr>m_sendsem := m_sendsem s - 1\<rparr>"
  let ?taken = "(upd_conn a (take_message ?m) ?s)\<lparr>m_msgtosend_count := 0\<rparr>"
  have sp: "sendproc [SendSpace k] a ?taken = Inr (int ?n, [], os_request (OsSend (fd (conns s a)) (reply_packet h)) ?taken)"
    using n body by (simp add: take_message_def offered_def Let_def del: length_reply_packet)
  have scan: "send_scan ctl_ok [SendSpace k] [?m] ?s = Inr (ScanDone, [], [],
      upd_conn a (\<lambda>c. (clear_send c)\<lparr>iThrowsendCount := 0\<rparr>)
        (upd_conn a (\<lambda>c. c\<lparr>sendlen_already := sendlen_already c + nat (int ?n)\<rparr>)
          (os_request (OsSend (fd (conns s a)) (reply_packet h)) ?taken)))"
  proof (rule send_scan_single [OF _ _ _ _ sp])
    show "\<not> int ?n < int (sendlen (conns ?taken a))" using n(1) by (simp add: take_message_def del: length_reply_packet)
    show "sendlen_already (conns (os_request (OsSend (fd (conns s a)) (reply_packet h)) ?taken) a) + nat (int ?n) =
        sendlen_suppose (conns (os_request (OsSend (fd (conns s a)) (reply_packet h)) ?taken) a)"
      using len(1) by (simp add: take_message_def del: length_reply_packet)
  qed (use tok m(2) in simp_all)
  from m rest show ?thesis
    by (simp del: send_scan.simps One_nat_def add: scan SendMsgThread_round_eq Let_def clear_send_def take_message_def)
qed

section \<open>Properties\<close>

text \<open>C1. A request is answered. On an idle connection of an otherwise idle worker process let a valid
  request packet arrive, in whatever pieces and with whatever interruptions between them; let a thread of
  the pool take the message and process it, and let the send thread make its next round while the socket
  has room for the reply. Then none of these steps fails, and exactly the reply packet for this request
  goes out, once, on the descriptor of this connection; the queues are empty again, the counters are as
  they were, no lock is left behind, and no other connection has changed.\<close>

theorem request_is_answered:
  assumes "curstat (conns (g_socket w) a) = PKG_HD_INIT"
    and "judge_token (conns (g_socket w) a) (sequence (conns (g_socket w) a))"
    and "quiet_run rs a w" "run_bytes rs = p" "valid_packet p" "request_of p = Some h"
    and "m_msgqueue (g_threadpool w) = []" "i < length (m_threadvec (g_threadpool w))"
      "\<not> ifshutdown (m_threadvec (g_threadpool w) ! i)"
    and "m_send_msgList (g_socket w) = []" "m_msgtosend_count (g_socket w) = 0" "\<not> m_sendmutex (g_socket w)"
    and "isend_count (conns (g_socket w) a) \<le> 400" "iThrowsendCount (conns (g_socket w) a) = 0"
    and "length (reply_packet h) \<le> k" "\<not> ifshutdown t"
  shows "\<exists>w1 th pool w3 s4. recv_run rs a w = Inr w1 \<and>
    ThreadFunc_take (m_threadvec (g_threadpool w1) ! i) (g_threadpool w1) = Go th pool \<and>
    ThreadFunc_process now i (w1\<lparr>g_threadpool := set_thread i th pool\<rparr>) = Inr w3 \<and>
    SendMsgThread_round False ctl_ok [SendSpace k] t (g_socket w3) = Inr (False, t\<lparr>running := True\<rparr>, [], s4) \<and>
    os_trace s4 = os_trace (g_socket w) @ [OsSend (fd (conns (g_socket w) a)) (reply_packet h)] \<and>
    m_msgqueue (g_threadpool w3) = [] \<and> m_iRunningThread (g_threadpool w3) = m_iRunningThread (g_threadpool w) \<and>
    m_send_msgList s4 = [] \<and> m_msgtosend_count s4 = 0 \<and> m_sendsem s4 = m_sendsem (g_socket w) \<and>
    \<not> m_sendmutex s4 \<and> isend_count (conns s4 a) = isend_count (conns (g_socket w) a) \<and>
    (\<forall>b. b \<noteq> a \<longrightarrow> conns s4 b = conns (g_socket w) b)"
proof -
  let ?sq = "sequence (conns (g_socket w) a)"
  from packet_received [OF assms(1,3,4,5)] obtain w1 where w1: "recv_run rs a w = Inr w1" "reads_only w w1"
    "m_msgqueue (g_threadpool w1) = [Some (message_of a ?sq p)]"
    "\<And>b. b \<noteq> a \<Longrightarrow> conns (g_socket w1) b = conns (g_socket w) b"
    by (auto simp: assms(7))
  note sock = reads_only_socket [OF w1(2)]
  note conn = same_rest_fields [OF sock(6) [of a]]
  have "\<exists>th pool w3. ThreadFunc_take (m_threadvec (g_threadpool w1) ! i) (g_threadpool w1) = Go th pool \<and>
    ThreadFunc_process now i (w1\<lparr>g_threadpool := set_thread i th pool\<rparr>) = Inr w3 \<and>
    m_msgqueue (g_threadpool w3) = [] \<and> m_iRunningThread (g_threadpool w3) = m_iRunningThread (g_threadpool w1) \<and>
    g_socket w3 = (upd_conn a (\<lambda>c. (serve now h c)\<lparr>isend_count := isend_count c + 1\<rparr>) (g_socket w1))
      \<lparr>m_send_msgList := m_send_msgList (g_socket w1) @ [message_of a ?sq (reply_packet h)],
       m_msgtosend_count := 1, m_sendsem := m_sendsem (g_socket w1) + 1\<rparr>"
    by (rule request_processed [OF w1(3) _ _ assms(5,6)]) (simp_all add: sock conn assms)
  then obtain th pool w3 where take: "ThreadFunc_take (m_threadvec (g_threadpool w1) ! i) (g_threadpool w1) = Go th pool"
    and proc: "ThreadFunc_process now i (w1\<lparr>g_threadpool := set_thread i th pool\<rparr>) = Inr w3"
      "m_msgqueue (g_threadpool w3) = []" "m_iRunningThread (g_threadpool w3) = m_iRunningThread (g_threadpool w1)"
    and w3: "g_socket w3 = (upd_conn a (\<lambda>c. (serve now h c)\<lparr>isend_count := isend_count c + 1\<rparr>) (g_socket w1))
      \<lparr>m_send_msgList := m_send_msgList (g_socket w1) @ [message_of a ?sq (reply_packet h)],
       m_msgtosend_count := 1, m_sendsem := m_sendsem (g_socket w1) + 1\<rparr>"
    by blast
  have served: "fd (serve now h c) = fd c" "iThrowsendCount (serve now h c) = iThrowsendCount c"
    "sendlen_suppose (serve now h c) = length (reply_packet h)"
    "judge_token ((serve now h c)\<lparr>isend_count := n\<rparr>) q = judge_token c q" for c q n
    by (simp_all add: serve_def judge_token_iff Let_def)
  have "\<exists>s'. SendMsgThread_round False ctl_ok [SendSpace k] t (g_socket w3) = Inr (False, t\<lparr>running := True\<rparr>, [], s') \<and>
    os_trace s' = os_trace (g_socket w3) @ [OsSend (fd (conns (g_socket w3) a)) (reply_packet h)] \<and> m_send_msgList s' = [] \<and>
    m_msgtosend_count s' = 0 \<and> m_sendsem s' = m_sendsem (g_socket w3) - 1 \<and> \<not> m_sendmutex s' \<and>
    isend_count (conns s' a) = isend_count (conns (g_socket w3) a) - 1 \<and>
    (\<forall>b. b \<noteq> a \<longrightarrow> conns s' b = conns (g_socket w3) b)"
    by (rule reply_sent [where sq = ?sq])
      (simp_all add: w3 sock conn served assms(2,10,12,14-) del: length_reply_packet)
  then obtain s4 where "SendMsgThread_round False ctl_ok [SendSpace k] t (g_socket w3) =
      Inr (False, t\<lparr>running := True\<rparr>, [], s4)"
    "os_trace s4 = os_trace (g_socket w3) @ [OsSend (fd (conns (g_socket w3) a)) (reply_packet h)]" "m_send_msgList s4 = []"
    "m_msgtosend_count s4 = 0" "m_sendsem s4 = m_sendsem (g_socket w3) - 1" "\<not> m_sendmutex s4"
    "isend_count (conns s4 a) = isend_count (conns (g_socket w3) a) - 1"
    "\<forall>b. b \<noteq> a \<longrightarrow> conns s4 b = conns (g_socket w3) b" by blast
  with w1(1,4) take proc show ?thesis
    by (intro exI conjI) (assumption | simp add: w3 sock conn served)+
qed

text \<open>A ping arrives in two pieces, with an early read between them.\<close>

definition service_example :: world where
  "service_example = recv_example\<lparr>g_threadpool := CThreadPool_new\<lparr>m_threadvec := [ThreadItem_new]\<rparr>\<rparr>"

theorem request_is_answered_witness:
  "\<exists>w1 th pool w3 s4. recv_run [got [0, 8, 0], got_eagain, got [0, 0, 0, 0, 0]] 1 service_example = Inr w1 \<and>
    ThreadFunc_take (m_threadvec (g_threadpool w1) ! 0) (g_threadpool w1) = Go th pool \<and>
    ThreadFunc_process 50 0 (w1\<lparr>g_threadpool := set_thread 0 th pool\<rparr>) = Inr w3 \<and>
    SendMsgThread_round False True [SendSpace 100] \<lparr>running = True, ifshutdown = False\<rparr> (g_socket w3) =
      Inr (False, \<lparr>running = True, ifshutdown = False\<rparr>, [], s4) \<and>
    os_trace s4 = [OsSend 7 (reply_packet HandlePing)]"
proof -
  let ?w = service_example and ?rs = "[got [0, 8, 0], got_eagain, got [0, 0, 0, 0, 0]]"
    and ?p = "[0, 8, 0, 0, 0, 0, 0, 0] :: byte list"
  have conn: "curstat (conns (g_socket ?w) 1) = PKG_HD_INIT"
    "judge_token (conns (g_socket ?w) 1) (sequence (conns (g_socket ?w) 1))" by code_simp+
  have run: "quiet_run ?rs 1 ?w" "run_bytes ?rs = ?p" by code_simp+
  have packet: "valid_packet ?p" "request_of ?p = Some HandlePing" by code_simp+
  have pool: "m_msgqueue (g_threadpool ?w) = []" "0 < length (m_threadvec (g_threadpool ?w))"
    "\<not> ifshutdown (m_threadvec (g_threadpool ?w) ! 0)" by code_simp+
  have sock: "m_send_msgList (g_socket ?w) = []" "m_msgtosend_count (g_socket ?w) = 0" "\<not> m_sendmutex (g_socket ?w)"
    "isend_count (conns (g_socket ?w) 1) \<le> 400" "iThrowsendCount (conns (g_socket ?w) 1) = 0" by code_simp+
  have len: "length (reply_packet HandlePing) \<le> 100" by (simp add: len_defs)
  have out: "os_trace (g_socket ?w) = []" "fd (conns (g_socket ?w) 1) = 7" by code_simp+
  from request_is_answered [OF conn run packet pool sock len, of "\<lparr>running = True, ifshutdown = False\<rparr>" 50 True]
  show ?thesis unfolding out by simp blast
qed

end
