(* ===== verification/Threads.thy ===== *)
theory Threads
  imports Startup
begin

text \<open>
  The thread functions as wholes, from entry to return, and what stops them: \<open>StopAll\<close> and
  \<open>~CThreadPool\<close> (\<open>threadpool/c_threadpool.cxx\<close>), \<open>Shutdown_SubProc\<close> and \<open>~CSocket\<close>
  (\<open>net/c_socket.cxx\<close>). The rounds of the loops are those of the components; here a round also says
  what the other threads did to the shared state and to the thread's flags before it. A thread function
  that does not return -- because it goes round for ever, or waits for ever on a mutex or the semaphore --
  is \<open>None\<close>.
\<close>

fun ended :: "fault + 'a \<Rightarrow> (fault + 'a) option" where
  "ended (Inl Deadlock) = None"
| "ended (Inl Waiting) = None"
| "ended r = Some r"

section \<open>The helper threads\<close>

text \<open>A change the other threads make between two rounds, which may set \<open>ifshutdown\<close>.\<close>

type_synonym others = "thread_item \<times> csocket \<Rightarrow> thread_item \<times> csocket"

text \<open>\<open>RecyConnThreadFunc\<close>: what happens before the test of the loop, the answer of that test's
  \<open>g_stopEvent\<close>, and the same again before the test under the lock.\<close>

record recy_round =
  rr_before :: others
  rr_stop :: bool
  rr_locking :: others
  rr_stop_in :: bool
  rr_clock :: "nat \<Rightarrow> int"
  rr_stops :: "nat \<Rightarrow> bool"

partial_function (option) RecyConnThread_loop ::
  "(nat \<Rightarrow> recy_round) \<Rightarrow> nat \<Rightarrow> thread_item \<Rightarrow> csocket \<Rightarrow> (thread_item \<times> csocket) option" where
  "RecyConnThread_loop env i t s =
     (let (t, s) = rr_before (env i) (t, s) in
      if rr_stop (env i) \<or> ifshutdown t then Some (t\<lparr>running := False\<rparr>, s)
      else
        let (t, s) = (if m_recy_connection_count s > 0 then rr_locking (env i) (t, s) else (t, s));
            (leave, s) = RecyConnThread_body (rr_stop_in (env i)) (ifshutdown t) (rr_clock (env i)) (rr_stops (env i)) s
        in if leave then Some (t\<lparr>running := False\<rparr>, s) else RecyConnThread_loop env (i + 1) t s)"

definition RecyConnThreadFunc ::
  "(nat \<Rightarrow> recy_round) \<Rightarrow> thread_item \<Rightarrow> csocket \<Rightarrow> (thread_item \<times> csocket) option" where
  "RecyConnThreadFunc env t s = RecyConnThread_loop env 0 (t\<lparr>running := True\<rparr>) s"

text \<open>\<open>SendMsgThreadFunc\<close>: \<open>sr_waiting\<close> is what happens while the thread waits for the semaphore, \<open>sr_wait_ok\<close>
  the answer of \<open>sem_wait\<close>, \<open>sr_answers\<close> those of the calls of \<open>send\<close>. A round that ends the thread by \<open>return\<close> leaves \<open>running\<close> as it is.\<close>

record send_round =
  sr_before :: others
  sr_stop :: bool
  sr_waiting :: others
  sr_wait_ok :: bool
  sr_stop_in :: bool
  sr_ctl :: bool
  sr_answers :: "csocket \<Rightarrow> send_ans list"

partial_function (option) SendMsgThread_loop ::
  "(nat \<Rightarrow> send_round) \<Rightarrow> nat \<Rightarrow> thread_item \<Rightarrow> csocket \<Rightarrow> (fault + thread_item \<times> csocket) option" where
  "SendMsgThread_loop env i t s =
     (let (t, s) = sr_before (env i) (t, s) in
      if sr_stop (env i) \<or> ifshutdown t then Some (Inr (t\<lparr>running := False\<rparr>, s))
      else
        let (t, s) = sr_waiting (env i) (t, s) in
        if \<not> sr_wait_ok (env i) then Some (Inr (t\<lparr>running := False\<rparr>, s))
        else case SendMsgThread_round (sr_stop_in (env i)) (sr_ctl (env i)) (sr_answers (env i) s) t s of
          Inl e \<Rightarrow> ended (Inl e)
        | Inr (leave, t, _, s) \<Rightarrow>
            if leave then Some (Inr (t, s)) else SendMsgThread_loop env (i + 1) t s)"

definition SendMsgThreadFunc ::
  "(nat \<Rightarrow> send_round) \<Rightarrow> thread_item \<Rightarrow> csocket \<Rightarrow> (fault + thread_item \<times> csocket) option" where
  "SendMsgThreadFunc env t s = SendMsgThread_loop env 0 t s"

text \<open>\<open>ServerTimerQueueThreadFunc\<close>: \<open>tr_time\<close> is the clock of the round, \<open>tr_ctl\<close> and \<open>tr_close\<close> the answers
  of \<open>epoll_ctl\<close> and \<open>close\<close>.\<close>

record timer_round =
  tr_before :: others
  tr_stop :: bool
  tr_time :: int
  tr_ctl :: bool
  tr_close :: bool

partial_function (option) ServerTimerQueueThreadFunc ::
  "(nat \<Rightarrow> timer_round) \<Rightarrow> nat \<Rightarrow> thread_item \<Rightarrow> csocket \<Rightarrow> (fault + thread_item \<times> csocket) option" where
  "ServerTimerQueueThreadFunc env i t s =
     (let (t, s) = tr_before (env i) (t, s) in
      case ServerTimerQueueThread_head (tr_stop (env i)) t s of
        Leave t s \<Rightarrow> Some (Inr (t, s))
      | Park t s \<Rightarrow> None
      | Go t s \<Rightarrow>
          Option.bind (timer_pass (tr_ctl (env i)) (tr_close (env i)) (tr_time (env i)) s) (\<lambda>r. case r of
            Inl e \<Rightarrow> ended (Inl e)
          | Inr s \<Rightarrow> ServerTimerQueueThreadFunc env (i + 1) t s))"

section \<open>The pool threads\<close>

text \<open>\<open>ThreadFunc\<close>. A thread that waits for a message takes the mutex again when it is woken, and so starts
  the next round; \<open>pr_before\<close> is what the others did in between, \<open>pr_now\<close> the clock.\<close>

record pool_round =
  pr_before :: "pool_thread \<times> world \<Rightarrow> pool_thread \<times> world"
  pr_now :: int

partial_function (option) ThreadFunc ::
  "(nat \<Rightarrow> pool_round) \<Rightarrow> nat \<Rightarrow> pool_thread \<Rightarrow> world \<Rightarrow> (fault + pool_thread \<times> world) option" where
  "ThreadFunc env i t w =
     (let (t, w) = pr_before (env i) (t, w) in
      case ThreadFunc_take t (g_threadpool w) of
        Leave t p \<Rightarrow> Some (Inr (t\<lparr>running := False\<rparr>, w\<lparr>g_threadpool := p\<rparr>))
      | Park t p \<Rightarrow> ThreadFunc env (i + 1) t (w\<lparr>g_threadpool := p\<rparr>)
      | Go t p \<Rightarrow>
          (case msg_held t of
             None \<Rightarrow> ThreadFunc env (i + 1) t (w\<lparr>g_threadpool := p\<rparr>)
           | Some m \<Rightarrow>
               (case ThreadRecvProc (pr_now (env i)) m (g_socket w) of
                  Inl e \<Rightarrow> ended (Inl e)
                | Inr (_, s) \<Rightarrow>
                    let (t, p) = ThreadFunc_finish t p
                    in ThreadFunc env (i + 1) t (w\<lparr>g_socket := s, g_threadpool := p\<rparr>))))"

section \<open>Stopping and joining\<close>

text \<open>One pass of the loop behind the labels \<open>WaitShutdown\<close> and \<open>wait\<close>: \<open>rs\<close> are the flags \<open>running\<close> as the
  pass reads them, \<open>J\<close> the threads joined so far. A thread seen running sends the pass back to the
  label. Joining a thread a second time is undefined.\<close>

fun join_pass :: "nat \<Rightarrow> bool list \<Rightarrow> nat list \<Rightarrow> fault + bool \<times> nat list" where
  "join_pass i [] J = Inr (True, J)"
| "join_pass i (r # rs) J =
     (if r then Inr (False, J)
      else if i \<in> set J then Inl BadAccess
      else join_pass (i + 1) rs (J @ [i]))"

text \<open>\<open>run k i\<close> is the flag of thread \<open>i\<close> in pass \<open>k\<close>, \<open>cast k\<close> the answer of the wake-up at its start.\<close>

partial_function (option) join_loop ::
  "(nat \<Rightarrow> bool) \<Rightarrow> (nat \<Rightarrow> nat \<Rightarrow> bool) \<Rightarrow> nat \<Rightarrow> nat \<Rightarrow> nat list \<Rightarrow> (fault + bool \<times> nat list) option" where
  "join_loop cast run n k J =
     (if \<not> cast k then Some (Inr (False, J))
      else case join_pass 0 (map (run k) [0..<n]) J of
        Inl e \<Rightarrow> Some (Inl e)
      | Inr (done, J) \<Rightarrow> if done then Some (Inr (True, J)) else join_loop cast run n (k + 1) J)"

text \<open>\<open>StopAll\<close> answers whether it stopped the pool; the threads joined are part of the answer.\<close>

definition StopAll ::
  "(nat \<Rightarrow> bool) \<Rightarrow> (nat \<Rightarrow> nat \<Rightarrow> bool) \<Rightarrow> threadpool \<Rightarrow> (fault + bool \<times> nat list \<times> threadpool) option" where
  "StopAll cast run p =
     (let (go, p) = StopAll_request p in
      if \<not> go then Some (Inr (False, [], p))
      else map_option (\<lambda>r. bindE r (\<lambda>(ok, J). Inr (ok, J, p)))
        (join_loop cast run (length (m_threadvec p)) 0 []))"

text \<open>\<open>~CThreadPool\<close>.\<close>

definition CThreadPool_destroy ::
  "(nat \<Rightarrow> bool) \<Rightarrow> (nat \<Rightarrow> nat \<Rightarrow> bool) \<Rightarrow> threadpool \<Rightarrow> (fault + threadpool) option" where
  "CThreadPool_destroy cast run p =
     map_option (\<lambda>r. bindE r (\<lambda>(_, _, p). Inr (CThreadPool_delete p))) (StopAll cast run p)"

text \<open>\<open>Shutdown_SubProc\<close>; \<open>post_ok\<close> is the answer of \<open>sem_post\<close>.\<close>

definition Shutdown_SubProc ::
  "bool \<Rightarrow> (nat \<Rightarrow> nat \<Rightarrow> bool) \<Rightarrow> csocket \<Rightarrow> (fault + nat list \<times> csocket) option" where
  "Shutdown_SubProc post_ok run s =
     (let s = s\<lparr>m_threadVector := map (\<lambda>t. t\<lparr>ifshutdown := True\<rparr>) (m_threadVector s)\<rparr> in
      if \<not> post_ok then Some (Inr ([], s))
      else
        let s = s\<lparr>m_sendsem := m_sendsem s + 1\<rparr> in
        map_option (\<lambda>r. bindE r (\<lambda>(_, J). Inr (J, Shutdown_finish s)))
          (join_loop (\<lambda>_. True) run (length (m_threadVector s)) 0 []))"

text \<open>\<open>~CSocket\<close>: the listening objects are freed.\<close>

definition CSocket_destroy :: "csocket \<Rightarrow> csocket" where
  "CSocket_destroy s = event_close_listen s"

section \<open>Waiting for the threads\<close>

lemma join_pass_fresh:
  assumes "\<forall>j \<in> set J. j < i"
  shows "join_pass i rs J = Inr (list_all Not rs, J @ [i..<i + length (takeWhile Not rs)])"
  using assms
proof (induction rs arbitrary: i J)
  case (Cons r rs)
  show ?case
  proof (cases r)
    case False
    moreover have "i \<notin> set J" using Cons.prems by auto
    moreover have "\<forall>j \<in> set (J @ [i]). j < i + 1" using Cons.prems by auto
    note Cons.IH [OF this]
    moreover have "[i..<i + length (takeWhile Not (r # rs))] = i # [i + 1..<i + 1 + length (takeWhile Not rs)]"
      using False by (simp add: upt_conv_Cons del: upt_Suc)
    ultimately show ?thesis using False by (simp del: upt_Suc)
  qed simp
qed simp

text \<open>A pass that starts after thread 0 has been joined, and sees it stopped, joins it again.\<close>

lemma join_pass_again: "0 \<in> set J \<Longrightarrow> n > 0 \<Longrightarrow> \<not> run 0 \<Longrightarrow> join_pass 0 (map run [0..<n]) J = Inl BadAccess"
  by (simp add: upt_conv_Cons)

lemma join_pass_waits: "n > 0 \<Longrightarrow> run 0 \<Longrightarrow> join_pass 0 (map run [0..<n]) [] = Inr (False, [])"
  by (simp add: upt_conv_Cons)

lemma join_loop_waits:
  assumes "\<forall>j < k0. cast j \<and> run j 0" "n > 0" "k \<le> k0"
  shows "join_loop cast run n k [] = join_loop cast run n k0 []"
  using assms(3)
proof (induction k rule: inc_induct)
  case (step k)
  with assms(1,2) show ?case by (subst join_loop.simps) (simp add: join_pass_waits)
qed simp

lemma join_loop_running:
  assumes "n > 0" "\<forall>j. cast j \<and> run j 0"
  shows "join_loop cast run n k [] = None"
proof -
  have "J \<noteq> []" if "join_loop cast run n k J = Some r" for k J r
  proof -
    have "c = cast \<and> f = run \<and> m = n \<longrightarrow> J \<noteq> []" if "join_loop c f m k J = Some r" for c f m k J r
    proof (rule join_loop.raw_induct [where P = "\<lambda>c f m k J r. c = cast \<and> f = run \<and> m = n \<longrightarrow> J \<noteq> []", OF _ that])
      fix jl c f m k J and r :: "fault + bool \<times> nat list"
      assume ih: "\<And>c f m k J r. jl c f m k J = Some r \<Longrightarrow> c = cast \<and> f = run \<and> m = n \<longrightarrow> J \<noteq> []"
        and body: "(if \<not> c k then Some (Inr (False, J))
          else case join_pass 0 (map (f k) [0..<m]) J of Inl e \<Rightarrow> Some (Inl e)
            | Inr (done, J) \<Rightarrow> if done then Some (Inr (True, J)) else jl c f m (k + 1) J) = Some r"
      show "c = cast \<and> f = run \<and> m = n \<longrightarrow> J \<noteq> []"
        using body ih [of cast run n "k + 1" "[]"] assms by (auto simp: join_pass_waits)
    qed
    with that show ?thesis by blast
  qed
  then show ?thesis by (cases "join_loop cast run n k []") blast+
qed

text \<open>The first pass that sees thread 0 stopped decides: either it sees all stopped, or the next pass joins
  thread 0 again.\<close>

lemma join_loop_first:
  assumes "n > 0" "\<forall>j. cast j" "\<not> run k 0" "\<forall>j. \<not> run j 0 \<longrightarrow> \<not> run (j + 1) 0"
  shows "join_loop cast run n k [] =
    (if \<forall>i < n. \<not> run k i then Some (Inr (True, [0..<n])) else Some (Inl BadAccess))"
proof -
  let ?rs = "map (run k) [0..<n]"
  have p: "join_pass 0 ?rs [] = Inr (list_all Not ?rs, [0..<length (takeWhile Not ?rs)])"
    by (simp add: join_pass_fresh)
  show ?thesis
  proof (cases "\<forall>i < n. \<not> run k i")
    case True
    then have "list_all Not ?rs" "takeWhile Not ?rs = ?rs" by (simp_all add: list_all_iff takeWhile_eq_all_conv)
    with p True assms(2) show ?thesis by (subst join_loop.simps) simp
  next
    case False
    then have "\<not> list_all Not ?rs" by (auto simp: list_all_iff)
    moreover have "takeWhile Not ?rs \<noteq> []" using assms(1,3) by (simp add: upt_conv_Cons)
    then have "0 \<in> set [0..<length (takeWhile Not ?rs)]" by simp
    from join_pass_again [OF this assms(1)] assms(3,4)
    have "join_loop cast run n (k + 1) [0..<length (takeWhile Not ?rs)] = Some (Inl BadAccess)"
      using assms(2) by (subst join_loop.simps) simp
    ultimately show ?thesis
      using p False assms(2) by (subst join_loop.simps) (simp del: upt_Suc)
  qed
qed

lemma join_loop_outcome:
  assumes "n > 0" "\<forall>k. \<not> run k 0 \<longrightarrow> \<not> run (k + 1) 0"
  shows "join_loop (\<lambda>_. True) run n 0 [] =
    (if \<forall>k. run k 0 then None
     else if \<forall>i < n. \<not> run (LEAST k. \<not> run k 0) i then Some (Inr (True, [0..<n]))
     else Some (Inl BadAccess))"
proof (cases "\<forall>k. run k 0")
  case True
  with join_loop_running [OF assms(1)] show ?thesis by simp
next
  case False
  define k where "k = (LEAST k. \<not> run k 0)"
  from False have k: "\<not> run k 0" unfolding k_def by (metis (mono_tags, lifting) LeastI_ex)
  have w: "\<forall>j < k. True \<and> run j 0" unfolding k_def using not_less_Least by blast
  have "join_loop (\<lambda>_. True) run n 0 [] = join_loop (\<lambda>_. True) run n k []"
    by (rule join_loop_waits [where cast = "\<lambda>_. True"]) (use w assms(1) in auto)
  moreover have "join_loop (\<lambda>_. True) run n k [] =
      (if \<forall>i < n. \<not> run k i then Some (Inr (True, [0..<n])) else Some (Inl BadAccess))"
    by (rule join_loop_first) (use assms k in auto)
  ultimately show ?thesis using False by (simp add: k_def)
qed

section \<open>A thread that is asked to leave\<close>

text \<open>From round \<open>k\<close> on the flag \<open>ifshutdown\<close> is set whenever the thread tests it.\<close>

lemma RecyConnThread_loop_leaves:
  assumes "i \<le> k" "\<And>x. ifshutdown (fst (rr_before (env k) x))"
  shows "\<exists>t' s'. RecyConnThread_loop env i t s = Some (t', s') \<and> \<not> running t'"
  using assms(1)
proof (induction i arbitrary: t s rule: inc_induct)
  case base
  with assms(2) [of "(t, s)"] show ?case
    by (subst RecyConnThread_loop.simps) (simp add: case_prod_unfold Let_def)
next
  case (step i)
  then show ?case
    by (subst RecyConnThread_loop.simps) (simp add: case_prod_unfold Let_def split: if_splits)
qed

text \<open>A round of the send thread that ends it without clearing \<open>running\<close> leaves the mutex locked.\<close>

lemma SendMsgThread_round_leave:
  assumes "SendMsgThread_round stop ok ans t s = Inr (True, t', ans', s')"
  shows "running t' \<longrightarrow> m_sendmutex s'"
proof (rule impI, rule ccontr)
  assume r: "running t'" "\<not> m_sendmutex s'"
  with assms obtain e kept a s1 where
    "(case e of ScanReturn \<Rightarrow> Inr (True, t\<lparr>running := True\<rparr>, a, s1\<lparr>m_send_msgList := kept, m_sendmutex := True\<rparr>)
      | ScanDone \<Rightarrow> Inr (False, t\<lparr>running := True\<rparr>, a, s1\<lparr>m_send_msgList := kept\<rparr>)) =
      (Inr (True, t', ans', s') :: fault + bool \<times> thread_item \<times> send_ans list \<times> csocket)"
    by (fastforce simp: SendMsgThread_round_eq Let_def bindE_Inr_iff split: if_splits)
  with r(2) show False by (cases e) auto
qed

text \<open>The others serve the send thread: they leave its mutex free and its queue in order, they post the semaphore
  while it waits, and the socket answers as often as there are messages.\<close>

definition serves_sender :: "send_round \<Rightarrow> bool" where
  "serves_sender r \<longleftrightarrow> (\<forall>t s. send_ready s \<longrightarrow> send_ready (snd (sr_before r (t, s))) \<and>
     (let s' = snd (sr_waiting r (t, s))
      in send_ready s' \<and> 0 < m_sendsem s' \<and> length (m_send_msgList s') \<le> served (sr_answers r s')))"

lemma SendMsgThread_loop_leaves:
  assumes "i \<le> k" "\<And>x. ifshutdown (fst (sr_before (env k) x))" "\<And>j. serves_sender (env j)" "send_ready s"
  shows "\<exists>t' s'. SendMsgThread_loop env i t s = Some (Inr (t', s')) \<and> (running t' \<longrightarrow> m_sendmutex s')"
  using assms(1,4)
proof (induction i arbitrary: t s rule: inc_induct)
  case base
  with assms(2) [of "(t, s)"] show ?case
    by (subst SendMsgThread_loop.simps) (simp add: case_prod_unfold Let_def)
next
  case (step i)
  obtain t1 s1 where b: "sr_before (env i) (t, s) = (t1, s1)" by fastforce
  obtain t2 s2 where w: "sr_waiting (env i) (t1, s1) = (t2, s2)" by fastforce
  have s1: "send_ready s1"
    using assms(3) [of i, unfolded serves_sender_def, rule_format, OF step.prems, of t] by (simp add: b)
  have "send_ready s2" "0 < m_sendsem s2" "length (m_send_msgList s2) \<le> served (sr_answers (env i) s2)"
    using assms(3) [of i, unfolded serves_sender_def, rule_format, OF s1, of t1] by (simp_all add: w Let_def)
  from SendMsgThread_round_total [OF this, of "sr_stop_in (env i)" "sr_ctl (env i)" t2] obtain lv t3 ans s3 where
    r: "SendMsgThread_round (sr_stop_in (env i)) (sr_ctl (env i)) (sr_answers (env i) s2) t2 s2 = Inr (lv, t3, ans, s3)"
    "lv \<or> send_ready s3" by blast
  have "running t3 \<longrightarrow> m_sendmutex s3" if lv using SendMsgThread_round_leave r(1) that by simp
  with step.IH [of s3 t3] r show ?case
    by (subst SendMsgThread_loop.simps) (auto simp: b w)
qed

text \<open>The timer thread needs its queue to be in order at the start of each round.\<close>

definition timer_ready :: "csocket \<Rightarrow> bool" where
  "timer_ready s \<longleftrightarrow> sock_inv s \<and> m_waittime s > 0"

lemma ServerTimerQueueThreadFunc_leaves:
  assumes "i \<le> k" "\<And>x. ifshutdown (fst (tr_before (env k) x))" "timer_ready s"
    and "\<And>j x. tr_close (env j) \<and> (timer_ready (snd x) \<longrightarrow> timer_ready (snd (tr_before (env j) x)))"
  shows "\<exists>t' s'. ServerTimerQueueThreadFunc env i t s = Some (Inr (t', s')) \<and> \<not> running t'"
  using assms(1,3)
proof (induction i arbitrary: t s rule: inc_induct)
  case base
  with assms(2) [of "(t, s)"] show ?case
    by (subst ServerTimerQueueThreadFunc.simps)
      (simp add: case_prod_unfold Let_def ServerTimerQueueThread_head_def)
next
  case (step i)
  obtain t1 s1 where b: "tr_before (env i) (t, s) = (t1, s1)" by fastforce
  with assms(4) [of i "(t, s)"] step.prems have r: "timer_ready s1" and c: "tr_close (env i)" by simp_all
  then have inv: "timer_inv s1" "pool_inv s1" "timer_conns s1" "m_waittime s1 > 0"
    by (simp_all add: timer_ready_def sock_inv_def)
  from timer_pass_examined [OF inv, of "tr_ctl (env i)" "tr_time (env i)"] obtain s2 s3 where
    p: "timer_pass (tr_ctl (env i)) True (tr_time (env i)) s1 = Some (Inr s2)"
    and w: "examined (tr_time (env i)) (due (tr_time (env i)) (m_timermap s1)) s3 s2" "m_waittime s3 = m_waittime s1"
    by blast
  from sock_inv_timer_pass [OF _ inv(4) p] r w have "timer_ready s2"
    by (simp add: timer_ready_def examined_def)
  with step.IH show ?case
    by (subst ServerTimerQueueThreadFunc.simps) (simp add: b c p ServerTimerQueueThread_head_def)
qed

text \<open>A pool thread needs messages of the receiver in its queue, and the send mutex free.\<close>

definition pool_ready :: "world \<Rightarrow> bool" where
  "pool_ready w \<longleftrightarrow> \<not> m_sendmutex (g_socket w) \<and> (\<forall>m. Some m \<in> set (m_msgqueue (g_threadpool w)) \<longrightarrow> framed m)"

text \<open>The others serve the pool: they keep it so, and send enough that a reply is not dropped.\<close>

definition serves_pool :: "pool_round \<Rightarrow> bool" where
  "serves_pool r \<longleftrightarrow> (\<forall>t w. pool_ready w \<longrightarrow> (let w' = snd (pr_before r (t, w)) in
     pool_ready w' \<and> m_msgtosend_count (g_socket w') \<le> 1000 \<and> (\<forall>a. isend_count (conns (g_socket w') a) \<le> 400)))"

text \<open>With room for the reply a handler returns with the send mutex free.\<close>

lemma ThreadRecvProc_returns:
  assumes "framed m" "\<not> m_sendmutex s" "m_msgtosend_count s \<le> 1000" "\<forall>a. isend_count (conns s a) \<le> 400"
  shows "\<exists>r s'. ThreadRecvProc now m s = Inr (r, s') \<and> \<not> m_sendmutex s'"
proof -
  from assms(1) obtain a sq p where m: "m = message_of a sq p" "valid_packet p" by (auto simp: framed_def)
  have "isend_count (serve now h c) = isend_count c" for h c by (simp add: serve_def Let_def)
  moreover have "\<not> 400 < isend_count (conns s a)" using assms(4) by (simp add: not_less)
  ultimately show ?thesis using assms(2,3)
    by (auto simp: m(1) ThreadRecvProc_eq [OF m(2)] MsgSendInQueue_eq Let_def upd_conn_def not_less split: option.split)
qed

lemma ThreadFunc_leaves:
  assumes "i \<le> k" "\<And>x. ifshutdown (fst (pr_before (env k) x))" "\<And>j. serves_pool (env j)" "pool_ready w"
  shows "\<exists>t' w'. ThreadFunc env i t w = Some (Inr (t', w')) \<and> \<not> running t'"
  using assms(1,4)
proof (induction i arbitrary: t w rule: inc_induct)
  case base
  with assms(2) [of "(t, w)"] show ?case
    by (subst ThreadFunc.simps) (simp add: case_prod_unfold Let_def ThreadFunc_take_eq)
next
  case (step i)
  obtain t1 w1 where b: "pr_before (env i) (t, w) = (t1, w1)" by fastforce
  have w1: "pool_ready w1" "m_msgtosend_count (g_socket w1) \<le> 1000" "\<forall>a. isend_count (conns (g_socket w1) a) \<le> 400"
    using assms(3) [of i, unfolded serves_pool_def, rule_format, OF step.prems, of t] by (simp_all add: b Let_def)
  have same: "\<exists>t' w'. ThreadFunc env (i + 1) t2 (w1\<lparr>g_threadpool := p\<rparr>) = Some (Inr (t', w')) \<and> \<not> running t'"
    if "set (m_msgqueue p) \<subseteq> set (m_msgqueue (g_threadpool w1))" for t2 p
    using step.IH [of "w1\<lparr>g_threadpool := p\<rparr>" t2] w1(1) that by (auto simp: pool_ready_def)
  show ?case
  proof (cases "ThreadFunc_take t1 (g_threadpool w1)")
    case (Leave t2 p)
    then show ?thesis by (subst ThreadFunc.simps) (simp add: b)
  next
    case (Park t2 p)
    then have "p = g_threadpool w1" by (auto simp: ThreadFunc_take_eq Let_def split: if_splits prod.splits)
    with same [of p t2] Park show ?thesis by (subst ThreadFunc.simps) (simp add: b)
  next
    case (Go t2 p)
    then have q: "set (m_msgqueue p) \<subseteq> set (m_msgqueue (g_threadpool w1))"
      and h: "msg_held t2 \<noteq> None \<Longrightarrow> msg_held t2 \<in> set (m_msgqueue (g_threadpool w1))"
      by (auto simp: ThreadFunc_take_eq get_msg_item_def Let_def split: if_splits list.splits)
    show ?thesis
    proof (cases "msg_held t2")
      case None
      with same [OF q] Go show ?thesis by (subst ThreadFunc.simps) (simp add: b)
    next
      case (Some m)
      with h w1(1) have "framed m" "\<not> m_sendmutex (g_socket w1)" by (auto simp: pool_ready_def)
      from ThreadRecvProc_returns [OF this w1(2,3), of "pr_now (env i)"] obtain r s' where
        run: "ThreadRecvProc (pr_now (env i)) m (g_socket w1) = Inr (r, s')" "\<not> m_sendmutex s'" by blast
      obtain t3 p3 where f: "ThreadFunc_finish t2 p = (t3, p3)" by fastforce
      then have "m_msgqueue p3 = m_msgqueue p" by (auto simp: ThreadFunc_finish_eq)
      with q run(2) w1(1) have "pool_ready (w1\<lparr>g_socket := s', g_threadpool := p3\<rparr>)" by (auto simp: pool_ready_def)
      from step.IH [OF this, of t3] Go Some run(1) f show ?thesis by (subst ThreadFunc.simps) (simp add: b)
    qed
  qed
qed

section \<open>Stopping\<close>

text \<open>C25. Stopping the pool and the helpers: \<open>StopAll\<close> and \<open>Shutdown_SubProc\<close> ask every thread to leave; what
  follows depends on the order in which the threads are seen to stop, because each pass of the waiting
  loop starts again with thread 0 and joins what it finds stopped. If thread 0 never stops the call never
  returns. If the first pass that sees thread 0 stopped sees all of them stopped, every thread is joined
  exactly once and the call succeeds. In every other case -- thread 0 stops before another thread -- it is
  joined a second time, which is undefined.\<close>

theorem stopping_outcome:
  assumes "\<not> m_shutdown p" "\<forall>k. \<not> run k 0 \<longrightarrow> \<not> run (k + 1) 0"
    and "length (m_threadvec p) = n" "length (m_threadVector s) = n" "n > 0"
  defines "p' \<equiv> snd (StopAll_request p)" and "s' \<equiv> Shutdown_finish (Shutdown_request s)"
  shows "(\<forall>t \<in> set (m_threadvec p'). ifshutdown t) \<and>
    (\<forall>t \<in> set (m_threadVector (Shutdown_request s)). ifshutdown t) \<and>
    (if \<forall>k. run k 0 then StopAll (\<lambda>_. True) run p = None \<and> Shutdown_SubProc True run s = None
     else if \<forall>i < n. \<not> run (LEAST k. \<not> run k 0) i
       then StopAll (\<lambda>_. True) run p = Some (Inr (True, [0..<n], p')) \<and>
         Shutdown_SubProc True run s = Some (Inr ([0..<n], s'))
     else StopAll (\<lambda>_. True) run p = Some (Inl BadAccess) \<and> Shutdown_SubProc True run s = Some (Inl BadAccess))"
proof -
  have "length (m_threadvec p') = n" "StopAll_request p = (True, p')" "\<forall>t \<in> set (m_threadvec p'). ifshutdown t"
    using assms(1,3) by (simp_all add: p'_def StopAll_request_def)
  moreover have "Shutdown_SubProc True run s = map_option (\<lambda>r. bindE r (\<lambda>(_, J). Inr (J, s')))
      (join_loop (\<lambda>_. True) run n 0 [])"
    using assms(4) by (simp add: Shutdown_SubProc_def s'_def Shutdown_request_def Let_def)
  moreover have "\<forall>t \<in> set (m_threadVector (Shutdown_request s)). ifshutdown t"
    by (simp add: Shutdown_request_def)
  ultimately show ?thesis
    using join_loop_outcome [of n run] assms(2,5) by (simp add: StopAll_def)
qed

text \<open>Two threads, of which the first stops at once and the second never.\<close>

definition two_workers :: threadpool where
  "two_workers = CThreadPool_new\<lparr>m_threadvec := [ThreadItem_new, ThreadItem_new]\<rparr>"

theorem stopping_outcome_witness:
  "StopAll (\<lambda>_. True) (\<lambda>k i. 0 < i) two_workers = Some (Inl BadAccess) \<and>
   StopAll (\<lambda>_. True) (\<lambda>k i. k = 0) two_workers = Some (Inr (True, [0, 1], snd (StopAll_request two_workers)))"
proof
  let ?s = "(CSocket_new (\<lambda>_. zero_connection))
    \<lparr>m_threadVector := [\<lparr>running = True, ifshutdown = False\<rparr>, \<lparr>running = True, ifshutdown = False\<rparr>]\<rparr>"
  have w: "\<not> m_shutdown two_workers" "length (m_threadvec two_workers) = 2" "length (m_threadVector ?s) = 2"
    by (simp_all add: two_workers_def CThreadPool_new_def)
  have "\<exists>i < (2::nat). 0 < i" by (rule exI [of _ 1]) simp
  then show "StopAll (\<lambda>_. True) (\<lambda>k i. 0 < i) two_workers = Some (Inl BadAccess)"
    using stopping_outcome [of two_workers "\<lambda>k i. 0 < i" 2 ?s] w by auto
  have l: "(LEAST k. k \<noteq> (0::nat)) = 1" by (rule Least_equality) auto
  have n: "(\<forall>k. k = (0::nat)) = False" by auto
  show "StopAll (\<lambda>_. True) (\<lambda>k i. k = 0) two_workers =
      Some (Inr (True, [0, 1], snd (StopAll_request two_workers)))"
    using stopping_outcome [of two_workers "\<lambda>k i. k = 0" 2 ?s, unfolded n l] w by (simp add: upt_rec)
qed

text \<open>C26. A thread that finds \<open>ifshutdown\<close> set comes to an end, and none is stuck on the way there. The recycling
  thread does so whatever the others do in between; the timer thread if its queue is in order; the send
  thread if the others leave its mutex free and post the semaphore; a pool thread if they leave that mutex
  free and the send queue has room for its replies. Each then returns, with \<open>running\<close> cleared; only the send
  thread may instead return with \<open>running\<close> set, and then it has left its mutex locked.\<close>

theorem asked_threads_return:
  assumes "\<And>x. ifshutdown (fst (rr_before (re k) x))" "\<And>x. ifshutdown (fst (sr_before (se k) x))"
    and "\<And>x. ifshutdown (fst (tr_before (te k) x))" "\<And>x. ifshutdown (fst (pr_before (pe k) x))"
    and "timer_ready s" "\<And>j x. tr_close (te j) \<and> (timer_ready (snd x) \<longrightarrow> timer_ready (snd (tr_before (te j) x)))"
    and "send_ready s" "\<And>j. serves_sender (se j)" "pool_ready w" "\<And>j. serves_pool (pe j)"
  shows "(\<exists>t' s'. RecyConnThreadFunc re t s = Some (t', s') \<and> \<not> running t') \<and>
    (\<exists>t' s'. SendMsgThreadFunc se t s = Some (Inr (t', s')) \<and> (running t' \<longrightarrow> m_sendmutex s')) \<and>
    (\<exists>t' s'. ServerTimerQueueThreadFunc te 0 t s = Some (Inr (t', s')) \<and> \<not> running t') \<and>
    (\<exists>t' w'. ThreadFunc pe 0 q w = Some (Inr (t', w')) \<and> \<not> running t')"
proof (intro conjI)
  show "\<exists>t' s'. RecyConnThreadFunc re t s = Some (t', s') \<and> \<not> running t'"
    unfolding RecyConnThreadFunc_def by (rule RecyConnThread_loop_leaves [where k = k]) (use assms(1) in simp_all)
  show "\<exists>t' s'. SendMsgThreadFunc se t s = Some (Inr (t', s')) \<and> (running t' \<longrightarrow> m_sendmutex s')"
    unfolding SendMsgThreadFunc_def by (rule SendMsgThread_loop_leaves [where k = k]) (use assms(2,7,8) in simp_all)
  show "\<exists>t' s'. ServerTimerQueueThreadFunc te 0 t s = Some (Inr (t', s')) \<and> \<not> running t'"
    by (rule ServerTimerQueueThreadFunc_leaves [where k = k]) (use assms(3,5,6) in simp_all)
  show "\<exists>t' w'. ThreadFunc pe 0 q w = Some (Inr (t', w')) \<and> \<not> running t'"
    by (rule ThreadFunc_leaves [where k = k]) (use assms(4,9,10) in simp_all)
qed

text \<open>The flag is set before round 1. In the meantime the semaphore is posted, and the replies are sent.\<close>

definition ask_at :: "nat \<Rightarrow> ('t thread_item_scheme) \<times> 's \<Rightarrow> 't thread_item_scheme \<times> 's" where
  "ask_at i x = (if i = 1 then ((fst x)\<lparr>ifshutdown := True\<rparr>, snd x) else x)"

definition asked_sender :: "nat \<Rightarrow> send_round" where
  "asked_sender i = \<lparr>sr_before = ask_at i, sr_stop = False, sr_waiting = map_prod id (\<lambda>s. s\<lparr>m_sendsem := 1\<rparr>),
     sr_wait_ok = True, sr_stop_in = False, sr_ctl = True,
     sr_answers = (\<lambda>s. replicate (length (m_send_msgList s)) (SendSpace 500))\<rparr>"

definition asked_worker :: "nat \<Rightarrow> pool_round" where
  "asked_worker i = \<lparr>pr_before = ask_at i \<circ> map_prod id (\<lambda>w. w\<lparr>g_socket := (g_socket w)
     \<lparr>m_msgtosend_count := 0, conns := (\<lambda>a. (conns (g_socket w) a)\<lparr>isend_count := 0\<rparr>)\<rparr>\<rparr>), pr_now = 0\<rparr>"

lemma asked_served: "serves_sender (asked_sender i)" "serves_pool (asked_worker i)"
  by (simp_all add: serves_sender_def asked_sender_def ask_at_def send_ready_def served_def Let_def
      serves_pool_def asked_worker_def pool_ready_def)

theorem asked_threads_return_witness:
  "(\<exists>t s. ServerTimerQueueThreadFunc (\<lambda>i. \<lparr>tr_before = ask_at i, tr_stop = False, tr_time = 100, tr_ctl = True,
      tr_close = True\<rparr>) 0 \<lparr>running = False, ifshutdown = False\<rparr> (g_socket start_example) = Some (Inr (t, s)) \<and>
      \<not> running t) \<and>
   (\<exists>t w. ThreadFunc asked_worker 0 ThreadItem_new start_example = Some (Inr (t, w)) \<and> \<not> running t)"
proof -
  have "sock_inv (g_socket start_example)"
    using worker.reach_inv [OF reach_init [of worker_init, OF start_init]] by simp
  moreover have "m_waittime (g_socket start_example) = 10" by code_simp
  ultimately have ready: "timer_ready (g_socket start_example)" by (simp add: timer_ready_def)
  have "m_send_msgList (g_socket start_example) = []" "\<not> m_sendmutex (g_socket start_example)"
    "m_msgqueue (g_threadpool start_example) = []"
    by code_simp+
  then have idle: "send_ready (g_socket start_example)" "pool_ready start_example"
    by (simp_all add: send_ready_def pool_ready_def)
  have "\<And>x. ifshutdown (fst (sr_before (asked_sender 1) x))" "\<And>x. ifshutdown (fst (pr_before (asked_worker 1) x))"
    by (simp_all add: asked_sender_def asked_worker_def ask_at_def)
  from asked_threads_return [where k = 1 and se = asked_sender and pe = asked_worker and s = "g_socket start_example"
      and w = start_example and q = ThreadItem_new and t = "\<lparr>running = False, ifshutdown = False\<rparr>"
      and re = "\<lambda>i. \<lparr>rr_before = ask_at i, rr_stop = False, rr_locking = id, rr_stop_in = False,
            rr_clock = \<lambda>_. 0, rr_stops = \<lambda>_. False\<rparr>"
      and te = "\<lambda>i. \<lparr>tr_before = ask_at i, tr_stop = False, tr_time = 100, tr_ctl = True, tr_close = True\<rparr>",
      OF _ this(1) _ this(2) ready _ idle(1) asked_served(1) idle(2) asked_served(2)]
  show ?thesis using ready by (simp add: ask_at_def)
qed

end
