(* ===== verification/Objects.thy ===== *)
theory Objects
  imports Conf Logic
begin

text \<open>
  The classes the others are built from: the scoped lock \<open>CLock\<close> (\<open>_include/c_lock.h\<close>), the three
  singletons \<open>CConfig\<close>, \<open>CCRC32\<close> and \<open>CMemory\<close> (\<open>_include/c_conf.h\<close>, \<open>c_crc32.h\<close>, \<open>c_memory.h\<close>), and what
  two handlers of \<open>socketlogic/c_socketlogic.cxx\<close> do with a scoped lock.
\<close>

section \<open>The scoped lock\<close>

text \<open>The mutexes of a worker: four of the socket object, one of each connection, one of the thread pool.\<close>

datatype mutex = SocketMutex | RecyMutex | SendMutex | TimerMutex | ConnMutex addr | PoolMutex

text \<open>A lock object holds a smart pointer to its mutex. Copies share one control block: the mutex and the
  number of copies. A block without copies is dead. \<open>locked\<close> is the state of the mutexes themselves.\<close>

type_synonym lock = nat

record locks =
  locked :: "mutex \<Rightarrow> bool"
  blocks :: "(mutex \<times> nat) list"

text \<open>The constructor: a new control block, then \<open>pthread_mutex_lock\<close>, which waits for ever if the mutex is held.\<close>

definition CLock_new :: "mutex \<Rightarrow> locks \<Rightarrow> fault + lock \<times> locks" where
  "CLock_new m st =
     (let l = length (blocks st); st = st\<lparr>blocks := blocks st @ [(m, 1)]\<rparr> in
      if locked st m then Inl Deadlock else Inr (l, st\<lparr>locked := (locked st)(m := True)\<rparr>))"

text \<open>The copy constructor.\<close>

definition CLock_copy :: "lock \<Rightarrow> locks \<Rightarrow> lock \<times> locks" where
  "CLock_copy l st = (l, st\<lparr>blocks := (blocks st)[l := (fst (blocks st ! l), snd (blocks st ! l) + 1)]\<rparr>)"

text \<open>The end of a lock object's life: the last copy runs the deleter, which unlocks.\<close>

definition CLock_delete :: "lock \<Rightarrow> locks \<Rightarrow> locks" where
  "CLock_delete l st =
     (let (m, n) = blocks st ! l; st = st\<lparr>blocks := (blocks st)[l := (m, n - 1)]\<rparr>
      in if n - 1 = 0 then st\<lparr>locked := (locked st)(m := False)\<rparr> else st)"

inductive lock_step :: "locks \<Rightarrow> locks \<Rightarrow> bool" where
  make: "CLock_new m st = Inr (l, st') \<Longrightarrow> lock_step st st'"
| copy: "l < length (blocks st) \<Longrightarrow> snd (blocks st ! l) > 0 \<Longrightarrow> CLock_copy l st = (l', st') \<Longrightarrow> lock_step st st'"
| delete: "l < length (blocks st) \<Longrightarrow> snd (blocks st ! l) > 0 \<Longrightarrow> lock_step st (CLock_delete l st)"

inductive_cases lock_stepE: "lock_step st st'"

definition unlocked :: locks where
  "unlocked = \<lparr>locked = (\<lambda>_. False), blocks = []\<rparr>"

text \<open>The blocks of a mutex that still have copies.\<close>

definition holders :: "mutex \<Rightarrow> locks \<Rightarrow> lock set" where
  "holders m st = {l. l < length (blocks st) \<and> fst (blocks st ! l) = m \<and> snd (blocks st ! l) > 0}"

definition locks_inv :: "locks \<Rightarrow> bool" where
  "locks_inv st \<longleftrightarrow> (\<forall>m. if locked st m then \<exists>l. holders m st = {l} else holders m st = {})"

lemma locks_inv_holder:
  assumes "locks_inv st" "l \<in> holders m st"
  shows "locked st m \<and> holders m st = {l}"
proof -
  from assms(1) have "if locked st m then \<exists>l. holders m st = {l} else holders m st = {}"
    by (simp add: locks_inv_def)
  with assms(2) show ?thesis by (cases "locked st m") auto
qed

lemma holders_new:
  assumes "CLock_new m st = Inr (l, st')"
  shows "l = length (blocks st)" "\<not> locked st m" "locked st' = (locked st)(m := True)"
    "holders m' st' = (if m' = m then insert l (holders m' st) else holders m' st)"
  using assms by (auto simp: CLock_new_def Let_def holders_def nth_append less_Suc_eq split: if_splits)

lemma holders_copy:
  "l < length (blocks st) \<Longrightarrow> snd (blocks st ! l) > 0 \<Longrightarrow> holders m (snd (CLock_copy l st)) = holders m st"
  by (auto simp: CLock_copy_def holders_def nth_list_update)

lemma holders_delete:
  assumes "l < length (blocks st)" "blocks st ! l = (m, n)" "n > 0"
  shows "holders m' (CLock_delete l st) = (if n = 1 \<and> m' = m then holders m' st - {l} else holders m' st)"
    "locked (CLock_delete l st) = (if n = 1 then (locked st)(m := False) else locked st)"
  using assms by (auto simp: CLock_delete_def holders_def nth_list_update Let_def)

lemma locks_inv_step:
  assumes inv: "locks_inv st" and step: "lock_step st st'"
  shows "locks_inv st'"
  using step
proof (rule lock_stepE)
  fix m l
  assume "CLock_new m st = Inr (l, st')"
  note n = holders_new [OF this]
  have "holders m st = {}" using inv n(2) by (auto simp: locks_inv_def)
  with inv show ?thesis by (auto simp: locks_inv_def n(3,4))
next
  fix l l'
  assume l: "l < length (blocks st)" "snd (blocks st ! l) > 0" and "CLock_copy l st = (l', st')"
  then have "st' = snd (CLock_copy l st)" "locked st' = locked st" by (auto simp: CLock_copy_def)
  with inv holders_copy [OF l] show ?thesis by (simp add: locks_inv_def)
next
  fix l
  assume l: "l < length (blocks st)" "snd (blocks st ! l) > 0" and st': "st' = CLock_delete l st"
  obtain m n where b: "blocks st ! l = (m, n)" by fastforce
  from l b have n: "n > 0" by simp
  have "l \<in> holders m st" using l b by (simp add: holders_def)
  with inv have h: "holders m st = {l}" by (simp add: locks_inv_holder)
  show ?thesis
    unfolding locks_inv_def st' holders_delete [OF l(1) b n] using inv h by (auto simp: locks_inv_def)
qed

interpretation locks: invariant_of "\<lambda>st. st = unlocked" lock_step locks_inv
  by unfold_locales (simp add: locks_inv_def unlocked_def holders_def, rule locks_inv_step)

text \<open>C28. The scoped lock excludes: however lock objects are made, copied and destroyed, a mutex is locked
  exactly while one of its lock objects is alive, all living ones are copies of one another, and so no
  second lock object for the same mutex can come into being. Destroying a copy unlocks the mutex exactly
  if it was the last one.\<close>

theorem scoped_lock_excludes:
  assumes "reach (\<lambda>st. st = unlocked) lock_step st" "l < length (blocks st)" "blocks st ! l = (m, n)" "n > 0"
  shows "locked st m \<and> holders m st = {l} \<and> CLock_new m st = Inl Deadlock \<and>
    (locked (CLock_delete l st) m \<longleftrightarrow> n > 1)"
proof -
  from locks.reach_inv [OF assms(1)] have inv: "locks_inv st" .
  have "l \<in> holders m st" using assms by (simp add: holders_def)
  with inv have "locked st m" "holders m st = {l}" by (simp_all add: locks_inv_holder)
  then show ?thesis
    using holders_delete(2) [OF assms(2-4)] assms(4) by (auto simp: CLock_new_def)
qed

definition lock_twice :: locks where
  "lock_twice = snd (CLock_copy 0 (case CLock_new RecyMutex unlocked of Inr (l, st) \<Rightarrow> st | Inl _ \<Rightarrow> unlocked))"

theorem scoped_lock_excludes_witness:
  "CLock_new RecyMutex lock_twice = Inl Deadlock \<and> locked (CLock_delete 0 lock_twice) RecyMutex"
proof -
  let ?st = "(unlocked\<lparr>blocks := [(RecyMutex, 1)]\<rparr>)\<lparr>locked := (\<lambda>_. False)(RecyMutex := True)\<rparr>"
  have n: "CLock_new RecyMutex unlocked = Inr (0, ?st)" by (simp add: CLock_new_def unlocked_def)
  then have "reach (\<lambda>st. st = unlocked) lock_step ?st"
    by (intro reach_step [OF reach_init [where s = unlocked]] lock_step.make) simp_all
  moreover have "CLock_copy 0 ?st = (0, lock_twice)" by (simp add: lock_twice_def n CLock_copy_def)
  then have "lock_step ?st lock_twice" by (rule lock_step.copy [rotated 2]) simp_all
  ultimately have "reach (\<lambda>st. st = unlocked) lock_step lock_twice" by (rule reach_step)
  moreover have "blocks lock_twice = [(RecyMutex, 2)]" by (simp add: lock_twice_def n CLock_copy_def numeral_2_eq_2)
  ultimately show ?thesis using scoped_lock_excludes [of lock_twice 0 RecyMutex 2] by simp
qed

section \<open>The double check of the handlers\<close>

text \<open>The guard at the start of \<open>_HandleRegister\<close> and \<open>_HandleLogin\<close>: the lock object lives in the block behind
  \<open>else\<close>. \<open>c\<close> and \<open>c'\<close> are the connection as the first and the second check see it.\<close>

definition double_check :: "addr \<Rightarrow> u64 \<Rightarrow> connection \<Rightarrow> connection \<Rightarrow> locks \<Rightarrow> fault + bool \<times> locks" where
  "double_check a t c c' st =
     (if \<not> judge_token c t then Inr (False, st)
      else bindE (CLock_new (ConnMutex a) st) (\<lambda>(l, st).
        let st = CLock_delete l st in
        if \<not> judge_token c' t then Inr (False, st) else Inr (True, st)))"

text \<open>\<open>_HandlePing\<close> and \<open>close_accepted_connection\<close> hold the lock to their end: \<open>body\<close> is what they do.\<close>

definition with_lock :: "mutex \<Rightarrow> (locks \<Rightarrow> fault + 'a \<times> locks) \<Rightarrow> locks \<Rightarrow> fault + 'a \<times> locks" where
  "with_lock m body st =
     bindE (CLock_new m st) (\<lambda>(l, st). bindE (body st) (\<lambda>(x, st). Inr (x, CLock_delete l st)))"

lemma CLock_new_delete:
  assumes "CLock_new m st = Inr (l, st')"
  shows "locked (CLock_delete l st') m' = locked st m'" "locked st' m"
  using assms by (auto simp: CLock_new_def CLock_delete_def Let_def split: if_splits)

text \<open>C29. The double check does not protect the handler: when the guard lets a request pass, its mutex is
  free again, so another thread can lock it and close the connection before the reply is built. While
  the body of a function that declares the lock at its own level runs, the mutex is held, and it is free
  again afterwards.\<close>

theorem double_check_unprotected:
  assumes "double_check a t c c' st = Inr (True, st')"
  shows "\<not> locked st' (ConnMutex a) \<and> (\<exists>r. CLock_new (ConnMutex a) st' = Inr r) \<and>
    with_lock (ConnMutex a) (\<lambda>st. Inr (locked st (ConnMutex a), st)) st' =
      Inr (True, CLock_delete (length (blocks st')) (snd (projr (CLock_new (ConnMutex a) st'))))"
proof -
  from assms obtain l st1 where n: "CLock_new (ConnMutex a) st = Inr (l, st1)" "st' = CLock_delete l st1"
    by (auto simp: double_check_def bindE_Inr_iff Let_def split: if_splits)
  have "\<not> locked st (ConnMutex a)" using n(1) by (simp add: CLock_new_def Let_def split: if_splits)
  then have free: "\<not> locked st' (ConnMutex a)" using CLock_new_delete(1) [OF n(1)] n(2) by simp
  then show ?thesis by (simp add: with_lock_def CLock_new_def)
qed

theorem double_check_unprotected_witness:
  "\<exists>st'. double_check 7 1 (zero_connection\<lparr>fd := 5, sequence := 1\<rparr>) (zero_connection\<lparr>fd := 5, sequence := 1\<rparr>) unlocked
     = Inr (True, st') \<and> \<not> locked st' (ConnMutex 7)"
proof -
  let ?c = "zero_connection\<lparr>fd := 5, sequence := 1\<rparr>"
  have "judge_token ?c 1" by (simp add: judge_token_exact zero_connection_def)
  then obtain st' where "double_check 7 1 ?c ?c unlocked = Inr (True, st')"
    by (simp add: double_check_def CLock_new_def unlocked_def)
  with double_check_unprotected [OF this] show ?thesis by blast
qed

section \<open>The singletons\<close>

text \<open>The static pointer \<open>m_instance\<close> with the object behind it, whether the static collector object exists (its
  destructor then runs when the process exits), and how often an object was made and deleted.\<close>

record 'a singleton =
  m_instance :: "'a option"
  collector :: bool
  made :: nat
  deleted :: nat

definition singleton_start :: "'a singleton" where
  "singleton_start = \<lparr>m_instance = None, collector = False, made = 0, deleted = 0\<rparr>"

definition CConfig_GetInstance :: "conf_item list singleton \<Rightarrow> conf_item list \<times> conf_item list singleton" where
  "CConfig_GetInstance st =
     (let st = (if m_instance st = None
                then let st = st\<lparr>m_instance := Some [], made := made st + 1\<rparr> in st\<lparr>collector := True\<rparr>
                else st)
      in (the (m_instance st), st))"

text \<open>\<open>CCRC32()\<close> fills the table; \<open>GetInstance\<close> tests the pointer twice.\<close>

definition CCRC32_new :: "u32 list" where
  "CCRC32_new = Init_CRC32_Table"

definition CCRC32_GetInstance :: "u32 list singleton \<Rightarrow> u32 list \<times> u32 list singleton" where
  "CCRC32_GetInstance st =
     (let st = (if m_instance st = None then
                  (if m_instance st = None
                   then let st = st\<lparr>m_instance := Some CCRC32_new, made := made st + 1\<rparr> in st\<lparr>collector := True\<rparr>
                   else st)
                else st)
      in (the (m_instance st), st))"

text \<open>An object of \<open>CMemory\<close> has no data.\<close>

definition CMemory_GetInstance :: "unit singleton \<Rightarrow> unit \<times> unit singleton" where
  "CMemory_GetInstance st =
     (let st = (if m_instance st = None
                then let st = st\<lparr>m_instance := Some (), made := made st + 1\<rparr> in st\<lparr>collector := True\<rparr>
                else st)
      in (the (m_instance st), st))"

text \<open>The destructors of the collectors: the first of \<open>CConfig\<close> also deletes the items, through \<open>~CConfig\<close>;
  \<open>freed\<close> are the items deleted.\<close>

definition CConfig_delete :: "conf_item list \<Rightarrow> conf_item list \<times> conf_item list" where
  "CConfig_delete items = (items, [])"

definition CConfig_collect :: "conf_item list singleton \<Rightarrow> conf_item list \<times> conf_item list singleton" where
  "CConfig_collect st = (case m_instance st of
      None \<Rightarrow> ([], st)
    | Some items \<Rightarrow>
        let (freed, _) = CConfig_delete items in (freed, st\<lparr>m_instance := None, deleted := deleted st + 1\<rparr>))"

definition CCRC32_collect :: "u32 list singleton \<Rightarrow> u32 list singleton" where
  "CCRC32_collect st =
     (if m_instance st \<noteq> None then st\<lparr>m_instance := None, deleted := deleted st + 1\<rparr> else st)"

definition CMemory_collect :: "unit singleton \<Rightarrow> unit singleton" where
  "CMemory_collect st =
     (if m_instance st \<noteq> None then st\<lparr>m_instance := None, deleted := deleted st + 1\<rparr> else st)"

text \<open>\<open>CConfig::Test\<close> writes the items to the standard output.\<close>

fun CConfig_Test_lines :: "conf_item list \<Rightarrow> string" where
  "CConfig_Test_lines [] = []"
| "CConfig_Test_lines (it # items) =
     ''itemname: '' @ itemname it @ [CHR 0x0A] @ ''itemvalue: '' @ itemvalue it @ [CHR 0x0A] @ CConfig_Test_lines items"

definition CConfig_Test :: "conf_item list \<Rightarrow> string" where
  "CConfig_Test items = ''*********** CConfig test ***********'' @ [CHR 0x0A] @ CConfig_Test_lines items"

section \<open>What a singleton promises\<close>

text \<open>The callers share one object: \<open>fs\<close> are the changes they make to it, each through the pointer its own call
  of \<open>GetInstance\<close> returned.\<close>

definition use_singleton :: "('a singleton \<Rightarrow> 'a \<times> 'a singleton) \<Rightarrow> ('a \<Rightarrow> 'a) \<Rightarrow> 'a singleton \<Rightarrow> 'a singleton" where
  "use_singleton get f st = (let (x, st) = get st in st\<lparr>m_instance := Some (f x)\<rparr>)"

locale single_object =
  fixes get :: "'a singleton \<Rightarrow> 'a \<times> 'a singleton"
    and collect :: "'a singleton \<Rightarrow> 'a singleton"
    and fresh :: 'a
  assumes get_none: "m_instance st = None \<Longrightarrow>
      get st = (fresh, st\<lparr>m_instance := Some fresh, made := made st + 1, collector := True\<rparr>)"
    and get_some: "m_instance st = Some x \<Longrightarrow> get st = (x, st)"
    and collect_some: "m_instance st = Some x \<Longrightarrow> collect st = st\<lparr>m_instance := None, deleted := deleted st + 1\<rparr>"
    and collect_none: "m_instance st = None \<Longrightarrow> collect st = st"
begin

lemma uses_some:
  "m_instance st = Some x \<Longrightarrow> fold (use_singleton get) fs st = st\<lparr>m_instance := Some (fold id fs x)\<rparr>"
  by (induction fs arbitrary: st x) (simp_all add: use_singleton_def get_some)

lemma made_once:
  assumes "fs \<noteq> []"
  shows "fold (use_singleton get) fs singleton_start =
      \<lparr>m_instance = Some (fold id fs fresh), collector = True, made = 1, deleted = 0\<rparr> \<and>
    (let st = collect (fold (use_singleton get) fs singleton_start)
     in made st = 1 \<and> deleted st = 1 \<and> m_instance st = None \<and> collect st = st)"
proof -
  obtain f gs where fs: "fs = f # gs" using assms by (cases fs) auto
  let ?s1 = "\<lparr>m_instance = Some (f fresh), collector = True, made = 1, deleted = 0\<rparr>"
  have "use_singleton get f singleton_start = ?s1"
    by (simp add: use_singleton_def get_none singleton_start_def)
  moreover have "fold (use_singleton get) gs ?s1 = ?s1\<lparr>m_instance := Some (fold id gs (f fresh))\<rparr>"
    by (rule uses_some) simp
  ultimately show ?thesis by (simp add: fs collect_some collect_none)
qed

end

interpretation config: single_object CConfig_GetInstance "\<lambda>st. snd (CConfig_collect st)" "[]"
  by unfold_locales (simp_all add: CConfig_GetInstance_def CConfig_collect_def CConfig_delete_def)

interpretation crc: single_object CCRC32_GetInstance CCRC32_collect Init_CRC32_Table
  by unfold_locales (simp_all add: CCRC32_GetInstance_def CCRC32_collect_def CCRC32_new_def)

interpretation memory: single_object CMemory_GetInstance CMemory_collect "()"
  by unfold_locales (simp_all add: CMemory_GetInstance_def CMemory_collect_def)

text \<open>Each singleton is made once and deleted once, however often and from wherever it is asked for: all
  callers work on one object, which starts as its constructor leaves it (no items; the complete checksum
  table), the changes of one caller are what the next one finds, and at the end of the process the
  collector deletes it, with all items of the configuration, and clears the pointer.\<close>

theorem singletons_made_once:
  assumes "fs \<noteq> []" "gs \<noteq> []" "hs \<noteq> []"
  shows "let c = fold (use_singleton CConfig_GetInstance) fs singleton_start;
      t = fold (use_singleton CCRC32_GetInstance) gs singleton_start;
      m = fold (use_singleton CMemory_GetInstance) hs singleton_start in
    (made c, made t, made m) = (1, 1, 1) \<and> collector c \<and> collector t \<and> collector m \<and>
    m_instance c = Some (fold id fs []) \<and> m_instance t = Some (fold id gs Init_CRC32_Table) \<and>
    fst (CConfig_collect c) = fold id fs [] \<and>
    (deleted (snd (CConfig_collect c)), deleted (CCRC32_collect t), deleted (CMemory_collect m)) = (1, 1, 1) \<and>
    m_instance (snd (CConfig_collect c)) = None \<and> m_instance (CCRC32_collect t) = None \<and>
    m_instance (CMemory_collect m) = None"
proof -
  note [simp] = conjunct1 [OF config.made_once [OF assms(1)]] conjunct1 [OF crc.made_once [OF assms(2)]]
    conjunct1 [OF memory.made_once [OF assms(3)]]
  show ?thesis
    by (simp add: Let_def CConfig_collect_def CConfig_delete_def CCRC32_collect_def CMemory_collect_def)
qed

theorem singletons_made_once_witness:
  "made (fold (use_singleton CConfig_GetInstance) [\<lambda>items. items @ [\<lparr>itemname = ''Daemon'', itemvalue = ''1''\<rparr>], id]
      singleton_start) = 1"
  using singletons_made_once [of "[\<lambda>items. items @ [\<lparr>itemname = ''Daemon'', itemvalue = ''1''\<rparr>], id]" "[id]" "[id]"]
  by (simp add: Let_def)

end
