(* ===== verification/Master.thy ===== *)
theory Master
  imports Process
begin

text \<open>
  The end of the two cycles of \<open>proc/proc_cycle.cxx\<close>: the signals the master blocks, its endless waiting for
  signals, and that neither cycle ever returns. The handler is the one of \<open>Signals\<close>.
\<close>

section \<open>Signal masks\<close>

abbreviation (input) SIGUSR2 :: u32 where "SIGUSR2 \<equiv> 12"
abbreviation (input) SIGALRM :: u32 where "SIGALRM \<equiv> 14"
abbreviation (input) SIGWINCH :: u32 where "SIGWINCH \<equiv> 28"

text \<open>The set \<open>master_process_cycle\<close> adds to the mask; \<open>ok\<close> is the answer of \<open>sigprocmask\<close>.\<close>

definition master_signals :: "u32 list" where
  "master_signals = [SIGCHLD, SIGALRM, SIGIO, SIGINT, SIGHUP, SIGUSR1, SIGUSR2, SIGWINCH, SIGTERM, SIGQUIT]"

definition block_signals :: "bool \<Rightarrow> u32 set \<Rightarrow> u32 set" where
  "block_signals ok sigs = (if ok then sigs \<union> set master_signals else sigs)"

text \<open>A worker inherits the mask and clears it in \<open>init_worker_process\<close>.\<close>

definition clear_signals :: "bool \<Rightarrow> u32 set \<Rightarrow> u32 set" where
  "clear_signals ok sigs = (if ok then {} else sigs)"

section \<open>The master waits\<close>

text \<open>What \<open>sigsuspend\<close> with an empty mask returns from: a signal with a handler, its sender, and the answers
  of \<open>waitpid\<close>. The handler runs before \<open>sigsuspend\<close> returns; then the mask is the former one again.\<close>

record wake =
  wk_signo :: u32
  wk_sender :: "u32 option"
  wk_children :: "wait_res list"

partial_function (option) master_wait ::
  "logger \<Rightarrow> (nat \<Rightarrow> wake) \<Rightarrow> nat \<Rightarrow> proc \<Rightarrow> (fault + proc) option" where
  "master_wait log wake i p =
     (case signal_handler log (wk_children (wake i)) (wk_signo (wake i)) (wk_sender (wake i)) p of
        Inl e \<Rightarrow> Some (Inl e)
      | Inr (p, _) \<Rightarrow> master_wait log wake (i + 1) p)"

section \<open>Properties\<close>

lemma render_received:
  "render ''signal %d (%s) received %s'' [ArgInt n, ArgStr name, ArgStr action] =
     Some (''signal '' @ field CHR '' '' 0 n @ '' ('' @ name @ '') received '' @ action)"
  by (simp add: render_eval field_def)

text \<open>A signal without a sender, other than \<open>SIGCHLD\<close>, is logged.\<close>

lemma signal_without_sender:
  assumes "tm_ok t" "find_signal n signals = Some name" "sender = None \<or> sender = Some 0" "n \<noteq> SIGCHLD"
  shows "\<exists>out. signal_handler (log_error_core log_s t me strerror ans) ws n sender p = Inr (p, out)"
proof -
  have "length (''signal '' @ field CHR '' '' 0 n @ '' ('' @ name @ '') received '' @ []) < 1900"
    using signal_name_short [OF assms(2)] length_field_0 [of "CHR '' ''" n] by simp
  from log_short [OF assms(1) _ render_received this, of 7] show ?thesis
    using assms(2-4) by (auto simp: signal_handler_def err_levels_def)
qed

definition from_process :: "wake \<Rightarrow> bool" where
  "from_process k \<longleftrightarrow> (\<exists>pid. wk_sender k = Some pid \<and> pid \<noteq> 0)"

lemma not_from_process: "\<not> from_process k \<Longrightarrow> wk_sender k = None \<or> wk_sender k = Some 0"
  by (cases "wk_sender k") (auto simp: from_process_def)

lemma master_wait_signalled:
  assumes "tm_ok t" "\<forall>i. \<exists>name. find_signal (wk_signo (wake i)) signals = Some name"
    and "\<forall>i. wk_signo (wake i) = SIGCHLD \<longrightarrow> from_process (wake i)"
    and "i \<le> k" "from_process (wake k)"
  shows "master_wait (log_error_core log_s t me strerror ans) wake i p = Some (Inl BadAccess)"
  using assms(4)
proof (induction i arbitrary: p rule: inc_induct)
  case base
  from assms(2) obtain name where "find_signal (wk_signo (wake k)) signals = Some name" by blast
  from assms(5) signal_with_sender_faults [OF assms(1) this] show ?case
    by (subst master_wait.simps) (auto simp: from_process_def)
next
  case (step i)
  from assms(2) obtain name where n: "find_signal (wk_signo (wake i)) signals = Some name" by blast
  show ?case
  proof (cases "from_process (wake i)")
    case True
    with signal_with_sender_faults [OF assms(1) n] show ?thesis
      by (subst master_wait.simps) (auto simp: from_process_def)
  next
    case False
    then have "wk_sender (wake i) = None \<or> wk_sender (wake i) = Some 0" "wk_signo (wake i) \<noteq> SIGCHLD"
      using assms(3) not_from_process by blast+
    from signal_without_sender [OF assms(1) n this, of log_s me strerror ans "wk_children (wake i)" p] obtain p1 out
      where "signal_handler (log_error_core log_s t me strerror ans) (wk_children (wake i)) (wk_signo (wake i))
        (wk_sender (wake i)) p = Inr (p1, out)" by blast
    with step.IH [of p1] show ?thesis by (subst master_wait.simps) simp
  qed
qed

lemma master_wait_quiet:
  assumes "tm_ok t" "\<forall>i. \<exists>name. find_signal (wk_signo (wake i)) signals = Some name"
    and "\<forall>i. wk_signo (wake i) \<noteq> SIGCHLD \<and> \<not> from_process (wake i)"
  shows "master_wait (log_error_core log_s t me strerror ans) wake i p = None"
proof -
  let ?log = "log_error_core log_s t me strerror ans"
  have "l \<noteq> ?log \<or> w \<noteq> wake" if "master_wait l w i p = Some r" for l w i p r
  proof (rule master_wait.raw_induct [where P = "\<lambda>l w i p r. l \<noteq> ?log \<or> w \<noteq> wake", OF _ that])
    fix mw l w i p and r :: "fault + proc"
    assume ih: "\<And>l w i p r. mw l w i p = Some r \<Longrightarrow> l \<noteq> ?log \<or> w \<noteq> wake"
      and body: "(case signal_handler l (wk_children (w i)) (wk_signo (w i)) (wk_sender (w i)) p of
        Inl e \<Rightarrow> Some (Inl e) | Inr (p, _) \<Rightarrow> mw l w (i + 1) p) = Some r"
    show "l \<noteq> ?log \<or> w \<noteq> wake"
    proof (rule ccontr)
      assume "\<not> (l \<noteq> ?log \<or> w \<noteq> wake)"
      then have lw: "l = ?log" "w = wake" by simp_all
      from assms(2) obtain name where n: "find_signal (wk_signo (wake i)) signals = Some name" by blast
      from assms(3) have "wk_sender (wake i) = None \<or> wk_sender (wake i) = Some 0" "wk_signo (wake i) \<noteq> SIGCHLD"
        using not_from_process by blast+
      from signal_without_sender [OF assms(1) n this, of log_s me strerror ans "wk_children (wake i)" p] obtain p1 out
        where "signal_handler ?log (wk_children (wake i)) (wk_signo (wake i)) (wk_sender (wake i)) p = Inr (p1, out)"
        by blast
      with ih [of ?log wake "i + 1" p1 r] body show False by (simp add: lw)
    qed
  qed
  then show ?thesis by (cases "master_wait ?log wake i p") blast+
qed

text \<open>C27. The life of the master after it has started its workers: every signal that has a handler is blocked
  outside \<open>sigsuspend\<close>, so that a handler never interrupts the master's own code, and no worker blocks any of them; the master waits for
  ever as long as no process sends it a signal; and the first signal a process sends -- for which the end
  of a worker is enough -- ends it with an invalid memory access.\<close>

theorem master_lives_until_signalled:
  assumes "tm_ok t" "\<forall>i. \<exists>name. find_signal (wk_signo (wake i)) signals = Some name"
    and "\<forall>i. wk_signo (wake i) = SIGCHLD \<longrightarrow> from_process (wake i)"
  shows "(\<forall>s \<in> set signals. sig_handled s \<longrightarrow> signo s \<in> block_signals True sigs \<and>
      signo s \<notin> clear_signals True (block_signals True sigs)) \<and>
    master_wait (log_error_core log_s t me strerror ans) wake 0 p =
      (if \<exists>i. from_process (wake i) then Some (Inl BadAccess) else None)"
proof
  show "\<forall>s \<in> set signals. sig_handled s \<longrightarrow> signo s \<in> block_signals True sigs \<and>
      signo s \<notin> clear_signals True (block_signals True sigs)"
    by (simp add: signals_def block_signals_def clear_signals_def master_signals_def)
  show "master_wait (log_error_core log_s t me strerror ans) wake 0 p =
      (if \<exists>i. from_process (wake i) then Some (Inl BadAccess) else None)"
  proof (cases "\<exists>i. from_process (wake i)")
    case True
    then obtain k where "from_process (wake k)" ..
    have "master_wait (log_error_core log_s t me strerror ans) wake 0 p = Some (Inl BadAccess)"
      by (rule master_wait_signalled [where k = k]) (use assms \<open>from_process (wake k)\<close> in simp_all)
    with True show ?thesis by simp
  next
    case False
    with assms(3) have "\<forall>i. wk_signo (wake i) \<noteq> SIGCHLD \<and> \<not> from_process (wake i)" by blast
    from master_wait_quiet [OF assms(1,2) this] False show ?thesis by simp
  qed
qed

text \<open>A terminal interrupt, then the end of worker 78.\<close>

definition two_signals :: "nat \<Rightarrow> wake" where
  "two_signals i = (if i = 0 then \<lparr>wk_signo = SIGINT, wk_sender = Some 0, wk_children = []\<rparr>
     else \<lparr>wk_signo = SIGCHLD, wk_sender = Some 78, wk_children = [WaitPid 78 9, WaitNone]\<rparr>)"

theorem master_lives_until_signalled_witness:
  "master_wait (log_error_core \<lparr>log_level = 8, log_fd = 3\<rparr> example_time 77 (\<lambda>_. []) WriteOk) two_signals 0
     \<lparr>process_form = PROCESS_MASTER, reap = 0\<rparr> = Some (Inl BadAccess)"
proof -
  have t: "tm_ok example_time" by code_simp
  have "\<forall>i. \<exists>name. find_signal (wk_signo (two_signals i)) signals = Some name"
    by (simp add: two_signals_def signals_def)
  moreover have "\<forall>i. wk_signo (two_signals i) = SIGCHLD \<longrightarrow> from_process (two_signals i)"
    by (simp add: two_signals_def from_process_def split: if_splits)
  moreover have "from_process (two_signals 1)" by (simp add: two_signals_def from_process_def)
  ultimately show ?thesis
    using master_lives_until_signalled [OF t, of two_signals] by auto
qed

section \<open>The cycles do not return\<close>

text \<open>Neither cycle returns, whatever the system answers: \<open>master_process_cycle\<close> never leaves its waiting, and
  \<open>worker_process_cycle\<close> never reaches \<open>StopAll\<close> and \<open>Shutdown_SubProc\<close>. A worker can only run for ever, wait for
  ever, or end in the middle of a round.\<close>

theorem cycles_never_return:
  "master_wait log wake i p \<noteq> Some (Inr p') \<and> worker_process_cycle ans clock j w \<noteq> Some (Inr w')"
proof
  have "\<exists>e. r = Inl e" if "master_wait log wake i p = Some r" for log wake i p and r :: "fault + proc"
    by (rule master_wait.raw_induct [where P = "\<lambda>_ _ _ _ r. \<exists>e. r = Inl e", OF _ that])
      (auto split: sum.splits)
  then show "master_wait log wake i p \<noteq> Some (Inr p')" by fastforce
  have "\<exists>e. r = Inl e" if "worker_process_cycle ans clock j w = Some r" for ans clock j w and r :: "fault + world"
    by (rule worker_process_cycle.raw_induct [where P = "\<lambda>_ _ _ _ r. \<exists>e. r = Inl e", OF _ that])
      (auto split: sum.splits)
  then show "worker_process_cycle ans clock j w \<noteq> Some (Inr w')" by fastforce
qed

end
