(* ===== verification/Safe.thy ===== *)
theory Safe
  imports Startup Service
begin

text \<open>
  Well-formed data in a worker as a whole: the data the threads hand to each other are well-formed -- what
  a connection collects, what waits for or is held by a pool thread, what waits to be sent -- and every step
  keeps them so. That no thread which meets such data follows a bad pointer is shown in \<open>Flight\<close>.
\<close>

section \<open>Well-formed data\<close>

text \<open>A connection in service is in a state of the receiver, and has not been thrown out for silence.\<close>

definition receiving_ok :: "csocket \<Rightarrow> bool" where
  "receiving_ok s \<longleftrightarrow> (\<forall>a \<in> serving s. recv_wf a (conns s a) \<and> \<not> istimeout (conns s a))"

text \<open>\<open>L\<close> are the connection objects of the pool.\<close>

definition is_request :: "addr set \<Rightarrow> byte list \<Rightarrow> bool" where
  "is_request L m \<longleftrightarrow> (\<exists>a sq p. m = message_of a sq p \<and> valid_packet p \<and> a \<in> L)"

definition requests_ok :: "addr set \<Rightarrow> threadpool \<Rightarrow> bool" where
  "requests_ok L p \<longleftrightarrow> (\<forall>x \<in> set (m_msgqueue p). \<exists>m. x = Some m \<and> is_request L m) \<and>
     (\<forall>t \<in> set (m_threadvec p). \<forall>m. msg_held t = Some m \<longrightarrow> is_request L m)"

definition replies_ok :: "csocket \<Rightarrow> bool" where
  "replies_ok s \<longleftrightarrow> (\<forall>m \<in> set (m_send_msgList s). wf_msg m)"

definition memory_inv :: "world \<Rightarrow> bool" where
  "memory_inv w \<longleftrightarrow> receiving_ok (g_socket w) \<and> replies_ok (g_socket w) \<and>
     requests_ok (set (m_connectionList (g_socket w))) (g_threadpool w)"

lemma requests_ok_more: "requests_ok L p \<Longrightarrow> L \<subseteq> L' \<Longrightarrow> requests_ok L' p"
  unfolding requests_ok_def is_request_def by blast

section \<open>Steps in order\<close>

text \<open>A read event in order: it is reported for an open connection, \<open>recv\<close> keeps its promise, and it does not
  answer \<open>EAGAIN\<close> inside a body -- the one answer after which the code keeps a pointer to released memory.\<close>

definition orderly_read :: "event_env \<Rightarrow> u32 \<Rightarrow> addr \<Rightarrow> world \<Rightarrow> bool" where
  "orderly_read env ev a w \<longleftrightarrow>
     (let c = conns (g_socket w) a; r = ee_recv env in
      ev AND EPOLLIN \<noteq> 0 \<and> rhandler c = event_readable_request_handler \<longrightarrow>
        fd c \<noteq> -1 \<and> recv_ok (recv_want c) r \<and>
        (ra_data r = [] \<and> ra_errno r = EAGAIN \<longrightarrow> curstat c = PKG_HD_INIT \<or> curstat c = PKG_HD_RECVING))"

text \<open>A write event in order: it is reported for an open connection on which a message is under way. Interest in
  \<open>EPOLLOUT\<close> begins with a message that did not fit; the write handler ends it when the message is out, but
  not when \<open>send\<close> fails.\<close>

definition orderly_write :: "u32 \<Rightarrow> addr \<Rightarrow> world \<Rightarrow> bool" where
  "orderly_write ev a w \<longleftrightarrow>
     (let c = conns (g_socket w) a in
      ev AND EPOLLOUT = 0 \<or> rhandler c = event_readable_request_handler \<and>
        whandler c = event_writable_request_handler \<and> 0 < fd c \<and> 0 < iThrowsendCount c)"

text \<open>No connection object has been used so often that its 64-bit sequence number is about to wrap around.\<close>

definition young :: "world \<Rightarrow> bool" where
  "young w \<longleftrightarrow> (\<forall>a \<in> set (m_connectionList (g_socket w)). unat (sequence (conns (g_socket w) a)) + 2 < 2 ^ 64)"

inductive orderly_step :: "world \<Rightarrow> world \<Rightarrow> bool" where
  event: "process_event env ev a w = Inr w' \<Longrightarrow> a \<in> set (m_connectionList (g_socket w)) \<Longrightarrow> env_ok env w \<Longrightarrow>
    orderly_read env ev a w \<Longrightarrow> orderly_write ev a w \<Longrightarrow> young w \<Longrightarrow> orderly_step w w'"
| background: "background_step w w' \<Longrightarrow> young w \<Longrightarrow> orderly_step w w'"

lemma orderly_worker_step: "orderly_step w w' \<Longrightarrow> worker_step w w'"
  by (induction rule: orderly_step.induct) (auto intro: worker_step.intros simp: orderly_write_def Let_def)

section \<open>What leaves the receiving side alone\<close>

text \<open>A change that closes connections or keeps what the receiver needs of them.\<close>

definition leaves :: "csocket \<Rightarrow> csocket \<Rightarrow> bool" where
  "leaves s s' \<longleftrightarrow> m_connectionList s' = m_connectionList s \<and>
     (\<forall>b \<in> serving s'. b \<in> serving s \<and> recv_view (conns s' b) = recv_view (conns s b))"

lemma leaves_refl [simp]: "leaves s s"
  by (simp add: leaves_def)

lemma leaves_trans: "leaves s t \<Longrightarrow> leaves t u \<Longrightarrow> leaves s u"
  by (simp add: leaves_def)

lemma recv_wf_view: "recv_view c = recv_view c' \<Longrightarrow> recv_wf a c = recv_wf a c'"
  unfolding recv_view_def recv_wf_def prod.inject by (elim conjE) (simp only:)

lemma receiving_ok_leaves:
  assumes "receiving_ok s" "leaves s s'"
  shows "receiving_ok s'"
  unfolding receiving_ok_def
proof
  fix a
  assume "a \<in> serving s'"
  then have "a \<in> serving s" "recv_view (conns s' a) = recv_view (conns s a)"
    using assms(2) by (simp_all add: leaves_def)
  with assms(1) recv_wf_view [OF this(2)] show "recv_wf a (conns s' a) \<and> \<not> istimeout (conns s' a)"
    by (simp add: receiving_ok_def recv_view_def)
qed

lemma leaves_conns:
  "m_connectionList s' = m_connectionList s \<Longrightarrow> (\<And>b. send_side (conns s b) (conns s' b)) \<Longrightarrow> leaves s s'"
  by (simp add: leaves_def serving_def send_side_def)

lemma leaves_list: "leaves s s' \<Longrightarrow> m_connectionList s' = m_connectionList s"
  by (simp add: leaves_def)

lemma send_side_refl [simp]: "send_side c c"
  by (simp add: send_side_def)

lemma send_side_epoll:
  "send_side (conns s b) (conns (snd (epoll_oper_event ok g fl et bc a s)) b)"
  by (simp add: epoll_oper_event_def Let_def send_side_def recv_view_def)

interpretation leaving: send_frame leaves
proof
  fix s s' a f
  assume "leaves s s'" "send_side (conns s' a) (f (conns s' a))"
  then show "leaves s (upd_conn a f s')"
    by (elim leaves_trans) (rule leaves_conns, simp_all)
next
  fix s s' ok g fl et bc a
  assume "leaves s s'"
  then show "leaves s (snd (epoll_oper_event ok g fl et bc a s'))"
    by (rule leaves_trans) (rule leaves_conns, simp, rule send_side_epoll)
qed (erule leaves_trans, rule leaves_conns, simp_all)+

text \<open>What the socket object has sent, and what it has still to send.\<close>

definition emitted :: "csocket \<Rightarrow> (int \<times> byte list) list" where
  "emitted s = concat (map (\<lambda>x. case x of OsSend f bs \<Rightarrow> [(f, bs)] | _ \<Rightarrow> []) (os_trace s))"

definition output_of :: "csocket \<Rightarrow> byte list list \<times> (int \<times> byte list) list" where
  "output_of s = (m_send_msgList s, emitted s)"

lemma emitted_simps [simp]:
  "emitted (os_request (OsSend f bs) s) = emitted s @ [(f, bs)]" "emitted (os_request (OsClose f) s) = emitted s"
  "emitted (os_request (EpollCtl o1 f e) s) = emitted s" "emitted (upd_conn a g s) = emitted s"
  "emitted (snd (epoll_oper_event ok f fl et bc a s)) = emitted s"
  by (simp_all add: emitted_def epoll_oper_event_def Let_def)

lemma emitted_fields [simp]:
  "emitted (s\<lparr>m_sendsem := x\<rparr>) = emitted s" "emitted (s\<lparr>m_msgtosend_count := y\<rparr>) = emitted s"
  "emitted (s\<lparr>m_send_msgList := z\<rparr>) = emitted s" "emitted (s\<lparr>m_sendmutex := b\<rparr>) = emitted s"
  by (simp_all add: emitted_def)

lemma output_list: "output_of s' = output_of s \<Longrightarrow> m_send_msgList s' = m_send_msgList s"
  by (simp add: output_of_def)

text \<open>A change that only takes connections out of service. Sequence numbers do not become smaller.\<close>

definition spares :: "csocket \<Rightarrow> csocket \<Rightarrow> bool" where
  "spares s s' \<longleftrightarrow> (\<forall>b \<in> serving s'. b \<in> serving s \<and> conns s' b = conns s b) \<and>
     m_connectionList s' = m_connectionList s \<and> output_of s' = output_of s \<and>
     (\<forall>b. unat (sequence (conns s b)) \<le> unat (sequence (conns s' b)))"

lemma spares_refl [simp]: "spares s s"
  by (simp add: spares_def)

lemma spares_trans: "spares s t \<Longrightarrow> spares t u \<Longrightarrow> spares s u"
  unfolding spares_def using order_trans by fastforce

lemma spares_leaves: "spares s s' \<Longrightarrow> leaves s s' \<and> m_send_msgList s' = m_send_msgList s"
  by (simp add: spares_def leaves_def output_of_def)

lemma spares_conns:
  "conns s' = conns s \<Longrightarrow> m_connectionList s' = m_connectionList s \<Longrightarrow> output_of s' = output_of s \<Longrightarrow>
   spares s s'"
  by (simp add: spares_def serving_def)

lemma closed_leaves:
  assumes "m_connectionList s' = m_connectionList s" "\<And>b. b \<noteq> a \<Longrightarrow> conns s' b = conns s b"
    and "fd (conns s' a) = -1"
  shows "leaves s s'"
  unfolding leaves_def
proof (intro conjI ballI)
  fix b
  assume "b \<in> serving s'"
  then show "b \<in> serving s" "recv_view (conns s' b) = recv_view (conns s b)"
    using assms by (cases "b = a"; simp add: serving_def)+
qed (rule assms(1))

lemma closed_spares:
  assumes "m_connectionList s' = m_connectionList s" "\<And>b. b \<noteq> a \<Longrightarrow> conns s' b = conns s b"
    and "fd (conns s' a) = -1" "output_of s' = output_of s"
    and "unat (sequence (conns s a)) \<le> unat (sequence (conns s' a))"
  shows "spares s s'"
proof -
  have "b \<in> serving s \<and> conns s' b = conns s b" if "b \<in> serving s'" for b
    using assms(1-3) that by (cases "b = a") (simp_all add: serving_def)
  moreover have "unat (sequence (conns s b)) \<le> unat (sequence (conns s' b))" for b
    using assms(2,5) by (cases "b = a") simp_all
  ultimately show ?thesis using assms(1,4) by (simp add: spares_def)
qed

text \<open>The part of a connection that says which bytes are to be sent next.\<close>

definition send_buf :: "connection \<Rightarrow> nat option \<times> byte list option \<times> nat" where
  "send_buf c = (p_sendbuf c, p_msgsend c, sendlen c)"

lemma close_accepted_cases:
  assumes "close_accepted_connection c1 c2 now a t s = Inr s'"
  obtains (kept) "s' = s" "fd (conns s a) = -1 \<or> \<not> t \<and> istimeout (conns s a)"
    | (closed) "m_connectionList s' = m_connectionList s" "\<And>b. b \<noteq> a \<Longrightarrow> conns s' b = conns s b"
      "fd (conns s' a) = -1" "sequence (conns s' a) = sequence (conns s a)" "send_buf (conns s' a) = send_buf (conns s a)"
  using assms by (auto simp: close_accepted_connection_cases InRecyConnQueue_def send_buf_def split: if_splits)

lemma InRecyConnQueue_output [simp]: "output_of (InRecyConnQueue now a s) = output_of s"
  by (simp add: output_of_def emitted_def InRecyConnQueue_def)

lemma output_fields [simp]:
  "output_of (os_request (OsClose f) s) = output_of s" "output_of (os_request (EpollCtl o1 f e) s) = output_of s"
  "output_of (upd_conn a g s) = output_of s" "output_of (snd (epoll_oper_event ok f fl et bc a s)) = output_of s"
  "output_of (s\<lparr>m_online_count := x\<rparr>) = output_of s"
  by (simp_all add: output_of_def) (simp_all add: emitted_def)

lemma close_accepted_output:
  "close_accepted_connection c1 c2 now a t s = Inr s' \<Longrightarrow> output_of s' = output_of s"
  by (auto simp: close_accepted_connection_cases split: if_splits)

lemma close_accepted_list:
  "close_accepted_connection c1 c2 now a t s = Inr s' \<Longrightarrow> m_send_msgList s' = m_send_msgList s"
  by (rule output_list [OF close_accepted_output])

lemma spares_close:
  assumes "close_accepted_connection c1 c2 now a t s = Inr s'"
  shows "spares s s'"
  using assms close_accepted_output [OF assms]
  by (cases rule: close_accepted_cases) (auto intro: closed_spares [where a = a])

lemma Delete_leaves:
  "conns (DeleteFromTimerQueue h s) = conns s" "m_connectionList (DeleteFromTimerQueue h s) = m_connectionList s"
  "output_of (DeleteFromTimerQueue h s) = output_of s"
  by (simp_all add: DeleteFromTimerQueue_def refresh_timer_value_def output_of_def emitted_def split: prod.splits)

lemma spares_TimeChecking:
  assumes "TimeCheckingProc c1 c2 now h t s = Inr s'"
  shows "spares s s'"
proof -
  let ?a = "lp_curconn h"
  let ?u = "DeleteFromTimerQueue h (upd_conn ?a (\<lambda>c. c\<lparr>istimeout := True\<rparr>) s)"
  from assms show ?thesis
  proof (cases rule: TimeCheckingProc_cases)
    case 1
    then show ?thesis by (auto simp: Delete_leaves intro: spares_conns)
  next
    case 3
    have "fd (conns s' ?a) = -1" "m_connectionList s' = m_connectionList s" "b \<noteq> ?a \<Longrightarrow> conns s' b = conns s b"
      "sequence (conns s' ?a) = sequence (conns s ?a)" for b
      using 3 by (auto elim!: close_accepted_cases simp: Delete_leaves)
    with close_accepted_output [OF 3] show ?thesis
      by (intro closed_spares [where a = ?a]) (simp_all add: Delete_leaves)
  qed simp
qed

lemma spares_exam_list: "exam_list c1 c2 now hs t s = Inr s' \<Longrightarrow> spares s s'"
proof (induction hs arbitrary: s)
  case (Cons h hs)
  from Cons.prems obtain s1 where "TimeCheckingProc c1 c2 now h t s = Inr s1" "exam_list c1 c2 now hs t s1 = Inr s'"
    by (auto simp: bindE_Inr_iff)
  from spares_trans [OF spares_TimeChecking [OF this(1)] Cons.IH [OF this(2)]] show ?case .
qed simp

lemma spares_timer_pass:
  assumes t: "timer_inv s" "m_waittime s > 0" and run: "timer_pass c1 c2 now s = Some (Inr s')"
  shows "spares s s'"
proof (cases "m_timer_value s > now \<or> m_timermap_size s = 0")
  case True
  with run show ?thesis by (simp add: timer_pass_def)
next
  case False
  let ?m = "rescheduled now (m_waittime s) (m_timermap s)"
  let ?u = "s\<lparr>m_timermap := ?m, m_timer_value := (if due now (m_timermap s) = [] then m_timer_value s else fst (hd ?m))\<rparr>"
  have "exam_list c1 c2 now (due now (m_timermap s)) now ?u = Inr s'"
    using run False collect_overtime_eq [OF t(2,1), of now] by (simp add: timer_pass_def)
  from spares_exam_list [OF this] have "spares ?u s'" .
  moreover have "spares s ?u" by (rule spares_conns) (simp_all add: output_of_def emitted_def)
  ultimately show ?thesis using spares_trans by blast
qed

lemma fold_recycle_output: "output_of (fold recycle_one xs s) = output_of s"
  by (induction xs arbitrary: s) (simp_all add: recycle_one_def free_connection_item_def output_of_def emitted_def)

lemma unat_Suc: "unat (x :: u64) + 1 < 2 ^ 64 \<Longrightarrow> unat (x + 1) = unat x + 1"
  using unat_add_lem [of x 1] by simp

lemma spares_recycle:
  assumes pool: "pool_inv s" and run: "RecyConnThread_body False False clock stop s = (lv, s')"
    and young: "\<forall>a \<in> set (m_connectionList s). unat (sequence (conns s a)) + 2 < 2 ^ 64"
  shows "spares s s'"
proof (cases "0 < m_recy_connection_count s")
  case False
  with run show ?thesis by (simp add: RecyConnThread_body_def)
next
  case True
  let ?due = "recy_due_list clock stop s"
  let ?f = "fold recycle_one ?due s"
  have s': "s' = ?f\<lparr>m_recy_connectionList := recy_kept_list clock stop s\<rparr>"
    using RecyConnThread_body_eq [OF pool True, of clock stop] run by simp
  have sub: "set ?due \<subseteq> set (m_recy_connectionList s)"
    by (auto simp: recy_due_list_def in_set_enumerate_eq)
  have d: "distinct ?due" using pool by (simp add: recy_due_list_def pool_inv_def distinct_map_filter)
  have c: "conns s' b = (if b \<in> set ?due then PutOneToFree (conns s b) else conns s b)" for b
    by (simp add: s' conns_fold_recycle [OF d])
  have out: "fd (conns s b) = -1 \<and> unat (sequence (conns s b)) + 1 < 2 ^ 64" if "b \<in> set ?due" for b
  proof -
    from that sub have b: "b \<in> set (m_recy_connectionList s)" by blast
    with pool have "b \<in> set (m_connectionList s)" by (auto simp: pool_inv_def)
    with young have "unat (sequence (conns s b)) + 2 < 2 ^ 64" by blast
    moreover from b pool have "fd (conns s b) = -1" by (simp add: pool_inv_def)
    ultimately show ?thesis by simp
  qed
  have "output_of s' = output_of ?f" by (simp add: s' output_of_def emitted_def)
  then have lists: "m_connectionList s' = m_connectionList s" "output_of s' = output_of s"
    by (simp_all add: s' fold_recycle_frame fold_recycle_output)
  have "b \<in> serving s \<and> conns s' b = conns s b" if "b \<in> serving s'" for b
    using that out [of b] c [of b] lists(1) by (cases "b \<in> set ?due") (simp_all add: serving_def PutOneToFree_def)
  moreover have "unat (sequence (conns s b)) \<le> unat (sequence (conns s' b))" for b
    using out [of b] c [of b] unat_Suc [of "sequence (conns s b)"]
    by (cases "b \<in> set ?due") (simp_all add: PutOneToFree_def)
  ultimately show ?thesis using lists by (simp add: spares_def)
qed

section \<open>Reading\<close>

lemma frames_valid: "p \<in> set (fst (frames bs)) \<Longrightarrow> valid_packet p"
proof (induction bs rule: frames_induct)
  case (cut bs)
  let ?n = "stream_pkg_size bs"
  from cut.prems cut.hyps consider "p = take ?n bs" | "p \<in> set (fst (frames (drop ?n bs)))"
    by (auto simp: frames_cut)
  then show ?case
  proof cases
    case 1
    have "PKG_HEADER_LEN \<le> length (take ?n bs)" using cut.hyps by (simp add: valid_size_def)
    from stream_pkg_size_append [OF this, of "drop ?n bs"] 1 cut.hyps show ?thesis
      by (simp add: valid_packet_def valid_size_def)
  qed (rule cut.IH)
qed (simp_all add: frames_short frames_skip frames_wait)

lemma serving_rest: "sock_rest s' = sock_rest s \<Longrightarrow> serving s' = serving s \<and> m_send_msgList s' = m_send_msgList s \<and>
   istimeout (conns s' b) = istimeout (conns s b)"
proof -
  assume e: "sock_rest s' = sock_rest s"
  from arg_cong [OF e, of conns] have c: "rest_of (conns s' a) = rest_of (conns s a)" for a
    by (simp add: sock_rest_def fun_eq_iff)
  from arg_cong [OF c, of fd] arg_cong [OF c, of rhandler] arg_cong [OF c, of istimeout]
  have "fd (conns s' a) = fd (conns s a)" "rhandler (conns s' a) = rhandler (conns s a)"
    "istimeout (conns s' a) = istimeout (conns s a)" for a
    by (simp_all add: rest_of_def)
  moreover from arg_cong [OF e, of m_connectionList] arg_cong [OF e, of m_send_msgList]
  have "m_connectionList s' = m_connectionList s" "m_send_msgList s' = m_send_msgList s"
    by (simp_all add: sock_rest_def)
  ultimately show ?thesis by (simp add: serving_def)
qed

lemma memory_inv_quiet_read:
  assumes inv: "memory_inv w" and a: "a \<in> serving (g_socket w)" and q: "quiet_ans (conns (g_socket w) a) r"
    and run: "readable_request env r a w = Inr w'"
  shows "memory_inv w'"
proof -
  let ?s = "g_socket w" and ?s' = "g_socket w'"
  have wf: "recv_wf a (conns ?s a)" using inv a by (simp add: memory_inv_def receiving_ok_def)
  from readable_request_consumes [OF wf q, of env] run
  have c: "consumes a (pending (conns ?s a) @ ra_data r) w w'" by auto
  from readable_reads_only [OF quiet_harmless [OF q] run] have rest: "sock_rest ?s' = sock_rest ?s"
    "pool_rest (g_threadpool w') = pool_rest (g_threadpool w)" by (simp_all add: reads_only_def)
  note r = serving_rest [OF rest(1)]
  have recv: "receiving_ok ?s'"
    unfolding receiving_ok_def
  proof
    fix b
    assume "b \<in> serving ?s'"
    then have "recv_wf b (conns ?s b) \<and> \<not> istimeout (conns ?s b)"
      using inv r by (simp add: memory_inv_def receiving_ok_def)
    with c r [of b] show "recv_wf b (conns ?s' b) \<and> \<not> istimeout (conns ?s' b)"
      by (cases "b = a") (simp_all add: consumes_def Let_def)
  qed
  have "m_threadvec (g_threadpool w') = m_threadvec (g_threadpool w)"
    using arg_cong [OF rest(2), of m_threadvec] by (simp add: pool_rest_def)
  moreover have list: "m_connectionList ?s' = m_connectionList ?s"
    using arg_cong [OF rest(1), of m_connectionList] by (simp add: sock_rest_def)
  moreover have "a \<in> set (m_connectionList ?s)" using a by (simp add: serving_def)
  then have "is_request (set (m_connectionList ?s)) (message_of a sq p)" if "p \<in> set (fst (frames bs))" for sq p bs
    using frames_valid [OF that] by (auto simp: is_request_def)
  ultimately have "requests_ok (set (m_connectionList ?s')) (g_threadpool w')"
    using inv c by (auto simp: memory_inv_def requests_ok_def consumes_def Let_def)
  moreover have "replies_ok ?s'" using inv r by (simp add: memory_inv_def replies_ok_def)
  ultimately show ?thesis using recv by (simp add: memory_inv_def)
qed

lemma header_event_no_data:
  assumes "header_event env r a v = Inr w'"
    and "curstat (conns (g_socket v) a) = PKG_HD_INIT \<or> curstat (conns (g_socket v) a) = PKG_HD_RECVING"
    and "\<And>n s'. recvproc env r a (g_socket v) = Inr (n, s') \<Longrightarrow> n = -1"
  shows "\<exists>s'. recvproc env r a (g_socket v) = Inr (-1, s') \<and> w' = v\<lparr>g_socket := s'\<rparr>"
proof -
  from assms(1,2) obtain n s1 where n: "recvproc env r a (g_socket v) = Inr (n, s1)"
    by (auto simp: header_event_def pkg_header_recv_def bindE_Inr_iff split: if_splits)
  from assms(3) [OF n] n assms(1,2) show ?thesis by (auto simp: header_event_def pkg_header_recv_def Let_def)
qed

lemma body_event_no_data:
  assumes "body_event env r a v = Inr w'" "recvlen (conns (g_socket v) a) \<noteq> 0"
    and "curstat (conns (g_socket v) a) = PKG_BD_INIT \<or> curstat (conns (g_socket v) a) = PKG_BD_RECVING"
    and "\<And>n s'. recvproc env r a (g_socket v) = Inr (n, s') \<Longrightarrow> n = -1"
  shows "\<exists>s'. recvproc env r a (g_socket v) = Inr (-1, s') \<and> w' = v\<lparr>g_socket := upd_conn a drop_message s'\<rparr>"
proof -
  from assms(1-3) obtain n s1 where n: "recvproc env r a (g_socket v) = Inr (n, s1)"
    by (auto simp: body_event_def pkg_body_recv_def bindE_Inr_iff Let_def split: if_splits)
  from assms(4) [OF n] n assms(1-3) show ?thesis by (auto simp: body_event_def pkg_body_recv_def Let_def)
qed

text \<open>A read without data that is not repeated: nothing happens, or the connection is closed.\<close>

lemma readable_not_quiet:
  assumes wf: "recv_wf a (conns (g_socket w) a)" "\<not> istimeout (conns (g_socket w) a)"
    and ok: "recv_ok (recv_want (conns (g_socket w) a)) r" "\<not> quiet_ans (conns (g_socket w) a) r"
    and run: "readable_request env r a w = Inr w'"
  obtains (stay) s where "w' = w\<lparr>g_socket := s\<rparr>" "curstat (conns (g_socket w) a) = PKG_HD_INIT"
      "s = upd_conn a (\<lambda>c. c\<lparr>p_headerinfo := HdrLive (AllocMemory PKG_HEADER_LEN),
            p_recvbuf := InHeader 0, recvlen := PKG_HEADER_LEN\<rparr>) (g_socket w)"
    | (same) "w' = w"
    | (body) "ra_data r = []" "ra_errno r = EAGAIN" "\<not> curstat (conns (g_socket w) a) = PKG_HD_INIT"
      "\<not> curstat (conns (g_socket w) a) = PKG_HD_RECVING"
    | (closed) s where "w' = w\<lparr>g_socket := s\<rparr>" "spares (g_socket w) s"
      "send_buf (conns s a) = send_buf (conns (g_socket w) a)" "fd (conns s a) = -1"
proof -
  let ?s = "g_socket w" and ?c = "conns (g_socket w) a"
  let ?start = "upd_conn a (\<lambda>c. c\<lparr>p_headerinfo := HdrLive (AllocMemory PKG_HEADER_LEN),
            p_recvbuf := InHeader 0, recvlen := PKG_HEADER_LEN\<rparr>) ?s"
  note nd = not_quiet_no_data [OF ok]
  have rp: "n = -1 \<and> (ra_errno r = EAGAIN \<and> s' = s \<or>
      m_connectionList s' = m_connectionList s \<and> (\<forall>b. b \<noteq> a \<longrightarrow> conns s' b = conns s b) \<and> fd (conns s' a) = -1 \<and>
      output_of s' = output_of s \<and> sequence (conns s' a) = sequence (conns s a) \<and>
      send_buf (conns s' a) = send_buf (conns s a))"
    if t: "\<not> istimeout (conns s a)" and n: "recvproc env r a s = Inr (n, s')" for s n s'
    using nd
  proof (cases rule: recvproc_no_data [where s = s and a = a and env = env])
    case stay
    with n show ?thesis by simp
  next
    case close
    with n have c: "close_accepted_connection (env_ctl_ok env) (env_close_ok env) (env_now env) a False s = Inr s'"
      and "n = -1" by (auto simp: bindE_Inr_iff)
    from c t close_accepted_output [OF c] \<open>n = -1\<close> show ?thesis by (auto elim!: close_accepted_cases)
  qed
  consider (init) "curstat ?c = PKG_HD_INIT" | (hdr) "curstat ?c = PKG_HD_RECVING"
    | (bdy) "curstat ?c = PKG_BD_INIT \<or> curstat ?c = PKG_BD_RECVING"
    using wf_states [OF wf(1)] by blast
  then show thesis
  proof cases
    case init
    have t: "\<not> istimeout (conns ?start a)" using wf(2) by simp
    have "header_event env r a (w\<lparr>g_socket := ?start\<rparr>) = Inr w'"
      using run init by (simp add: readable_request_def)
    from header_event_no_data [OF this] rp [OF t] init obtain s1
      where "recvproc env r a ?start = Inr (-1, s1)" and w': "w' = w\<lparr>g_socket := s1\<rparr>" by auto
    from rp [OF t this(1)] show ?thesis
      using stay [OF w' init] closed [OF w' closed_spares [where a = a]] by (auto simp: send_buf_def)
  next
    case hdr
    then have "recvlen ?c \<noteq> 0" using recv_want_pos [OF wf(1)] by (simp add: recv_want_def)
    with run hdr have "header_event env r a w = Inr w'" by (simp add: readable_request_def)
    from header_event_no_data [OF this] rp [OF wf(2)] hdr obtain s1
      where "recvproc env r a ?s = Inr (-1, s1)" and w': "w' = w\<lparr>g_socket := s1\<rparr>" by auto
    from rp [OF wf(2) this(1)] show ?thesis
      using same w' closed [OF w' closed_spares [where a = a]] by (auto simp: send_buf_def)
  next
    case bdy
    have len: "recvlen ?c \<noteq> 0" using recv_want_pos [OF wf(1)] bdy by (auto simp: recv_want_def)
    from run bdy have "body_event env r a w = Inr w'" by (auto simp: readable_request_def)
    from body_event_no_data [OF this len bdy] rp [OF wf(2)] obtain s1
      where "recvproc env r a ?s = Inr (-1, s1)" and w': "w' = w\<lparr>g_socket := upd_conn a drop_message s1\<rparr>" by auto
    from rp [OF wf(2) this(1)] show ?thesis
      using body nd(1) bdy closed [OF w' closed_spares [where a = a]] by (auto simp: drop_message_def send_buf_def)
  qed
qed

lemma memory_inv_read:
  assumes inv: "memory_inv w" and a: "a \<in> set (m_connectionList (g_socket w))"
    "rhandler (conns (g_socket w) a) = event_readable_request_handler"
    and ord: "orderly_read env ev a w" "ev AND EPOLLIN \<noteq> 0"
    and run: "readable_request (ee_os env) (ee_recv env) a w = Inr w'"
  shows "memory_inv w'"
proof -
  let ?s = "g_socket w" and ?c = "conns (g_socket w) a"
  from ord a(2) have o: "fd ?c \<noteq> -1" "recv_ok (recv_want ?c) (ee_recv env)"
    "ra_data (ee_recv env) = [] \<Longrightarrow> ra_errno (ee_recv env) = EAGAIN \<Longrightarrow> curstat ?c = PKG_HD_INIT \<or> curstat ?c = PKG_HD_RECVING"
    by (auto simp: orderly_read_def Let_def)
  with a have serv: "a \<in> serving ?s" by (simp add: serving_def)
  then have wf: "recv_wf a ?c" "\<not> istimeout ?c" using inv by (simp_all add: memory_inv_def receiving_ok_def)
  show ?thesis
  proof (cases "quiet_ans ?c (ee_recv env)")
    case True
    from memory_inv_quiet_read [OF inv serv True run] show ?thesis .
  next
    case False
    from wf o(2) False run show ?thesis
    proof (cases rule: readable_not_quiet)
      case (stay s)
      have "serving s = serving ?s" by (auto simp: stay(3) serving_def split: if_splits)
      moreover have "recv_wf b (conns s b) \<and> \<not> istimeout (conns s b)" if "b \<in> serving ?s" for b
      proof (cases "b = a")
        case True
        with stay(2) wf(2) show ?thesis by (simp add: stay(3) recv_wf_def)
      next
        case False
        with inv that show ?thesis by (simp add: stay(3) memory_inv_def receiving_ok_def)
      qed
      moreover have "m_send_msgList s = m_send_msgList ?s" "m_connectionList s = m_connectionList ?s"
        by (simp_all add: stay(3))
      ultimately show ?thesis using inv by (simp add: stay(1) memory_inv_def receiving_ok_def replies_ok_def)
    next
      case same
      with inv show ?thesis by simp
    next
      case body
      with o(3) show ?thesis by blast
    next
      case (closed s)
      from spares_leaves [OF closed(2)] inv show ?thesis
        by (auto simp: closed(1) memory_inv_def replies_ok_def intro: receiving_ok_leaves dest: leaves_list)
    qed
  qed
qed

section \<open>Accepting\<close>

lemma receiving_ok_accept:
  assumes ok: "receiving_ok s" and pool: "pool_inv s"
    and new: "fst (ae_new env) \<notin> set (m_connectionList s)" "fst (ae_new env) \<noteq> 0"
    and run: "accept_connection env acc4 li connfd peer s = Inr s'"
  shows "receiving_ok s' \<and> m_send_msgList s' = m_send_msgList s \<and>
    set (m_connectionList s) \<subseteq> set (m_connectionList s')"
proof -
  define a where "a = fst (get_connection_item (ae_new env) s)"
  define s1 where "s1 = admitted env li connfd peer s"
  note eff = admitted_effect [where connfd = connfd and li = li and peer = peer, OF pool new a_def, folded s1_def]
  have list: "m_send_msgList s1 = m_send_msgList s"
    by (simp add: s1_def admitted_def get_connection_item_def case_prod_unfold split: list.splits)
  have c: "curstat (conns s1 a) = PKG_HD_INIT" "\<not> istimeout (conns s1 a)"
    by (simp_all add: s1_def a_def admitted_def epoll_oper_event_def GetOneToUse_def PutToStateMach_def
        case_prod_unfold Let_def)
  have ok1: "receiving_ok s1"
    unfolding receiving_ok_def
  proof
    fix b
    assume b: "b \<in> serving s1"
    show "recv_wf b (conns s1 b) \<and> \<not> istimeout (conns s1 b)"
    proof (cases "b = a")
      case True
      with c show ?thesis by (simp add: recv_wf_def)
    next
      case False
      with b eff(9) eff(12) [of b] have "b \<in> serving s" by (simp add: serving_def)
      with ok eff(12) [OF False] show ?thesis by (simp add: receiving_ok_def)
    qed
  qed
  from run a_def show ?thesis
  proof (cases rule: accept_connection_cases)
    case full
    have "leaves s s'" unfolding full by (rule leaves_conns) simp_all
    with receiving_ok_leaves [OF ok] show ?thesis by (simp add: full)
  next
    case refused
    then have s': "s' = free_connection_item a (upd_conn a (\<lambda>c. c\<lparr>fd := -1, sequence := sequence c + 1\<rparr>)
        (os_request (OsClose (fd (conns s1 a))) s1))"
      by (simp add: close_connection_cases s1_def split: if_splits)
    have "leaves s1 s'" by (rule closed_leaves [where a = a]) (simp_all add: s' free_connection_item_def)
    with receiving_ok_leaves [OF ok1] list eff(8) show ?thesis by (simp add: s' free_connection_item_def)
  next
    case admitted
    have "leaves s1 s'" "m_send_msgList s' = m_send_msgList s1"
      unfolding admitted(4) by (auto simp: s1_def [symmetric] Let_def AddToTimerQueue_def send_side_def recv_view_def
          intro!: leaves_conns)
    with receiving_ok_leaves [OF ok1] list eff(8) leaves_list show ?thesis by simp
  qed
qed

lemma memory_inv_accept:
  assumes inv: "memory_inv w" "pool_inv (g_socket w)" "env_ok env w"
    and run: "run_event_handler env event_accept_handler a w = Inr w'"
  shows "memory_inv w'"
proof -
  from run obtain u s' where acc: "event_accept (ee_accept env) (ee_accepts env) (use_accept4 w) a (g_socket w)
      = Inr (u, s')" and w': "w' = w\<lparr>g_socket := s', use_accept4 := u\<rparr>"
    by (auto simp: run_event_handler_def bindE_Inr_iff)
  have "receiving_ok s' \<and> m_send_msgList s' = m_send_msgList s \<and> set (m_connectionList s) \<subseteq> set (m_connectionList s')"
    if "event_accept e ans acc4 a s = Inr (u, s')" "receiving_ok s" "pool_inv s"
      "fst (ae_new e) \<notin> set (m_connectionList s)" "fst (ae_new e) \<noteq> 0" for e ans acc4 s
    using that by (induction e ans acc4 a s rule: event_accept.induct)
      (auto simp: bindE_Inr_iff split: if_splits dest: receiving_ok_accept)
  from this [OF acc] inv show ?thesis
    by (auto simp: w' memory_inv_def env_ok_def replies_ok_def intro: requests_ok_more)
qed

section \<open>The background\<close>

lemma send_scan_kept:
  "send_scan ctl_ok ans ms s = Inr (e, kept, ans', s') \<Longrightarrow> set kept \<subseteq> set ms"
proof (induction ms arbitrary: ans s kept)
  case Nil
  then show ?case by simp
next
  case (Cons m ms)
  from Cons.prems refl show ?case
  proof (cases rule: send_scan_step)
    case outdated
    from Cons.IH [OF outdated(2)] show ?thesis by auto
  next
    case (busy kept')
    from Cons.IH [OF busy(4)] busy(3) show ?thesis by auto
  next
    case (send r ans1 s0 s1)
    from send(5) Cons.IH show ?thesis by fastforce
  qed
qed

lemma replies_ok_round:
  assumes "SendMsgThread_round stop ctl_ok ans t s = Inr (lv, t', ans', s')" "replies_ok s"
  shows "replies_ok s'"
proof (cases "stop \<or> ifshutdown t \<or> \<not> m_msgtosend_count s > 0")
  case True
  with assms have "s' = s\<lparr>m_sendsem := m_sendsem s - 1\<rparr>"
    by (auto simp: SendMsgThread_round_eq Let_def split: if_splits)
  with assms(2) show ?thesis by (simp add: replies_ok_def)
next
  case False
  from SendMsgThread_round_visit [OF assms(1) False] obtain e kept s1 where
    "send_scan ctl_ok ans (m_send_msgList s) (s\<lparr>m_sendsem := m_sendsem s - 1\<rparr>) = Inr (e, kept, ans', s1)"
    and s': "s' = s1\<lparr>m_send_msgList := kept, m_sendmutex := (if e = ScanReturn then True else m_sendmutex s1)\<rparr>"
    by metis
  from send_scan_kept [OF this(1)] assms(2) show ?thesis by (auto simp: s' replies_ok_def)
qed

lemma replies_ok_process:
  assumes "is_request L m" "ThreadRecvProc now m s = Inr (r, s')" "replies_ok s"
  shows "replies_ok s'"
proof -
  from assms(1) obtain a sq p where m: "m = message_of a sq p" "valid_packet p" by (auto simp: is_request_def)
  from assms(2) consider "s' = s" | h where
    "MsgSendInQueue (message_of a sq (reply_packet h)) (upd_conn a (serve now h) s) = Inr s'"
    by (auto simp: m(1) ThreadRecvProc_eq [OF m(2)] bindE_Inr_iff split: if_splits option.splits)
  then show ?thesis
  proof cases
    case 2
    with assms(3) reply_wf_msg show ?thesis
      by (auto simp: MsgSendInQueue_eq Let_def replies_ok_def split: if_splits)
  qed (use assms(3) in simp)
qed

lemma set_update_cases: "x \<in> set (xs[i := y]) \<Longrightarrow> x = y \<or> x \<in> set xs"
  using set_update_subset_insert by fast

lemma requests_ok_take:
  assumes ok: "requests_ok L p" and i: "i < length (m_threadvec p)"
    and nxt: "next_of (ThreadFunc_take (m_threadvec p ! i) p) = (t, p')"
  shows "requests_ok L (set_thread i t p')"
proof -
  have held: "\<forall>m. msg_held (m_threadvec p ! i) = Some m \<longrightarrow> is_request L m"
    using ok nth_mem [OF i] by (simp add: requests_ok_def)
  have "m_threadvec p' = m_threadvec p" "set (m_msgqueue p') \<subseteq> set (m_msgqueue p)"
    "msg_held t = msg_held (m_threadvec p ! i) \<or> msg_held t \<in> set (m_msgqueue p)"
    using nxt by (auto simp: ThreadFunc_take_eq get_msg_item_def Let_def split: if_splits list.splits)
  with ok held show ?thesis
    by (auto simp: requests_ok_def set_thread_def dest!: set_update_cases)
qed

lemma requests_ok_finish:
  "requests_ok L p \<Longrightarrow> ThreadFunc_finish t p = (t', p') \<Longrightarrow> requests_ok L (set_thread i t' p')"
  by (auto simp: requests_ok_def set_thread_def ThreadFunc_finish_eq dest!: set_update_cases)

lemma memory_inv_background:
  assumes inv: "memory_inv w" "sock_inv (g_socket w)" "young w" and step: "background_step w w'"
  shows "memory_inv w'"
  using step
proof cases
  case (timer ctl_ok t s')
  have "timer_inv (g_socket w)" using inv(2) by (simp add: sock_inv_def)
  from spares_leaves [OF spares_timer_pass [OF this timer(3,2)]] inv(1) show ?thesis
    by (auto simp: timer(1) memory_inv_def replies_ok_def intro: receiving_ok_leaves dest: leaves_list)
next
  case (recycle clock stop s')
  have "pool_inv (g_socket w)" using inv(2) by (simp add: sock_inv_def)
  from spares_leaves [OF spares_recycle [OF this recycle(2) inv(3) [unfolded young_def]]] inv(1) show ?thesis
    by (auto simp: recycle(1) memory_inv_def replies_ok_def intro: receiving_ok_leaves dest: leaves_list)
next
  case (send ctl_ok ans t s' lv t' ans')
  from leaving.send_round [OF send(2) leaves_refl] replies_ok_round [OF send(2)] inv(1) show ?thesis
    by (auto simp: send(1) memory_inv_def intro: receiving_ok_leaves dest: leaves_list)
next
  case (take_msg i t p)
  with requests_ok_take [OF _ take_msg(2,3)] inv(1) show ?thesis by (simp add: memory_inv_def)
next
  case (process i now)
  show ?thesis
  proof (cases "msg_held (m_threadvec (g_threadpool w) ! i)")
    case None
    with process(2) inv(1) show ?thesis by (simp add: ThreadFunc_process_def)
  next
    case (Some m)
    with process(1) inv(1) have m: "is_request (set (m_connectionList (g_socket w))) m" by (auto simp: memory_inv_def requests_ok_def)
    obtain t p where f: "ThreadFunc_finish (m_threadvec (g_threadpool w) ! i) (g_threadpool w) = (t, p)"
      by fastforce
    from process(2) Some f obtain r s where s: "ThreadRecvProc now m (g_socket w) = Inr (r, s)"
      and w': "w' = w\<lparr>g_socket := s, g_threadpool := set_thread i t p\<rparr>"
      by (auto simp: ThreadFunc_process_def bindE_Inr_iff)
    from leaving.ThreadRecvProc [OF s leaves_refl] replies_ok_process [OF m s] requests_ok_finish [OF _ f] inv(1)
    show ?thesis by (auto simp: w' memory_inv_def intro: receiving_ok_leaves dest: leaves_list)
  qed
qed

section \<open>Every step keeps the data well-formed\<close>

lemma writable_list:
  assumes "writable_request ctl_ok ans a s = Inr (ans', s')"
  shows "m_send_msgList s' = m_send_msgList s"
proof -
  from assms obtain r s1 ans1 where sp: "sendproc ans a s = Inr (r, ans1, s1)"
    by (auto simp: writable_request_def Let_def bindE_Inr_iff)
  then have "m_send_msgList s1 = m_send_msgList s" using sendproc_cases by fastforce
  with assms sp show ?thesis by (auto simp: writable_request_def Let_def split: if_splits)
qed

lemma memory_inv_writable:
  assumes "memory_inv w"
    and "bindE (writable_request ctl_ok ans a (g_socket w)) (\<lambda>(_, s). Inr (w\<lparr>g_socket := s\<rparr>)) = Inr w'"
  shows "memory_inv w'"
proof -
  from assms(2) obtain ans' s where s: "writable_request ctl_ok ans a (g_socket w) = Inr (ans', s)"
    and w': "w' = w\<lparr>g_socket := s\<rparr>" by (auto simp: bindE_Inr_iff)
  from leaving.writable_request [OF s leaves_refl] writable_list [OF s] assms(1) show ?thesis
    by (auto simp: w' memory_inv_def replies_ok_def intro: receiving_ok_leaves dest: leaves_list)
qed

lemma memory_inv_hangup:
  assumes "memory_inv w"
    and "bindE (close_accepted_connection c1 c2 now a False
        (upd_conn a (\<lambda>c. c\<lparr>iThrowsendCount := iThrowsendCount c - 1\<rparr>) (g_socket w)))
      (\<lambda>s. Inr (w\<lparr>g_socket := s\<rparr>)) = Inr w'"
  shows "memory_inv w'"
proof -
  let ?s = "upd_conn a (\<lambda>c. c\<lparr>iThrowsendCount := iThrowsendCount c - 1\<rparr>) (g_socket w)"
  from assms(2) obtain s where s: "close_accepted_connection c1 c2 now a False ?s = Inr s"
    and w': "w' = w\<lparr>g_socket := s\<rparr>" by (auto simp: bindE_Inr_iff)
  have "leaves (g_socket w) ?s" by (rule leaves_conns) (simp_all add: conns_upd)
  from leaves_trans [OF this spares_leaves [OF spares_close [OF s], THEN conjunct1]] close_accepted_list [OF s] assms(1) show ?thesis
    by (auto simp: w' memory_inv_def replies_ok_def intro: receiving_ok_leaves dest: leaves_list)
qed

lemma memory_inv_handler:
  assumes inv: "memory_inv w" "pool_inv (g_socket w)" "env_ok env w"
    and a: "a \<in> set (m_connectionList (g_socket w))"
    and ord: "orderly_read env ev a w" "ev AND EPOLLIN \<noteq> 0"
    and run: "run_event_handler env (rhandler (conns (g_socket w) a)) a w = Inr w'"
  shows "memory_inv w'"
proof (cases "rhandler (conns (g_socket w) a)")
  case event_accept_handler
  from memory_inv_accept [OF inv run [unfolded this]] show ?thesis .
next
  case event_readable_request_handler
  with memory_inv_read [OF inv(1) a _ ord] run show ?thesis by (simp add: run_event_handler_def)
next
  case event_writable_request_handler
  with run memory_inv_writable [OF inv(1)] show ?thesis by (simp add: run_event_handler_def)
qed

lemma memory_inv_event:
  assumes inv: "memory_inv w" "pool_inv (g_socket w)" "env_ok env w"
    and a: "a \<in> set (m_connectionList (g_socket w))" and ord: "orderly_read env ev a w"
    and out: "ev AND EPOLLOUT = 0 \<or> rhandler (conns (g_socket w) a) = event_readable_request_handler \<and>
      whandler (conns (g_socket w) a) = event_writable_request_handler"
    and run: "process_event env ev a w = Inr w'"
  shows "memory_inv w'"
proof (cases "a = 0")
  case True
  with run inv show ?thesis by (simp add: process_event_def)
next
  case False
  with run obtain w1 where w1: "(if ev AND EPOLLIN \<noteq> 0
      then run_event_handler env (rhandler (conns (g_socket w) a)) a w else Inr w) = Inr w1"
    by (auto simp: process_event_def bindE_Inr_iff)
  have inv1: "memory_inv w1"
    using w1 memory_inv_handler [OF inv a ord, of w1] inv(1) by (cases "ev AND EPOLLIN = 0") simp_all
  show ?thesis
  proof (cases "ev AND EPOLLOUT = 0")
    case True
    with False run w1 inv1 show ?thesis by (auto simp: process_event_def)
  next
    case nout: False
    with out have h: "rhandler (conns (g_socket w) a) = event_readable_request_handler"
      "whandler (conns (g_socket w) a) = event_writable_request_handler" by simp_all
    have "keeps (g_socket w) (g_socket w1)"
      using w1 keeps_run_event_handler [of env "rhandler (conns (g_socket w) a)" a w w1] a h(1)
      by (cases "ev AND EPOLLIN = 0") (auto simp: keeps_refl accepted_def)
    then have h1: "whandler (conns (g_socket w1) a) = event_writable_request_handler"
      using h(2) by (simp add: keeps_def)
    note run1 = run [unfolded process_event_def if_not_P [OF False] w1 bindE_simps if_P [OF nout] h1]
    show ?thesis
    proof (rule if_E [OF run1])
      assume "bindE (close_accepted_connection (env_ctl_ok (ee_os env)) (env_close_ok (ee_os env))
          (env_now (ee_os env)) a False
          (upd_conn a (\<lambda>c. c\<lparr>iThrowsendCount := iThrowsendCount c - 1\<rparr>) (g_socket w1)))
        (\<lambda>s. Inr (w1\<lparr>g_socket := s\<rparr>)) = Inr w'"
      then show ?thesis by (rule memory_inv_hangup [OF inv1])
    next
      assume "run_event_handler env event_writable_request_handler a w1 = Inr w'"
      with memory_inv_writable [OF inv1] show ?thesis by (simp add: run_event_handler_def)
    qed
  qed
qed

lemma create_threads_fresh:
  "create_threads ok i n p = Inr p' \<Longrightarrow> \<exists>k. p' = p\<lparr>m_threadvec := m_threadvec p @ replicate k ThreadItem_new\<rparr>"
proof (induction n arbitrary: i p)
  case 0
  then show ?case by (auto intro: exI [of _ 0])
next
  case (Suc n)
  then obtain k where "p' = p\<lparr>m_threadvec := (m_threadvec p @ [ThreadItem_new]) @ replicate k ThreadItem_new\<rparr>"
    by (fastforce simp: bindE_Inr_iff)
  then show ?case by (intro exI [of _ "Suc k"]) simp
qed

lemma memory_inv_init:
  assumes "worker_init w"
  shows "memory_inv w"
proof -
  note idle = worker_init_idle [OF assms]
  from idle(3) obtain p ok where p: "m_msgqueue p = []" "m_threadvec p = []" "Create ok p = Inr (g_threadpool w)"
    by blast
  from create_threads_fresh [OF p(3) [unfolded Create_def]] obtain k where
    "g_threadpool w = p\<lparr>m_threadvec := replicate k ThreadItem_new\<rparr>" using p(2) by auto
  then have "requests_ok (set (m_connectionList (g_socket w))) (g_threadpool w)" using p(1) by (simp add: requests_ok_def ThreadItem_new_def)
  with idle(2) show ?thesis by (simp add: memory_inv_def no_clients_def receiving_ok_def replies_ok_def)
qed

interpretation safe: invariant_of worker_init orderly_step
  "\<lambda>w. memory_inv w \<and> sock_inv (g_socket w) \<and> online_inv (g_socket w)"
proof
  fix w w'
  assume inv: "memory_inv w \<and> sock_inv (g_socket w) \<and> online_inv (g_socket w)" and step: "orderly_step w w'"
  from worker_step_inv [OF orderly_worker_step [OF step]] inv
  have "sock_inv (g_socket w') \<and> online_inv (g_socket w')" by blast
  moreover from step have "memory_inv w'"
  proof cases
    case (event env ev a)
    have out: "ev AND EPOLLOUT = 0 \<or> rhandler (conns (g_socket w) a) = event_readable_request_handler \<and>
      whandler (conns (g_socket w) a) = event_writable_request_handler"
      using event(5) by (auto simp: orderly_write_def Let_def)
    from inv have "memory_inv w" "pool_inv (g_socket w)" by (simp_all add: sock_inv_def)
    from memory_inv_event [OF this event(3,2,4) out event(1)] show ?thesis .
  next
    case background
    with inv memory_inv_background show ?thesis by blast
  qed
  ultimately show "memory_inv w' \<and> sock_inv (g_socket w') \<and> online_inv (g_socket w')" by blast
qed (auto dest: worker_init_inv memory_inv_init)

end
