(* ===== verification/Traces.thy ===== *)
theory Traces
  imports Safe "HOL-Library.Multiset"
begin

text \<open>
  The steps of a worker with what they show to an observer: requests that arrive, work on them that starts and
  ends, bytes handed to the operating system. The events of a step are read off the states before and
  after it. An example run follows a ping from its arrival to the first bytes of the answer.
\<close>

section \<open>Events\<close>

text \<open>A request arrives, work on it starts and is finished with some replies, bytes are sent.\<close>

datatype service_event = Arrive "byte list" | Start "byte list" | Finish "byte list" "byte list list" | Emit int "byte list"

section \<open>Runs of a worker\<close>

text \<open>The requests that wait in the pool, those its threads hold, and what a step has added at the end of a list.\<close>

definition queued :: "threadpool \<Rightarrow> byte list list" where
  "queued p = map the (m_msgqueue p)"

definition holding :: "pool_thread \<Rightarrow> byte list list" where
  "holding t = (case msg_held t of None \<Rightarrow> [] | Some m \<Rightarrow> [m])"

definition held :: "threadpool \<Rightarrow> byte list multiset" where
  "held p = mset (concat (map holding (m_threadvec p)))"

definition added :: "'a list \<Rightarrow> 'a list \<Rightarrow> 'a list" where
  "added xs ys = drop (length xs) ys"

lemma added_append [simp]: "added xs (xs @ ys) = ys" "added xs xs = []"
  by (simp_all add: added_def)

definition sendings :: "world \<Rightarrow> world \<Rightarrow> service_event list" where
  "sendings w w' = map (\<lambda>(f, bs). Emit f bs) (added (emitted (g_socket w)) (emitted (g_socket w')))"

text \<open>The steps of \<open>orderly_step\<close> with what they show. A thread takes a message only when it holds none, and
  processes the one it holds.\<close>

inductive traced_step :: "world \<Rightarrow> service_event list \<Rightarrow> world \<Rightarrow> bool" where
  event: "process_event env ev a w = Inr w' \<Longrightarrow> a \<in> set (m_connectionList (g_socket w)) \<Longrightarrow> env_ok env w \<Longrightarrow>
    rhandler (conns (g_socket w) a) \<noteq> event_writable_request_handler \<Longrightarrow>
    orderly_read env ev a w \<Longrightarrow> orderly_write ev a w \<Longrightarrow> young w \<Longrightarrow>
    traced_step w (map Arrive (added (queued (g_threadpool w)) (queued (g_threadpool w'))) @ sendings w w') w'"
| timer: "timer_pass ctl_ok True t (g_socket w) = Some (Inr s') \<Longrightarrow> m_waittime (g_socket w) > 0 \<Longrightarrow> young w \<Longrightarrow>
    w' = w\<lparr>g_socket := s'\<rparr> \<Longrightarrow> traced_step w (sendings w w') w'"
| recycle: "RecyConnThread_body False False clock stop (g_socket w) = (False, s') \<Longrightarrow> young w \<Longrightarrow>
    w' = w\<lparr>g_socket := s'\<rparr> \<Longrightarrow> traced_step w (sendings w w') w'"
| send: "SendMsgThread_round False ctl_ok ans t (g_socket w) = Inr (leave, t', ans', s') \<Longrightarrow> young w \<Longrightarrow>
    w' = w\<lparr>g_socket := s'\<rparr> \<Longrightarrow> traced_step w (sendings w w') w'"
| take_msg: "i < length (m_threadvec (g_threadpool w)) \<Longrightarrow> msg_held (m_threadvec (g_threadpool w) ! i) = None \<Longrightarrow>
    next_of (ThreadFunc_take (m_threadvec (g_threadpool w) ! i) (g_threadpool w)) = (t, p) \<Longrightarrow> young w \<Longrightarrow>
    traced_step w (map Start (holding t)) (w\<lparr>g_threadpool := set_thread i t p\<rparr>)"
| process: "i < length (m_threadvec (g_threadpool w)) \<Longrightarrow> msg_held (m_threadvec (g_threadpool w) ! i) = Some m \<Longrightarrow>
    ThreadFunc_process now i w = Inr w' \<Longrightarrow> young w \<Longrightarrow>
    traced_step w [Finish m (added (m_send_msgList (g_socket w)) (m_send_msgList (g_socket w')))] w'"

inductive worker_trace :: "service_event list \<Rightarrow> world \<Rightarrow> bool" where
  start: "worker_init w \<Longrightarrow> worker_trace [] w"
| step: "worker_trace es w \<Longrightarrow> traced_step w fs w' \<Longrightarrow> worker_trace (es @ fs) w'"

lemma traced_orderly: "traced_step w fs w' \<Longrightarrow> orderly_step w w'"
  by (induction rule: traced_step.induct) (auto intro: orderly_step.intros background_step.intros)

lemma trace_reach: "worker_trace es w \<Longrightarrow> reach worker_init orderly_step w"
  by (induction rule: worker_trace.induct) (auto intro: reach_init reach_step traced_orderly)

section \<open>An example\<close>

lemma client_trace: "worker_trace [] client_example"
proof -
  have "\<not> isl (process_event client_event EPOLLIN 1 start_example)" by code_simp
  then have ev: "process_event client_event EPOLLIN 1 start_example = Inr client_example"
    by (cases "process_event client_event EPOLLIN 1 start_example") (simp_all add: client_example_def)
  have mem: "1 \<in> set (m_connectionList (g_socket start_example))" by code_simp
  have state: "m_connectionList (g_socket start_example) = [1, 2]" "m_timermap (g_socket start_example) = []"
    "rhandler (conns (g_socket start_example) 1) = event_accept_handler"
    "sequence (conns (g_socket start_example) 1) = 0" "sequence (conns (g_socket start_example) 2) = 0"
    by code_simp+
  have books: "m_msgqueue (g_threadpool client_example) = []" "emitted (g_socket client_example) = []"
    by code_simp+
  have ok: "env_ok client_event start_example" by (simp add: env_ok_def state client_event_def)
  have "traced_step start_example (map Arrive (added (queued (g_threadpool start_example)) (queued (g_threadpool client_example)))
      @ sendings start_example client_example) client_example"
    by (rule traced_step.event [OF ev mem ok]) (simp_all add: orderly_read_def orderly_write_def young_def state)
  then have "traced_step start_example [] client_example"
    by (simp add: queued_def sendings_def added_def books)
  from worker_trace.step [OF worker_trace.start [OF start_init] this] show ?thesis by simp
qed

text \<open>A ping, and a worker that has answered one: the socket takes three of the eight bytes of the answer.\<close>

definition ping :: "byte list" where
  "ping = [0, 8, 0, 0, 0, 0, 0, 0]"

definition ping_event :: event_env where
  "ping_event = client_event\<lparr>ee_recv := snd (got ping), ee_send := [SendSpace 9]\<rparr>"

lemma ping_facts:
  "frames ping = ([ping], [])" "valid_packet ping" "request_of ping = Some HandlePing"
  "unat (ntohs (pkgLen (pkg_head (message_of 2 1 (reply_packet HandlePing))))) = 8"
  by code_simp+

lemma client_idle:
  "m_sendsem (g_socket client_example) = 0" "m_msgtosend_count (g_socket client_example) = 0"
  "\<not> m_sendmutex (g_socket client_example)" "m_send_msgList (g_socket client_example) = []"
  "m_connectionList (g_socket client_example) = [1, 2]" "sequence (conns (g_socket client_example) 1) = 0"
  "sequence (conns (g_socket client_example) 2) = 1" "fd (conns (g_socket client_example) 2) = 9"
  "inrecyList (conns (g_socket client_example) 2) = 0" "iThrowsendCount (conns (g_socket client_example) 2) = 0"
  "isend_count (conns (g_socket client_example) 2) = 0" "curstat (conns (g_socket client_example) 2) = PKG_HD_INIT"
  "rhandler (conns (g_socket client_example) 2) = event_readable_request_handler"
  "whandler (conns (g_socket client_example) 2) = event_writable_request_handler"
  "length (m_timermap (g_socket client_example)) = 1" "m_msgqueue (g_threadpool client_example) = []"
  "0 < length (m_threadvec (g_threadpool client_example))" "m_threadvec (g_threadpool client_example) ! 0 = ThreadItem_new"
  "emitted (g_socket client_example) = []"
  by code_simp+

lemma ping_arrives:
  obtains w where "worker_trace [Arrive (message_of 2 1 ping)] w" "sock_rest (g_socket w) = sock_rest (g_socket client_example)"
    "m_msgqueue (g_threadpool w) = [Some (message_of 2 1 ping)]"
    "m_threadvec (g_threadpool w) = m_threadvec (g_threadpool client_example)"
proof -
  let ?w = client_example and ?c = "conns (g_socket client_example) 2"
  have q: "quiet_ans ?c (ee_recv ping_event)"
    by (simp add: quiet_ans_def ping_event_def got_def ping_def client_idle recv_want_def PKG_HEADER_LEN_def)
  have "recv_wf 2 ?c" by (simp add: recv_wf_def client_idle)
  from readable_request_consumes [OF this q] obtain w where
    run: "readable_request (ee_os ping_event) (ee_recv ping_event) 2 ?w = Inr w" and c: "consumes 2 ping ?w w"
    by (auto simp: pending_def client_idle ping_event_def got_def)
  have ev: "process_event ping_event EPOLLIN 2 ?w = Inr w"
    using run by (simp add: process_event_def run_event_handler_def client_idle)
  let ?es = "map Arrive (added (queued (g_threadpool ?w)) (queued (g_threadpool w))) @ sendings ?w w"
  have "traced_step ?w ?es w"
    by (rule traced_step.event [OF ev])
      (simp_all add: client_idle env_ok_def orderly_read_def orderly_write_def young_def Let_def ping_event_def got_def
        ping_def client_event_def recv_ok_def recv_want_def PKG_HEADER_LEN_def)
  moreover have "reads_only ?w w" by (rule readable_reads_only [OF quiet_harmless [OF q] run])
  then have "sock_rest (g_socket w) = sock_rest (g_socket ?w)" "pool_rest (g_threadpool w) = pool_rest (g_threadpool ?w)"
    by (simp_all add: reads_only_def)
  moreover have "m_threadvec (g_threadpool w) = m_threadvec (g_threadpool ?w)"
    using arg_cong [OF calculation(3), of m_threadvec] by (simp add: pool_rest_def)
  moreover have "m_msgqueue (g_threadpool w) = [Some (message_of 2 1 ping)]"
    using c by (simp add: consumes_def Let_def ping_facts client_idle)
  moreover have "emitted (g_socket w) = emitted (g_socket ?w)"
    using arg_cong [OF calculation(2), of emitted] by (simp add: sock_rest_def emitted_def)
  then have "?es = [Arrive (message_of 2 1 ping)]"
    by (simp add: calculation(5) sendings_def queued_def added_def client_idle)
  moreover note worker_trace.step [OF client_trace calculation(1)]
  ultimately show thesis using that by simp
qed

text \<open>From there: a worker of the pool takes the ping and answers it, and the send thread sends part of the answer.\<close>

lemma rest_field: "sock_rest s' = sock_rest s \<Longrightarrow> rest_of (conns s' b) = rest_of (conns s b)"
  by (drule arg_cong [of _ _ conns]) (simp add: sock_rest_def fun_eq_iff)

lemma ping_taken:
  obtains w where "worker_trace [Arrive (message_of 2 1 ping), Start (message_of 2 1 ping)] w" "sock_rest (g_socket w) = sock_rest (g_socket client_example)"
    "0 < length (m_threadvec (g_threadpool w))" "msg_held (m_threadvec (g_threadpool w) ! 0) = Some (message_of 2 1 ping)"
proof -
  from ping_arrives obtain w1 where w1: "worker_trace [Arrive (message_of 2 1 ping)] w1"
    "sock_rest (g_socket w1) = sock_rest (g_socket client_example)" "m_msgqueue (g_threadpool w1) = [Some (message_of 2 1 ping)]"
    "m_threadvec (g_threadpool w1) = m_threadvec (g_threadpool client_example)" by blast
  let ?p = "g_threadpool w1" and ?t = "ThreadItem_new\<lparr>msg_held := Some (message_of 2 1 ping)\<rparr>"
  obtain p where take: "next_of (ThreadFunc_take (m_threadvec ?p ! 0) ?p) = (?t, p)" and p: "m_threadvec p = m_threadvec ?p"
    by (simp add: ThreadFunc_take_eq w1(3,4) client_idle ThreadItem_new_def get_msg_item_def)
  have len: "0 < length (m_threadvec ?p)" unfolding w1(4) by (rule client_idle)
  have list: "m_connectionList (g_socket w1) = [1, 2]"
    using arg_cong [OF w1(2), of m_connectionList] by (simp add: sock_rest_def client_idle)
  have seq: "sequence (conns (g_socket w1) b) = sequence (conns (g_socket client_example) b)" for b
    using arg_cong [OF rest_field [OF w1(2)], of sequence b] by (simp add: rest_of_def)
  have "young w1" by (simp add: young_def list seq client_idle)
  moreover have "msg_held (m_threadvec ?p ! 0) = None" by (simp add: w1(4) client_idle ThreadItem_new_def)
  ultimately have "traced_step w1 (map Start (holding ?t)) (w1\<lparr>g_threadpool := set_thread 0 ?t p\<rparr>)"
    using traced_step.take_msg [OF len _ take] by blast
  from worker_trace.step [OF w1(1) this]
  have "worker_trace [Arrive (message_of 2 1 ping), Start (message_of 2 1 ping)] (w1\<lparr>g_threadpool := set_thread 0 ?t p\<rparr>)"
    by (simp add: holding_def)
  with w1(2) len p show thesis
    by (intro that [of "w1\<lparr>g_threadpool := set_thread 0 ?t p\<rparr>"]) (simp_all add: set_thread_def)
qed

definition ping_events :: "service_event list" where
  "ping_events = [Arrive (message_of 2 1 ping), Start (message_of 2 1 ping),
     Finish (message_of 2 1 ping) [message_of 2 1 (reply_packet HandlePing)]]"

lemma ping_under_way:
  obtains w0 w where "worker_trace ping_events w0" "traced_step w0 [Emit 9 (take 3 (reply_packet HandlePing))] w" "m_connectionList (g_socket w) = [1, 2]"
    "rhandler (conns (g_socket w) 2) = event_readable_request_handler" "orderly_write EPOLLOUT 2 w"
proof -
  from ping_taken obtain w where w: "worker_trace [Arrive (message_of 2 1 ping), Start (message_of 2 1 ping)] w"
    "sock_rest (g_socket w) = sock_rest (g_socket client_example)"
    "0 < length (m_threadvec (g_threadpool w))" "msg_held (m_threadvec (g_threadpool w) ! 0) = Some (message_of 2 1 ping)"
    by blast
  let ?s = "g_socket w"
  have s: "m_sendsem ?s = 0" "m_msgtosend_count ?s = 0" "\<not> m_sendmutex ?s" "m_send_msgList ?s = []"
    "m_connectionList ?s = [1, 2]"
    using arg_cong [OF w(2), of m_sendsem] arg_cong [OF w(2), of m_msgtosend_count]
      arg_cong [OF w(2), of m_sendmutex] arg_cong [OF w(2), of m_send_msgList]
      arg_cong [OF w(2), of m_connectionList]
    by (simp_all add: sock_rest_def client_idle)
  note r = rest_field [OF w(2)]
  have c: "sequence (conns ?s 2) = 1" "fd (conns ?s 2) = 9" "inrecyList (conns ?s 2) = 0"
    "iThrowsendCount (conns ?s 2) = 0" "isend_count (conns ?s 2) = 0" "sequence (conns ?s 1) = 0"
    "rhandler (conns ?s 2) = event_readable_request_handler" "whandler (conns ?s 2) = event_writable_request_handler"
    using arg_cong [OF r, of sequence 2] arg_cong [OF r, of fd 2] arg_cong [OF r, of inrecyList 2]
      arg_cong [OF r, of iThrowsendCount 2] arg_cong [OF r, of isend_count 2] arg_cong [OF r, of sequence 1]
      arg_cong [OF r, of rhandler 2] arg_cong [OF r, of whandler 2]
    by (simp_all add: rest_of_def client_idle)
  define m where "m = message_of 2 1 (reply_packet HandlePing)"
  have "wf_msg m" unfolding m_def by (rule reply_wf_msg)
  moreover have "unat (ntohs (pkgLen (pkg_head m))) = 8" unfolding m_def by (rule ping_facts)
  moreover have "msg_head m = \<lparr>lp_curconn = 2, msg_cursequence = 1\<rparr>" by (simp add: m_def)
  ultimately have m: "msg_head m = \<lparr>lp_curconn = 2, msg_cursequence = 1\<rparr>" "unat (ntohs (pkgLen (pkg_head m))) = 8"
    "MSG_HEADER_LEN + 8 \<le> length m"
    by (simp_all add: wf_msg_def)
  have tok: "judge_token (conns ?s 2) 1" by (simp add: judge_token_exact c)
  obtain s2 where "MsgSendInQueue m (upd_conn 2 (serve 3 HandlePing) ?s) = Inr s2"
    and s2: "m_sendsem s2 = 1" "m_msgtosend_count s2 = 1" "\<not> m_sendmutex s2" "m_send_msgList s2 = [m]"
    "m_connectionList s2 = [1, 2]" "conns s2 1 = conns ?s 1"
    "conns s2 2 = (serve 3 HandlePing (conns ?s 2))\<lparr>isend_count := 1\<rparr>"
    by (auto simp: MsgSendInQueue_eq Let_def s c serve_def m(1))
  then have "ThreadRecvProc 3 (message_of 2 1 ping) ?s = Inr (0, s2)"
    using tok by (simp add: ThreadRecvProc_eq [OF ping_facts(2)] ping_facts(3) m_def)
  then obtain w2 where w2: "ThreadFunc_process 3 0 w = Inr w2" "g_socket w2 = s2"
    by (auto simp: ThreadFunc_process_def w(4) Let_def case_prod_unfold)
  have c2: "judge_token (conns s2 2) 1" "iThrowsendCount (conns s2 2) = 0" "fd (conns s2 2) = 9"
    "sequence (conns s2 2) = 1" "rhandler (conns s2 2) = event_readable_request_handler"
    "whandler (conns s2 2) = event_writable_request_handler" "sequence (conns s2 1) = 0"
    using c by (simp_all add: s2 serve_def Let_def judge_token_exact)
  have y: "young w" "young w2" by (simp_all add: young_def s c w2(2) s2(5) c2)
  from worker_trace.step [OF w(1) traced_step.process [OF w(3,4) w2(1) y(1)]]
  have r2: "worker_trace [Arrive (message_of 2 1 ping), Start (message_of 2 1 ping), Finish (message_of 2 1 ping) [m]] w2"
    by (simp add: w2(2) s s2(4) added_def)
  have part: "take 3 (drop MSG_HEADER_LEN m) = take 3 (reply_packet HandlePing)"
    by (simp add: m_def drop_message_of PKG_HEADER_LEN_def)
  from m(3) obtain s3 t' where round: "SendMsgThread_round False True [SendSpace 3] \<lparr>running = True, ifshutdown = False\<rparr> s2
      = Inr (False, t', [], s3)"
    and s3: "m_connectionList s3 = [1, 2]" "iThrowsendCount (conns s3 2) = 1" "fd (conns s3 2) = 9"
    "rhandler (conns s3 2) = event_readable_request_handler" "whandler (conns s3 2) = event_writable_request_handler"
    "emitted s3 = emitted s2 @ [(9, take 3 (drop MSG_HEADER_LEN m))]"
    by (simp add: SendMsgThread_round_eq Let_def s2(1-5) c2 take_message_def offered_def m(1,2) whandler_epoll)
  have "traced_step w2 [Emit 9 (take 3 (reply_packet HandlePing))] (w2\<lparr>g_socket := s3\<rparr>)"
    using traced_step.send [where w = w2, unfolded w2(2), OF round y(2) refl]
    by (simp add: sendings_def added_def w2(2) s3(6) part)
  with r2 s3 show thesis
    by (intro that [of w2 "w2\<lparr>g_socket := s3\<rparr>"]) (simp_all add: orderly_write_def Let_def ping_events_def m_def)
qed

end
