(* ===== verification/Flight.thy ===== *)
theory Flight
  imports Traces
begin

text \<open>
  Memory safety of the \<open>EPOLLOUT\<close> handler and of a worker as a whole: while a message is under way on a
  connection, \<open>p_sendbuf\<close> and \<open>sendlen\<close> stay inside it. This depends on the send thread, which forgets the
  message of a connection when it meets an outdated message for it; tokens that arrive in ascending order
  keep it from doing so while the connection waits to be writable.
\<close>

section \<open>Messages under way\<close>

text \<open>The sequence number a message is compared with (\<open>JudgeOutdate\<close> narrows the token), and those of the
  messages for one connection, in the order of the queue.\<close>

definition token_value :: "u64 \<Rightarrow> nat" where
  "token_value t = unat (scast (ucast t :: u32) :: u64)"

definition tokens_for :: "addr \<Rightarrow> byte list list \<Rightarrow> nat list" where
  "tokens_for a ms = map (\<lambda>m. token_value (msg_cursequence (msg_head m))) (filter (\<lambda>m. lp_curconn (msg_head m) = a) ms)"

definition flight_valid :: "connection \<Rightarrow> bool" where
  "flight_valid c \<longleftrightarrow> (case p_sendbuf c of None \<Rightarrow> False
     | Some off \<Rightarrow> (case p_msgsend c of None \<Rightarrow> False | Some m \<Rightarrow> off + sendlen c \<le> length m))"

text \<open>The bytes still to be sent are the end of the packet of a message.\<close>

definition rest_in :: "byte list \<Rightarrow> connection \<Rightarrow> bool" where
  "rest_in m c \<longleftrightarrow> p_msgsend c = Some m \<and> wf_msg m \<and> (\<exists>i. p_sendbuf c = Some (MSG_HEADER_LEN + i) \<and>
     i + sendlen c \<le> length (packet_bytes m))"

text \<open>The message is one of \<open>B\<close>, meant for the connection at \<open>a\<close> and for its present use.\<close>

definition under_way :: "byte list set \<Rightarrow> addr \<Rightarrow> connection \<Rightarrow> bool" where
  "under_way B a c \<longleftrightarrow> (\<exists>m \<in> B. rest_in m c \<and> lp_curconn (msg_head m) = a \<and>
     token_value (msg_cursequence (msg_head m)) = unat (sequence c))"

text \<open>Of the connection at \<open>a\<close> whose messages in the queue have the tokens \<open>ts\<close>.\<close>

definition flight_ok :: "byte list set \<Rightarrow> addr \<Rightarrow> connection \<Rightarrow> nat list \<Rightarrow> bool" where
  "flight_ok B a c ts \<longleftrightarrow> inrecyList c \<noteq> 1 \<and>
     (0 < fd c \<and> 0 < iThrowsendCount c \<longrightarrow> under_way B a c \<and> set ts \<subseteq> {unat (sequence c)})"

definition flight_inv :: "byte list set \<Rightarrow> byte list list \<Rightarrow> csocket \<Rightarrow> bool" where
  "flight_inv B ms s \<longleftrightarrow> (\<forall>m \<in> set ms. lp_curconn (msg_head m) \<in> set (m_connectionList s)) \<and>
     (\<forall>a. sorted (tokens_for a ms @ [unat (sequence (conns s a))])) \<and>
     (\<forall>a \<in> serving s. flight_ok B a (conns s a) (tokens_for a ms))"

lemma tokens_for_simps [simp]:
  "tokens_for a [] = []"
  "tokens_for a (m # ms) = (if lp_curconn (msg_head m) = a then [token_value (msg_cursequence (msg_head m))] else []) @
     tokens_for a ms"
  "tokens_for a (ms @ ns) = tokens_for a ms @ tokens_for a ns"
  by (simp_all add: tokens_for_def)

lemma tokens_for_mono: "set ms \<subseteq> set ns \<Longrightarrow> set (tokens_for a ms) \<subseteq> set (tokens_for a ns)"
  by (auto simp: tokens_for_def)

lemma judge_token_value:
  "judge_token c t \<longleftrightarrow> 0 < fd c \<and> inrecyList c \<noteq> 1 \<and> token_value t = unat (sequence c)"
  unfolding judge_token_iff token_value_def by (metis word_unat_eq_iff)

lemma packet_bytes_length: "wf_msg m \<Longrightarrow> MSG_HEADER_LEN + length (packet_bytes m) \<le> length m"
  by (auto simp: wf_msg_def packet_bytes_def min_def)

lemma rest_in_valid: "rest_in m c \<Longrightarrow> flight_valid c"
  using packet_bytes_length [of m] by (auto simp: rest_in_def flight_valid_def)

lemma under_way_valid: "under_way B a c \<Longrightarrow> flight_valid c"
  using rest_in_valid by (auto simp: under_way_def)

lemma flight_valid_buf: "send_buf c' = send_buf c \<Longrightarrow> flight_valid c' = flight_valid c"
  unfolding send_buf_def prod.inject flight_valid_def by (elim conjE) (simp only:)

lemma rest_in_buf: "send_buf c' = send_buf c \<Longrightarrow> rest_in m c' = rest_in m c"
  unfolding send_buf_def prod.inject rest_in_def by (elim conjE) (simp only:)

lemma under_way_buf: "send_buf c' = send_buf c \<Longrightarrow> sequence c' = sequence c \<Longrightarrow> under_way B a c' = under_way B a c"
  using rest_in_buf [of c' c] by (simp add: under_way_def)

lemma flight_inv_conns:
  "conns s' = conns s \<Longrightarrow> m_connectionList s' = m_connectionList s \<Longrightarrow> flight_inv B ms s' = flight_inv B ms s"
  by (simp add: flight_inv_def serving_def)

lemma flight_inv_fields [simp]:
  "flight_inv B ms (os_request r s) = flight_inv B ms s" "flight_inv B ms (s\<lparr>m_sendsem := x\<rparr>) = flight_inv B ms s"
  "flight_inv B ms (s\<lparr>m_msgtosend_count := y\<rparr>) = flight_inv B ms s"
  "flight_inv B ms (s\<lparr>m_send_msgList := z\<rparr>) = flight_inv B ms s" "flight_inv B ms (s\<lparr>m_sendmutex := b\<rparr>) = flight_inv B ms s"
  by (rule flight_inv_conns, simp, simp)+

text \<open>A change after which no connection in service has a message under way that was not under way before.\<close>

definition calmer :: "connection \<Rightarrow> connection \<Rightarrow> bool" where
  "calmer c c' \<longleftrightarrow> fd c' = fd c \<and> sequence c' = sequence c \<and> inrecyList c' = inrecyList c \<and>
     send_buf c' = send_buf c \<and> iThrowsendCount c' \<le> iThrowsendCount c"

lemma flight_inv_calmer:
  assumes inv: "flight_inv B ms s" and list: "set (m_connectionList s) \<subseteq> set (m_connectionList s')"
    and seq: "\<And>b. b \<in> set (m_connectionList s) \<Longrightarrow> unat (sequence (conns s b)) \<le> unat (sequence (conns s' b))"
    and serv: "\<And>b. b \<in> serving s' \<Longrightarrow> b \<in> serving s \<and> calmer (conns s b) (conns s' b) \<or>
      inrecyList (conns s' b) \<noteq> 1 \<and> iThrowsendCount (conns s' b) \<le> 0"
  shows "flight_inv B ms s'"
proof -
  have "sorted (tokens_for a ms @ [unat (sequence (conns s' a))])" for a
  proof (cases "a \<in> set (m_connectionList s)")
    case True
    with inv seq [OF True] show ?thesis by (auto simp: flight_inv_def sorted_append dest: order_trans)
  next
    case False
    with inv have "tokens_for a ms = []" by (auto simp: flight_inv_def tokens_for_def filter_empty_conv)
    then show ?thesis by simp
  qed
  moreover have "flight_ok B b (conns s' b) (tokens_for b ms)" if b: "b \<in> serving s'" for b
    using serv [OF b]
  proof
    assume c: "b \<in> serving s \<and> calmer (conns s b) (conns s' b)"
    with inv have "flight_ok B b (conns s b) (tokens_for b ms)" by (simp add: flight_inv_def)
    with c under_way_buf [of "conns s' b" "conns s b"] show ?thesis by (auto simp: flight_ok_def calmer_def)
  qed (simp add: flight_ok_def)
  ultimately show ?thesis using inv list by (auto simp: flight_inv_def)
qed

lemma flight_inv_spares: "flight_inv B ms s \<Longrightarrow> spares s s' \<Longrightarrow> flight_inv B ms s'"
  by (erule flight_inv_calmer) (auto simp: spares_def calmer_def)

text \<open>A change of the sending side of one connection.\<close>

lemma flight_inv_upd:
  assumes inv: "flight_inv B ms s" and side: "send_side (conns s a) (f (conns s a))"
    and new: "a \<in> serving s \<Longrightarrow> 0 < fd (conns s a) \<Longrightarrow> 0 < iThrowsendCount (f (conns s a)) \<Longrightarrow>
      under_way B a (f (conns s a)) \<and> set (tokens_for a ms) \<subseteq> {unat (sequence (conns s a))}"
  shows "flight_inv B ms (upd_conn a f s)"
proof -
  have c: "fd (f (conns s a)) = fd (conns s a)" "rhandler (f (conns s a)) = rhandler (conns s a)"
    "sequence (f (conns s a)) = sequence (conns s a)" "inrecyList (f (conns s a)) = inrecyList (conns s a)"
    using side by (simp_all add: send_side_def recv_view_def)
  have "flight_ok B a (f (conns s a)) (tokens_for a ms)" if "a \<in> serving s"
    using inv that new [OF that] c by (simp add: flight_inv_def flight_ok_def)
  moreover have "serving (upd_conn a f s) = serving s" using c by (auto simp: serving_def conns_upd)
  ultimately show ?thesis using inv c by (simp add: flight_inv_def conns_upd)
qed

lemma flight_inv_calm_upd:
  assumes inv: "flight_inv B ms s" and c: "calmer (conns s a) (f (conns s a))" "rhandler (f (conns s a)) = rhandler (conns s a)"
  shows "flight_inv B ms (upd_conn a f s)"
proof (rule flight_inv_calmer [OF inv])
  fix b
  have b: "calmer (conns s b) (conns (upd_conn a f s) b)" "rhandler (conns (upd_conn a f s) b) = rhandler (conns s b)"
    using c by (simp_all add: conns_upd calmer_def)
  then show "unat (sequence (conns s b)) \<le> unat (sequence (conns (upd_conn a f s) b))" by (simp add: calmer_def)
  assume "b \<in> serving (upd_conn a f s)"
  with b have "b \<in> serving s" by (simp add: serving_def calmer_def)
  with b(1) show "b \<in> serving s \<and> calmer (conns s b) (conns (upd_conn a f s) b) \<or>
      inrecyList (conns (upd_conn a f s) b) \<noteq> 1 \<and> iThrowsendCount (conns (upd_conn a f s) b) \<le> 0" by blast
qed simp

lemma flight_inv_epoll:
  assumes "flight_inv B ms s"
  shows "flight_inv B ms (snd (epoll_oper_event ok f fl et bc a s))"
proof -
  let ?s = "snd (epoll_oper_event ok f fl et bc a s)"
  have "calmer (conns s b) (conns ?s b) \<and> rhandler (conns ?s b) = rhandler (conns s b)" for b
    by (simp add: epoll_oper_event_def Let_def calmer_def send_buf_def)
  then show ?thesis
    by (intro flight_inv_calmer [OF assms]) (simp_all add: serving_def calmer_def)
qed

text \<open>Sending changes a connection on its sending side only.\<close>

definition sides :: "csocket \<Rightarrow> csocket \<Rightarrow> bool" where
  "sides s s' \<longleftrightarrow> m_connectionList s' = m_connectionList s \<and> (\<forall>b. send_side (conns s b) (conns s' b))"

lemma send_side_trans: "send_side c d \<Longrightarrow> send_side d e \<Longrightarrow> send_side c e"
  by (simp add: send_side_def)

interpretation siding: send_frame sides
proof
  fix s s' a f
  assume "sides s s'" "send_side (conns s' a) (f (conns s' a))"
  then show "sides s (upd_conn a f s')" by (auto simp: sides_def conns_upd intro: send_side_trans)
next
  fix s s' ok g fl et bc a
  assume "sides s s'"
  then show "sides s (snd (epoll_oper_event ok g fl et bc a s'))"
    using send_side_epoll send_side_trans by (fastforce simp: sides_def)
qed (simp_all add: sides_def)

section \<open>The send thread\<close>

lemma sorted_all_last: "sorted (x # xs @ [x]) \<Longrightarrow> set xs \<subseteq> {x :: nat}"
  by (auto simp: sorted_append intro: antisym)

text \<open>After a message with the current token only such messages follow.\<close>

lemma flight_inv_tl:
  assumes "flight_inv B (m # ms) s"
  shows "flight_inv B ms s"
    and "token_value (msg_cursequence (msg_head m)) = unat (sequence (conns s (lp_curconn (msg_head m)))) \<Longrightarrow>
      set (tokens_for (lp_curconn (msg_head m)) ms) \<subseteq> {unat (sequence (conns s (lp_curconn (msg_head m))))}"
proof -
  show "flight_inv B ms s"
    using assms by (auto simp: flight_inv_def flight_ok_def sorted_append split: if_splits)
  let ?a = "lp_curconn (msg_head m)"
  assume tok: "token_value (msg_cursequence (msg_head m)) = unat (sequence (conns s ?a))"
  have "sorted (tokens_for ?a (m # ms) @ [unat (sequence (conns s ?a))])" using assms by (simp only: flight_inv_def)
  with tok show "set (tokens_for ?a ms) \<subseteq> {unat (sequence (conns s ?a))}"
    by (intro sorted_all_last) simp
qed

lemma flight_inv_Cons:
  assumes inv: "flight_inv B ms s" and a: "a = lp_curconn (msg_head m)" "a \<in> set (m_connectionList s)"
    and tok: "token_value (msg_cursequence (msg_head m)) = unat (sequence (conns s a))"
    and all: "set (tokens_for a ms) \<subseteq> {unat (sequence (conns s a))}"
  shows "flight_inv B (m # ms) s"
proof -
  have "sorted (tokens_for b (m # ms) @ [unat (sequence (conns s b))])" for b
  proof (cases "b = a")
    case True
    with inv all tok a(1) show ?thesis by (auto simp: flight_inv_def sorted_append)
  next
    case False
    with inv a(1) show ?thesis by (simp add: flight_inv_def)
  qed
  moreover have "flight_ok B b (conns s b) (tokens_for b (m # ms))" if "b \<in> serving s" for b
    using inv that tok a(1) by (auto simp: flight_inv_def flight_ok_def)
  ultimately show ?thesis using inv a by (auto simp: flight_inv_def)
qed

lemma rest_in_sent: "rest_in m c \<Longrightarrow> n \<le> sendlen c \<Longrightarrow> rest_in m ((sent_part n c)\<lparr>iThrowsendCount := k\<rparr>)"
  by (auto simp: rest_in_def sent_part_def)

lemma under_way_sent:
  assumes "under_way B a c" "n \<le> sendlen c"
  shows "under_way B a ((sent_part n c)\<lparr>iThrowsendCount := k\<rparr>)" "under_way B a (sent_part n c)"
proof -
  from assms(1) obtain m where m: "m \<in> B" "rest_in m c" "lp_curconn (msg_head m) = a"
    "token_value (msg_cursequence (msg_head m)) = unat (sequence c)" by (auto simp: under_way_def)
  show "under_way B a ((sent_part n c)\<lparr>iThrowsendCount := k\<rparr>)" for k
    using m rest_in_sent [OF m(2) assms(2)] unfolding under_way_def by (intro bexI [of _ m]) simp_all
  from this [of "iThrowsendCount c"] show "under_way B a (sent_part n c)" by (simp add: sent_part_def)
qed

lemma rest_in_take: "wf_msg m \<Longrightarrow> rest_in m (take_message m c)"
  by (auto simp: rest_in_def take_message_def wf_msg_def packet_bytes_def intro: exI [of _ 0])

lemma flight_inv_scan:
  "send_scan ctl_ok ans ms s = Inr (e, kept, ans', s') \<Longrightarrow> flight_inv B ms s \<Longrightarrow> \<forall>m \<in> set ms. wf_msg m \<and> m \<in> B \<Longrightarrow>
   flight_inv B kept s'"
proof (induction ms arbitrary: ans s kept)
  case Nil
  then show ?case by simp
next
  case (Cons m ms)
  define a where "a = lp_curconn (msg_head m)"
  let ?c = "conns s a"
  note tl = flight_inv_tl [OF Cons.prems(2), folded a_def]
  have a: "a \<in> set (m_connectionList s)" using Cons.prems(2) by (simp add: flight_inv_def a_def)
  have wf: "\<forall>m \<in> set ms. wf_msg m \<and> m \<in> B" "wf_msg m" "m \<in> B" using Cons.prems(3) by simp_all
  from Cons.prems(1) a_def show ?case
  proof (cases rule: send_scan_step)
    case outdated
    have idle: "\<not> 0 < iThrowsendCount ?c" if "a \<in> serving s" "0 < fd ?c"
      using Cons.prems(2) outdated(1) that
      by (auto simp: flight_inv_def flight_ok_def judge_token_value a_def [symmetric])
    have "flight_inv B ms (upd_conn a clear_send s)"
      by (rule flight_inv_upd [OF tl(1)]) (use idle in simp_all)
    from Cons.IH [OF outdated(2) this wf(1)] show ?thesis .
  next
    case (busy kept')
    note inv = Cons.IH [OF busy(4) tl(1) wf(1)]
    have tok: "token_value (msg_cursequence (msg_head m)) = unat (sequence ?c)"
      using busy(1) by (simp add: judge_token_value)
    have s': "m_connectionList s' = m_connectionList s" "sequence (conns s' a) = sequence ?c"
      using siding.send_scan [OF busy(4), of s] by (simp_all add: sides_def send_side_def recv_view_def)
    have "set (tokens_for a kept') \<subseteq> {unat (sequence ?c)}"
      using tokens_for_mono [OF send_scan_kept [OF busy(4)]] tl(2) [OF tok] by blast
    with flight_inv_Cons [OF inv a_def] a tok s' busy(3) show ?thesis by simp
  next
    case (send r ans1 s0 s1)
    have now: "token_value (msg_cursequence (msg_head m)) = unat (sequence ?c)"
      using send(1) by (simp add: judge_token_value)
    note tok = tl(2) [OF this]
    have new: "under_way B a (take_message m ?c)"
      using rest_in_take [OF wf(2), of ?c] wf(3) a_def now by (auto simp: under_way_def)
    have "flight_inv B ms (upd_conn a (take_message m) s)"
      by (rule flight_inv_upd [OF tl(1)]) (use send(2) in simp_all)
    then have s0: "flight_inv B ms s0" by (simp add: send(3))
    from sendproc_cases [OF send(4)] have s1: "conns s1 = conns s0" "m_connectionList s1 = m_connectionList s0"
      and r: "nat r \<le> sendlen (conns s0 a)" by auto
    then have inv1: "flight_inv B ms s1" using s0 flight_inv_conns [OF s1] by simp
    have c1: "conns s1 a = take_message m ?c" by (simp add: s1 send(3))
    have stop: "flight_inv B ms (upd_conn a f s1)"
      if "send_side (conns s1 a) (f (conns s1 a))" "iThrowsendCount (f (conns s1 a)) \<le> 0" for f
      by (rule flight_inv_upd [OF inv1]) (use that in simp_all)
    have part: "flight_inv B ms (upd_conn a (\<lambda>c. (sent_part (nat r) c)\<lparr>iThrowsendCount := iThrowsendCount c + 1\<rparr>) s1)"
      by (rule flight_inv_upd [OF inv1])
        (use tok r under_way_sent(1) [OF new] in \<open>simp_all add: c1 s1(1) [symmetric]\<close>)
    from send(5) show ?thesis
    proof (elim disjE conjE)
      assume "send_scan ctl_ok ans1 ms (upd_conn a (\<lambda>c. (clear_send c)\<lparr>iThrowsendCount := 0\<rparr>) s1) = Inr (e, kept, ans', s')"
      from Cons.IH [OF this stop wf(1)] show ?thesis by simp
    next
      assume "send_scan ctl_ok ans1 ms (snd (epoll_oper_event ctl_ok (fd (conns s1 a)) EPOLL_CTL_MOD EPOLLOUT 0 a
            (upd_conn a (\<lambda>c. (sent_part (nat r) c)\<lparr>iThrowsendCount := iThrowsendCount c + 1\<rparr>) s1))) =
          Inr (e, kept, ans', s')"
      from Cons.IH [OF this flight_inv_epoll [OF part] wf(1)] show ?thesis .
    next
      assume "kept = ms" "s' = upd_conn a (\<lambda>c. c\<lparr>sendlen_already := sendlen_already c + nat r\<rparr>) s1"
      with stop [of "\<lambda>c. c\<lparr>sendlen_already := sendlen_already c + nat r\<rparr>"] send(2) show ?thesis by (simp add: c1)
    next
      assume "send_scan ctl_ok ans1 ms (upd_conn a (\<lambda>c. (clear_send c)\<lparr>iThrowsendCount := 0\<rparr>)
           (upd_conn a (\<lambda>c. c\<lparr>sendlen_already := sendlen_already c + nat r\<rparr>) s1)) = Inr (e, kept, ans', s')"
      moreover have "flight_inv B ms (upd_conn a (\<lambda>c. c\<lparr>sendlen_already := sendlen_already c + nat r\<rparr>) s1)"
        by (rule stop) (use send(2) in \<open>simp_all add: c1\<close>)
      then have "flight_inv B ms (upd_conn a (\<lambda>c. (clear_send c)\<lparr>iThrowsendCount := 0\<rparr>)
           (upd_conn a (\<lambda>c. c\<lparr>sendlen_already := sendlen_already c + nat r\<rparr>) s1))"
        by (rule flight_inv_upd) simp_all
      ultimately show ?thesis using Cons.IH wf(1) by blast
    qed
  qed
qed

text \<open>\<open>B\<close> has all messages that wait or are under way.\<close>

definition flying :: "byte list set \<Rightarrow> csocket \<Rightarrow> bool" where
  "flying B s \<longleftrightarrow> set (m_send_msgList s) \<subseteq> B \<and> flight_inv B (m_send_msgList s) s"

lemma flying_mono:
  assumes "flying B s" "B \<subseteq> B'"
  shows "flying B' s"
  using assms unfolding flying_def flight_inv_def flight_ok_def under_way_def by blast

lemma flying_spares: "flying B s \<Longrightarrow> spares s s' \<Longrightarrow> flying B s'"
  using flight_inv_spares by (auto simp: flying_def spares_def output_of_def)

lemma flying_round:
  assumes "SendMsgThread_round stop ctl_ok ans t s = Inr (lv, t', ans', s')" "flying B s" "replies_ok s"
  shows "flying B s'"
proof (cases "stop \<or> ifshutdown t \<or> \<not> m_msgtosend_count s > 0")
  case True
  with assms(1) have "s' = s\<lparr>m_sendsem := m_sendsem s - 1\<rparr>"
    by (auto simp: SendMsgThread_round_eq Let_def split: if_splits)
  with assms(2) show ?thesis by (simp add: flying_def)
next
  case False
  from SendMsgThread_round_visit [OF assms(1) False] obtain e kept s1 where
    scan: "send_scan ctl_ok ans (m_send_msgList s) (s\<lparr>m_sendsem := m_sendsem s - 1\<rparr>) = Inr (e, kept, ans', s1)"
    and s': "s' = s1\<lparr>m_send_msgList := kept, m_sendmutex := (if e = ScanReturn then True else m_sendmutex s1)\<rparr>"
    by metis
  have "\<forall>m \<in> set (m_send_msgList s). wf_msg m \<and> m \<in> B" using assms(2,3) by (auto simp: flying_def replies_ok_def)
  with flight_inv_scan [OF scan] assms(2) have "flight_inv B kept s1" by (simp add: flying_def)
  with send_scan_kept [OF scan] assms(2) show ?thesis by (auto simp: s' flying_def)
qed

section \<open>The other threads\<close>

lemma flying_writable:
  assumes run: "writable_request ctl_ok ans a s = Inr (ans', s')" and inv: "flying B s"
  shows "flying B s'"
proof -
  let ?c = "conns s a" and ?Q = "m_send_msgList s"
  from run obtain r s1 ans1 where sp: "sendproc ans a s = Inr (r, ans1, s1)"
    by (auto simp: writable_request_def Let_def bindE_Inr_iff)
  from sendproc_cases [OF sp] have s1: "conns s1 = conns s" "m_connectionList s1 = m_connectionList s"
    and r: "nat r \<le> sendlen ?c" by auto
  have inv1: "flight_inv B ?Q s1" using inv flight_inv_conns [OF s1] by (simp add: flying_def)
  have old: "under_way B a ?c \<and> set (tokens_for a ?Q) \<subseteq> {unat (sequence ?c)}"
    if "a \<in> serving s1" "0 < fd ?c" "0 < iThrowsendCount ?c"
    using inv1 that by (auto simp: flight_inv_def flight_ok_def s1(1))
  have part: "flight_inv B ?Q (upd_conn a (sent_part (nat r)) s1)"
  proof (rule flight_inv_upd [OF inv1])
    assume a: "a \<in> serving s1" "0 < fd (conns s1 a)" "0 < iThrowsendCount (sent_part (nat r) (conns s1 a))"
    then have "0 < iThrowsendCount ?c" by (simp add: s1(1))
    with a old r under_way_sent(2) [of B a ?c "nat r"]
    show "under_way B a (sent_part (nat r) (conns s1 a)) \<and> set (tokens_for a ?Q) \<subseteq> {unat (sequence (conns s1 a))}"
      by (simp add: s1(1))
  qed simp
  let ?s2 = "upd_conn a (\<lambda>c. c\<lparr>sendlen_already := sendlen_already c + nat r\<rparr>) s1"
  have whole: "flight_inv B ?Q ?s2"
    by (rule flight_inv_upd [OF inv1])
      (use old under_way_buf [of "?c\<lparr>sendlen_already := sendlen_already ?c + nat r\<rparr>" ?c]
        in \<open>simp_all add: s1(1) send_buf_def\<close>)
  have fin: "flight_inv B ?Q (upd_conn a (\<lambda>c. (clear_send c)\<lparr>iThrowsendCount := 0\<rparr>) u)" if "flight_inv B ?Q u" for u
    by (rule flight_inv_upd [OF that]) simp_all
  have "flight_inv B ?Q s'"
    using run sp part whole inv1
    by (auto simp: writable_request_def Let_def simp del: upd_conn_upd_conn split: if_splits
        intro!: fin flight_inv_epoll)
  then show ?thesis using inv by (simp add: flying_def writable_list [OF run])
qed

lemma flying_queue:
  assumes inv: "flying B s" and a: "a \<in> set (m_connectionList s)" and tok: "judge_token (conns s a) sq"
    and run: "MsgSendInQueue (message_of a sq p) s = Inr s'"
  shows "flying (B \<union> set (m_send_msgList s')) s'"
proof -
  let ?Q = "m_send_msgList s" and ?m = "message_of a sq p" and ?B = "B \<union> set (m_send_msgList s')"
  have inv: "flying ?B s" by (rule flying_mono [OF inv]) simp
  have t: "token_value sq = unat (sequence (conns s a))" using tok by (simp add: judge_token_value)
  have new: "flight_inv ?B (?Q @ [?m]) s"
    unfolding flight_inv_def
  proof (intro conjI allI ballI)
    fix m
    assume "m \<in> set (?Q @ [?m])"
    then show "lp_curconn (msg_head m) \<in> set (m_connectionList s)"
      using inv a by (auto simp: flying_def flight_inv_def)
  next
    fix b
    show "sorted (tokens_for b (?Q @ [?m]) @ [unat (sequence (conns s b))])"
      using inv t by (auto simp: flying_def flight_inv_def sorted_append)
  next
    fix b
    assume "b \<in> serving s"
    then show "flight_ok ?B b (conns s b) (tokens_for b (?Q @ [?m]))"
      using inv t by (auto simp: flying_def flight_inv_def flight_ok_def)
  qed
  let ?u = "upd_conn a (\<lambda>c. c\<lparr>isend_count := isend_count c + 1\<rparr>) s"
  have more: "flight_inv ?B ms ?u" if "flight_inv ?B ms s" for ms
    by (rule flight_inv_calm_upd [OF that]) (simp_all add: calmer_def send_buf_def)
  from run consider (dropped) "conns s' = conns s" "m_connectionList s' = m_connectionList s" "m_send_msgList s' = ?Q"
    | (queued) "conns s' = conns ?u" "m_connectionList s' = m_connectionList ?u" "m_send_msgList s' = ?Q @ [?m]"
    by (auto simp: MsgSendInQueue_eq Let_def upd_conn_def split: if_splits)
  then show ?thesis
  proof cases
    case dropped
    with inv flight_inv_conns [OF dropped(1,2)] show ?thesis by (auto simp: flying_def)
  next
    case queued
    with more [OF new] flight_inv_conns [OF queued(1,2)] show ?thesis by (auto simp: flying_def)
  qed
qed

lemma flying_process:
  assumes m: "is_request (set (m_connectionList s)) m" and run: "ThreadRecvProc now m s = Inr (r, s')" and inv: "flying B s"
  shows "flying (B \<union> set (m_send_msgList s')) s'"
proof -
  from m obtain a sq p where m: "m = message_of a sq p" "valid_packet p" "a \<in> set (m_connectionList s)"
    by (auto simp: is_request_def)
  from run consider "s' = s" | h where "judge_token (conns s a) sq"
    "MsgSendInQueue (message_of a sq (reply_packet h)) (upd_conn a (serve now h) s) = Inr s'"
    by (auto simp: m(1) ThreadRecvProc_eq [OF m(2)] bindE_Inr_iff split: if_splits option.splits)
  then show ?thesis
  proof cases
    case 1
    with flying_mono [OF inv, of "B \<union> set (m_send_msgList s')"] show ?thesis by simp
  next
    case 2
    have "calmer c (serve now h c) \<and> rhandler (serve now h c) = rhandler c" for c
      by (simp add: serve_def Let_def calmer_def send_buf_def)
    then have "flying B (upd_conn a (serve now h) s)"
      using inv flight_inv_calm_upd [of B "m_send_msgList s" s a "serve now h"] by (simp add: flying_def)
    moreover have "judge_token (conns (upd_conn a (serve now h) s) a) sq"
      using 2(1) by (simp add: judge_token_iff serve_def Let_def)
    ultimately show ?thesis using flying_queue [OF _ _ _ 2(2)] m(3) by simp
  qed
qed

section \<open>Reading and accepting\<close>

lemma rest_calmer:
  assumes "rest_of c' = rest_of c"
  shows "calmer c c'" "send_buf c' = send_buf c"
proof -
  have "calmer c c' = calmer (rest_of c) (rest_of c')" "send_buf (rest_of d) = send_buf d" for d
    by (simp_all add: calmer_def rest_of_def send_buf_def)
  then show "calmer c c'" "send_buf c' = send_buf c"
    using assms by (simp add: calmer_def, metis)
qed

lemma flying_rest:
  assumes inv: "flying B s" and rest: "sock_rest s' = sock_rest s"
  shows "flying B s' \<and> send_buf (conns s' a) = send_buf (conns s a) \<and> fd (conns s' a) = fd (conns s a)"
proof -
  note r = serving_rest [OF rest]
  have c: "rest_of (conns s' b) = rest_of (conns s b)" for b
    using arg_cong [OF rest, of conns] by (simp add: sock_rest_def fun_eq_iff)
  have l: "m_connectionList s' = m_connectionList s"
    using arg_cong [OF rest, of m_connectionList] by (simp add: sock_rest_def)
  have "flight_inv B (m_send_msgList s) s'"
  proof (rule flight_inv_calmer [OF conjunct2 [OF inv [unfolded flying_def]]])
    fix b
    show "unat (sequence (conns s b)) \<le> unat (sequence (conns s' b))"
      using rest_calmer(1) [OF c] by (simp add: calmer_def)
    assume "b \<in> serving s'"
    with rest_calmer(1) [OF c, of b] r show "b \<in> serving s \<and> calmer (conns s b) (conns s' b) \<or>
      inrecyList (conns s' b) \<noteq> 1 \<and> iThrowsendCount (conns s' b) \<le> 0" by simp
  qed (simp add: l)
  moreover have "fd (conns s' a) = fd (conns s a)" using rest_calmer(1) [OF c] by (simp add: calmer_def)
  ultimately show ?thesis using r rest_calmer(2) [OF c] inv by (simp add: flying_def)
qed

lemma flying_read:
  assumes inv: "memory_inv w" "flying B (g_socket w)" and a: "a \<in> set (m_connectionList (g_socket w))"
    "rhandler (conns (g_socket w) a) = event_readable_request_handler"
    and ord: "orderly_read env ev a w" "ev AND EPOLLIN \<noteq> 0"
    and run: "readable_request (ee_os env) (ee_recv env) a w = Inr w'"
  shows "flying B (g_socket w') \<and> send_buf (conns (g_socket w') a) = send_buf (conns (g_socket w) a) \<and>
    (fd (conns (g_socket w') a) = fd (conns (g_socket w) a) \<or> fd (conns (g_socket w') a) = -1)"
proof -
  let ?s = "g_socket w" and ?c = "conns (g_socket w) a"
  from ord a(2) have o: "fd ?c \<noteq> -1" "recv_ok (recv_want ?c) (ee_recv env)"
    "ra_data (ee_recv env) = [] \<Longrightarrow> ra_errno (ee_recv env) = EAGAIN \<Longrightarrow> curstat ?c = PKG_HD_INIT \<or> curstat ?c = PKG_HD_RECVING"
    by (auto simp: orderly_read_def Let_def)
  with a have "a \<in> serving ?s" by (simp add: serving_def)
  then have wf: "recv_wf a ?c" "\<not> istimeout ?c" using inv by (simp_all add: memory_inv_def receiving_ok_def)
  show ?thesis
  proof (cases "quiet_ans ?c (ee_recv env)")
    case True
    from readable_reads_only [OF quiet_harmless [OF True] run]
    have "sock_rest (g_socket w') = sock_rest ?s" by (simp add: reads_only_def)
    from flying_rest [OF inv(2) this] show ?thesis by simp
  next
    case False
    from wf o(2) False run show ?thesis
    proof (cases rule: readable_not_quiet)
      case (stay s)
      have "sock_rest s = sock_rest ?s" unfolding stay(3) by (rule sock_rest_upd) (simp add: rest_of_def)
      from flying_rest [OF inv(2) this] show ?thesis by (simp add: stay(1))
    next
      case same
      with inv(2) show ?thesis by simp
    next
      case body
      with o(3) show ?thesis by blast
    next
      case (closed s)
      from flying_spares [OF inv(2) closed(2)] closed show ?thesis by simp
    qed
  qed
qed

lemma flying_accept_connection:
  assumes inv: "flying B s" and pool: "pool_inv s"
    and new: "fst (ae_new env) \<notin> set (m_connectionList s)" "fst (ae_new env) \<noteq> 0"
    and young: "\<forall>a \<in> set (m_connectionList s). unat (sequence (conns s a)) + 2 < 2 ^ 64"
    and run: "accept_connection env acc4 li connfd peer s = Inr s'"
  shows "flying B s'"
proof -
  define a where "a = fst (get_connection_item (ae_new env) s)"
  define s1 where "s1 = admitted env li connfd peer s"
  note eff = admitted_effect [where connfd = connfd and li = li and peer = peer, OF pool new a_def, folded s1_def]
  note seq = admitted_conn(7) [of env li connfd peer s, folded a_def s1_def]
  have list: "m_send_msgList s1 = m_send_msgList s"
    by (simp add: s1_def admitted_def get_connection_item_def case_prod_unfold split: list.splits)
  have idle: "iThrowsendCount (conns s1 a) = 0" "inrecyList (conns s1 a) = 0"
    by (simp_all add: s1_def a_def admitted_def epoll_oper_event_def GetOneToUse_def PutToStateMach_def
        case_prod_unfold Let_def)
  have old: "a \<in> set (m_connectionList s) \<longleftrightarrow> m_free_connectionList s \<noteq> []"
    using new(1) pool by (auto simp: a_def get_connection_item_def pool_inv_def split: list.splits)
  have up: "unat (sequence (conns s1 a) + 1) = unat (sequence (conns s1 a)) + 1"
    "a \<in> set (m_connectionList s) \<Longrightarrow> unat (sequence (conns s a)) \<le> unat (sequence (conns s1 a))"
    using seq old young unat_Suc [of "sequence (conns s a)"] unat_Suc [of "sequence (conns s1 a)"]
    by (cases "m_free_connectionList s = []"; force)+
  have "flight_inv B (m_send_msgList s) s1"
  proof (rule flight_inv_calmer [OF conjunct2 [OF inv [unfolded flying_def]] eff(8)])
    fix b
    assume "b \<in> set (m_connectionList s)"
    then show "unat (sequence (conns s b)) \<le> unat (sequence (conns s1 b))"
      using up(2) eff(12) [of b] by (cases "b = a") simp_all
  next
    fix b
    assume "b \<in> serving s1"
    then show "b \<in> serving s \<and> calmer (conns s b) (conns s1 b) \<or>
        inrecyList (conns s1 b) \<noteq> 1 \<and> iThrowsendCount (conns s1 b) \<le> 0"
      using idle eff(9) eff(12) [of b] by (cases "b = a") (simp_all add: serving_def calmer_def)
  qed
  then have inv1: "flying B s1" using inv by (simp add: flying_def list)
  from run a_def show ?thesis
  proof (cases rule: accept_connection_cases)
    case full
    with inv show ?thesis by (simp add: flying_def)
  next
    case refused
    then have s': "s' = free_connection_item a (upd_conn a (\<lambda>c. c\<lparr>fd := -1, sequence := sequence c + 1\<rparr>)
        (os_request (OsClose (fd (conns s1 a))) s1))"
      by (simp add: close_connection_cases s1_def split: if_splits)
    have "spares s1 s'"
      using up(1) by (intro closed_spares [where a = a])
        (simp_all add: s' free_connection_item_def output_of_def emitted_def)
    with inv1 show ?thesis by (rule flying_spares)
  next
    case admitted
    let ?u = "upd_conn a (\<lambda>c. c\<lparr>ping_update_time := ae_timer_now env\<rparr>) s1"
    have u: "flight_inv B ms ?u" if "flight_inv B ms s1" for ms
      by (rule flight_inv_calm_upd [OF that]) (simp_all add: calmer_def send_buf_def)
    have c: "conns s' = conns (if m_TimeEnable s1 = 1 then ?u else s1)"
      "m_connectionList s' = m_connectionList (if m_TimeEnable s1 = 1 then ?u else s1)" "m_send_msgList s' = m_send_msgList s1"
      by (simp_all add: admitted(4) s1_def [symmetric] Let_def AddToTimerQueue_def)
    from flight_inv_conns [OF c(1,2)] u inv1 show ?thesis by (simp add: flying_def c(3))
  qed
qed

lemma flying_accept:
  "event_accept env ans acc4 a s = Inr (u, s') \<Longrightarrow> flying B s \<Longrightarrow> pool_inv s \<Longrightarrow>
   fst (ae_new env) \<notin> set (m_connectionList s) \<Longrightarrow> fst (ae_new env) \<noteq> 0 \<Longrightarrow>
   \<forall>a \<in> set (m_connectionList s). unat (sequence (conns s a)) + 2 < 2 ^ 64 \<Longrightarrow> flying B s'"
  by (induction env ans acc4 a s rule: event_accept.induct)
    (auto simp: bindE_Inr_iff split: if_splits intro: flying_accept_connection)

section \<open>Every step keeps the messages under way\<close>

lemma flying_hangup:
  assumes run: "close_accepted_connection c1 c2 now a False
      (upd_conn a (\<lambda>c. c\<lparr>iThrowsendCount := iThrowsendCount c - 1\<rparr>) s) = Inr s'" and inv: "flying B s"
  shows "flying B s'"
proof -
  let ?s = "upd_conn a (\<lambda>c. c\<lparr>iThrowsendCount := iThrowsendCount c - 1\<rparr>) s"
  have "flying B ?s"
    using flight_inv_calm_upd [OF conjunct2 [OF inv [unfolded flying_def]], of a "\<lambda>c. c\<lparr>iThrowsendCount := iThrowsendCount c - 1\<rparr>"]
    using inv by (simp add: flying_def calmer_def send_buf_def)
  from flying_spares [OF this spares_close [OF run]] show ?thesis .
qed

lemma flying_handler:
  assumes inv: "memory_inv w" "pool_inv (g_socket w)" "flying B (g_socket w)" "env_ok env w" "young w"
    and a: "a \<in> set (m_connectionList (g_socket w))"
    and ord: "h = event_readable_request_handler \<Longrightarrow>
      rhandler (conns (g_socket w) a) = h \<and> orderly_read env ev a w \<and> ev AND EPOLLIN \<noteq> 0"
    and run: "run_event_handler env h a w = Inr w'"
  shows "flying B (g_socket w')"
proof (cases h)
  case event_accept_handler
  with run inv flying_accept show ?thesis
    by (auto simp: run_event_handler_def bindE_Inr_iff env_ok_def young_def)
next
  case event_readable_request_handler
  with ord have o: "rhandler (conns (g_socket w) a) = event_readable_request_handler" "orderly_read env ev a w"
    "ev AND EPOLLIN \<noteq> 0" by simp_all
  from flying_read [OF inv(1,3) a o] run event_readable_request_handler show ?thesis
    by (simp add: run_event_handler_def)
next
  case event_writable_request_handler
  with run flying_writable inv(3) show ?thesis by (auto simp: run_event_handler_def bindE_Inr_iff)
qed

text \<open>After a read the write handler still finds the message.\<close>

lemma writable_ready:
  assumes inv: "memory_inv w" "flying B (g_socket w)" and a: "a \<in> set (m_connectionList (g_socket w))"
    and ord: "orderly_read env ev a w" "orderly_write ev a w" "ev AND EPOLLOUT \<noteq> 0"
    and run: "(if ev AND EPOLLIN \<noteq> 0 then run_event_handler env (rhandler (conns (g_socket w) a)) a w else Inr w) = Inr w1"
  shows "whandler (conns (g_socket w1) a) = event_writable_request_handler" "under_way B a (conns (g_socket w) a)"
    "send_buf (conns (g_socket w1) a) = send_buf (conns (g_socket w) a)"
    "fd (conns (g_socket w1) a) = fd (conns (g_socket w) a) \<or> fd (conns (g_socket w1) a) = -1"
proof -
  let ?c = "conns (g_socket w) a"
  from ord(2,3) have h: "rhandler ?c = event_readable_request_handler" "whandler ?c = event_writable_request_handler"
    and c: "0 < fd ?c" "0 < iThrowsendCount ?c" by (simp_all add: orderly_write_def Let_def)
  have "keeps (g_socket w) (g_socket w1)"
    using run keeps_run_event_handler [of env "rhandler ?c" a w w1] a h(1)
    by (cases "ev AND EPOLLIN = 0") (auto simp: keeps_refl accepted_def)
  then have "whandler (conns (g_socket w1) a) = whandler ?c" by (simp add: keeps_def)
  moreover have "a \<in> serving (g_socket w)" using a h(1) c(1) by (simp add: serving_def)
  with inv(2) c have "under_way B a ?c" by (simp add: flying_def flight_inv_def flight_ok_def)
  moreover have "send_buf (conns (g_socket w1) a) = send_buf ?c"
    "fd (conns (g_socket w1) a) = fd ?c \<or> fd (conns (g_socket w1) a) = -1"
    using run h(1) flying_read [OF inv a h(1) ord(1)]
    by (cases "ev AND EPOLLIN = 0"; simp add: run_event_handler_def)+
  ultimately show "whandler (conns (g_socket w1) a) = event_writable_request_handler"
    "under_way B a ?c" "send_buf (conns (g_socket w1) a) = send_buf ?c"
    "fd (conns (g_socket w1) a) = fd ?c \<or> fd (conns (g_socket w1) a) = -1"
    using h(2) by simp_all
qed

lemma flying_event:
  assumes inv: "memory_inv w" "pool_inv (g_socket w)" "flying B (g_socket w)" "env_ok env w" "young w"
    and a: "a \<in> set (m_connectionList (g_socket w))" and ord: "orderly_read env ev a w" "orderly_write ev a w"
    and run: "process_event env ev a w = Inr w'"
  shows "flying B (g_socket w')"
proof (cases "a = 0")
  case True
  with run inv show ?thesis by (simp add: process_event_def)
next
  case False
  with run obtain w1 where w1: "(if ev AND EPOLLIN \<noteq> 0
      then run_event_handler env (rhandler (conns (g_socket w) a)) a w else Inr w) = Inr w1"
    by (auto simp: process_event_def bindE_Inr_iff)
  have fly1: "flying B (g_socket w1)"
    using w1 inv(3) flying_handler [OF inv a, of "rhandler (conns (g_socket w) a)" ev w1] ord(1)
    by (cases "ev AND EPOLLIN = 0") simp_all
  show ?thesis
  proof (cases "ev AND EPOLLOUT = 0")
    case True
    with False run w1 fly1 show ?thesis by (auto simp: process_event_def)
  next
    case nout: False
    note run1 = run [unfolded process_event_def if_not_P [OF False] w1 bindE_simps if_P [OF nout]
        writable_ready(1) [OF inv(1,3) a ord nout w1]]
    show ?thesis
    proof (rule if_E [OF run1])
      assume "bindE (close_accepted_connection (env_ctl_ok (ee_os env)) (env_close_ok (ee_os env))
          (env_now (ee_os env)) a False
          (upd_conn a (\<lambda>c. c\<lparr>iThrowsendCount := iThrowsendCount c - 1\<rparr>) (g_socket w1)))
        (\<lambda>s. Inr (w1\<lparr>g_socket := s\<rparr>)) = Inr w'"
      with flying_hangup fly1 show ?thesis by (auto simp: bindE_Inr_iff)
    next
      assume "run_event_handler env event_writable_request_handler a w1 = Inr w'"
      with flying_writable fly1 show ?thesis by (auto simp: run_event_handler_def bindE_Inr_iff)
    qed
  qed
qed

lemma flying_background:
  assumes inv: "memory_inv w" "sock_inv (g_socket w)" "flying B (g_socket w)" "young w" and step: "background_step w w'"
  shows "flying (B \<union> set (m_send_msgList (g_socket w'))) (g_socket w')"
proof -
  have more: "flying (B \<union> X) s" if "flying B s" for s X by (rule flying_mono [OF that]) simp
  have t: "timer_inv (g_socket w)" "pool_inv (g_socket w)" using inv(2) by (simp_all add: sock_inv_def)
  from step show ?thesis
  proof cases
    case (timer ctl_ok t s')
    show ?thesis
      by (rule more) (use flying_spares [OF inv(3) spares_timer_pass [OF t(1) timer(3,2)]] in \<open>simp add: timer(1)\<close>)
  next
    case (recycle clock stop s')
    show ?thesis
      by (rule more) (use flying_spares [OF inv(3) spares_recycle [OF t(2) recycle(2) inv(4) [unfolded young_def]]]
        in \<open>simp add: recycle(1)\<close>)
  next
    case (send ctl_ok ans t s' lv t' ans')
    show ?thesis by (rule more) (use flying_round [OF send(2) inv(3)] inv(1) in \<open>simp add: send(1) memory_inv_def\<close>)
  next
    case (take_msg i t p)
    show ?thesis by (rule more) (use inv(3) in \<open>simp add: take_msg(1)\<close>)
  next
    case (process i now)
    show ?thesis
    proof (cases "msg_held (m_threadvec (g_threadpool w) ! i)")
      case None
      show ?thesis by (rule more) (use process(2) None inv(3) in \<open>simp add: ThreadFunc_process_def\<close>)
    next
      case (Some m)
      with process(1) inv(1) have m: "is_request (set (m_connectionList (g_socket w))) m"
        by (auto simp: memory_inv_def requests_ok_def)
      from process(2) Some obtain r s where "ThreadRecvProc now m (g_socket w) = Inr (r, s)" "g_socket w' = s"
        by (auto simp: ThreadFunc_process_def bindE_Inr_iff Let_def case_prod_unfold)
      with flying_process [OF m _ inv(3)] show ?thesis by simp
    qed
  qed
qed

lemma flying_init: "worker_init w \<Longrightarrow> flying B (g_socket w)"
  using worker_init_idle(2) by (simp add: no_clients_def flying_def flight_inv_def)

definition safe_inv :: "world \<Rightarrow> bool" where
  "safe_inv w \<longleftrightarrow> memory_inv w \<and> sock_inv (g_socket w) \<and> online_inv (g_socket w) \<and> flying UNIV (g_socket w)"

interpretation flights: invariant_of worker_init orderly_step safe_inv
proof
  fix w w'
  assume inv: "safe_inv w" and step: "orderly_step w w'"
  have "memory_inv w' \<and> sock_inv (g_socket w') \<and> online_inv (g_socket w')"
    using safe.inv_step [OF _ step] inv by (simp add: safe_inv_def)
  moreover from step have "flying UNIV (g_socket w')"
  proof cases
    case (event env ev a)
    from inv have "memory_inv w" "pool_inv (g_socket w)" "flying UNIV (g_socket w)" by (simp_all add: safe_inv_def sock_inv_def)
    from flying_event [OF this event(3,6,2,4,5,1)] show ?thesis .
  next
    case background
    from flying_background [OF _ _ _ background(2,1), of UNIV] inv show ?thesis by (simp add: safe_inv_def)
  qed
  ultimately show "safe_inv w'" by (simp add: safe_inv_def)
qed (use safe.reach_inv [OF reach_init] flying_init in \<open>simp add: safe_inv_def\<close>)

section \<open>No bad access\<close>

lemma accept_never_bad_access: "event_accept env ans acc4 a s \<noteq> Inl BadAccess"
  by (induction env ans acc4 a s rule: event_accept.induct)
    (auto simp: accept_connection_def close_connection_cases bindE_def Let_def case_prod_unfold
      split: sum.splits if_splits)

lemma sendproc_safe:
  "sendlen (conns s a) = n \<Longrightarrow> (\<And>k. 0 < k \<Longrightarrow> k \<le> n \<Longrightarrow> offered (conns s a) k \<noteq> None) \<Longrightarrow>
   sendproc ans a s \<noteq> Inl BadAccess"
proof (induction ans a s rule: sendproc.induct)
  case (3 k ans a s)
  from 3(2) [of "min k n"] have "min k n = 0 \<or> offered (conns s a) (min k n) \<noteq> None"
    by (cases "min k n = 0") (auto simp del: min_def)
  with 3(1) show ?case by (auto simp: Let_def)
qed simp_all

lemma send_scan_safe: "\<forall>m \<in> set ms. wf_msg m \<Longrightarrow> send_scan ctl_ok ans ms s \<noteq> Inl BadAccess"
proof (induction ms arbitrary: ans s)
  case Nil
  then show ?case by simp
next
  case (Cons m ms)
  define a where "a = lp_curconn (msg_head m)"
  define s0 where "s0 = (upd_conn a (take_message m) s)\<lparr>m_msgtosend_count := m_msgtosend_count s - 1\<rparr>"
  have "offered (conns s0 a) k \<noteq> None" if "k \<le> sendlen (conns s0 a)" for k
    using that Cons.prems by (simp add: s0_def take_message_def offered_def wf_msg_def)
  then have sp: "sendproc ans a s0 \<noteq> Inl BadAccess" by (intro sendproc_safe [OF refl]) simp
  have ih: "send_scan ctl_ok ans ms s \<noteq> Inl BadAccess" for ans s by (rule Cons.IH) (use Cons.prems in simp)
  show ?case
    using sp ih
    by (auto simp: Let_def bindE_def a_def [symmetric] s0_def [symmetric] split: sum.splits prod.splits if_splits)
qed

lemma send_round_safe:
  assumes "replies_ok s"
  shows "SendMsgThread_round stop ctl_ok ans t s \<noteq> Inl BadAccess"
proof -
  have "send_scan ctl_ok ans (m_send_msgList s) s' \<noteq> Inl BadAccess" for s'
    using assms by (intro send_scan_safe) (simp add: replies_ok_def)
  then show ?thesis
    by (auto simp: SendMsgThread_round_eq Let_def bindE_def split: sum.splits prod.splits scan_end.splits)
qed

lemma process_safe:
  assumes "memory_inv w" "i < length (m_threadvec (g_threadpool w))"
  shows "ThreadFunc_process now i w \<noteq> Inl BadAccess"
proof (cases "msg_held (m_threadvec (g_threadpool w) ! i)")
  case None
  then show ?thesis by (simp add: ThreadFunc_process_def)
next
  case (Some m)
  with assms have "is_request (set (m_connectionList (g_socket w))) m" by (auto simp: memory_inv_def requests_ok_def)
  then obtain a sq p where m: "m = message_of a sq p" "valid_packet p" by (auto simp: is_request_def)
  have "ThreadRecvProc now m (g_socket w) \<noteq> Inl BadAccess"
    unfolding m(1) ThreadRecvProc_eq [OF m(2)]
    by (simp add: MsgSendInQueue_eq Let_def bindE_def split: option.splits)
  then show ?thesis
    using Some by (auto simp: ThreadFunc_process_def bindE_def Let_def case_prod_unfold split: sum.splits)
qed

lemma writable_safe:
  assumes "flight_valid (conns s a)"
  shows "writable_request ctl_ok ans a s \<noteq> Inl BadAccess"
proof -
  have "offered (conns s a) k \<noteq> None" if "k \<le> sendlen (conns s a)" for k
    using assms that by (auto simp: flight_valid_def offered_def split: option.splits)
  then have "sendproc ans a s \<noteq> Inl BadAccess" by (intro sendproc_safe [OF refl]) simp
  then show ?thesis by (auto simp: writable_request_def Let_def bindE_def split: sum.splits prod.splits)
qed

lemma run_handler_safe:
  assumes inv: "memory_inv w" and a: "a \<in> set (m_connectionList (g_socket w))"
    and h: "rhandler (conns (g_socket w) a) \<noteq> event_writable_request_handler"
    and ord: "orderly_read env ev a w" "ev AND EPOLLIN \<noteq> 0"
  shows "run_event_handler env (rhandler (conns (g_socket w) a)) a w \<noteq> Inl BadAccess"
proof (cases "rhandler (conns (g_socket w) a)")
  case event_accept_handler
  then show ?thesis
    using accept_never_bad_access by (auto simp: run_event_handler_def bindE_def split: sum.splits)
next
  case event_readable_request_handler
  with ord a have "a \<in> serving (g_socket w)" and ok: "recv_ok (recv_want (conns (g_socket w) a)) (ee_recv env)"
    by (simp_all add: orderly_read_def Let_def serving_def)
  with inv have "recv_wf a (conns (g_socket w) a)" by (simp add: memory_inv_def receiving_ok_def)
  from readable_request_safe [OF this ok] event_readable_request_handler show ?thesis
    by (simp add: run_event_handler_def)
qed (use h in simp)

lemma close_accepted_safe: "close_accepted_connection c1 c2 now a t s \<noteq> Inl BadAccess"
  by (simp add: close_accepted_connection_cases split: if_splits)

lemma event_safe:
  assumes inv: "memory_inv w" "flying B (g_socket w)" and a: "a \<in> set (m_connectionList (g_socket w))"
    and h: "rhandler (conns (g_socket w) a) \<noteq> event_writable_request_handler"
    and ord: "orderly_read env ev a w" "orderly_write ev a w"
  shows "process_event env ev a w \<noteq> Inl BadAccess"
proof (cases "a = 0")
  case True
  then show ?thesis by (simp add: process_event_def)
next
  case False
  let ?first = "if ev AND EPOLLIN \<noteq> 0 then run_event_handler env (rhandler (conns (g_socket w) a)) a w else Inr w"
  show ?thesis
  proof (cases ?first)
    case (Inl e)
    then show ?thesis
      using False run_handler_safe [OF inv(1) a h ord(1)]
      by (cases "ev AND EPOLLIN = 0") (auto simp: process_event_def)
  next
    case w1: (Inr w1)
    show ?thesis
    proof (cases "ev AND EPOLLOUT = 0")
      case True
      with False w1 show ?thesis by (simp add: process_event_def)
    next
      case nout: False
      note ready = writable_ready [OF inv a ord nout w1]
      have "flight_valid (conns (g_socket w1) a)"
        using under_way_valid [OF ready(2)] flight_valid_buf [OF ready(3)] by simp
      then have "run_event_handler env event_writable_request_handler a w1 \<noteq> Inl BadAccess"
        using writable_safe by (auto simp: run_event_handler_def bindE_def split: sum.splits)
      moreover have "bindE (close_accepted_connection (env_ctl_ok (ee_os env)) (env_close_ok (ee_os env))
          (env_now (ee_os env)) a False s) (\<lambda>s. Inr (w1\<lparr>g_socket := s\<rparr>)) \<noteq> Inl BadAccess" for s
        using close_accepted_safe by (auto simp: bindE_def split: sum.splits)
      ultimately show ?thesis
        unfolding process_event_def if_not_P [OF False] w1 bindE_simps if_P [OF nout] ready(1) by simp
    qed
  qed
qed

section \<open>After a failed send\<close>

text \<open>When \<open>send\<close> fails, the write handler drops the message and leaves the interest in \<open>EPOLLOUT\<close> and the length
  as they are: the next report makes it send from a null pointer.\<close>

lemma failed_send_keeps_interest:
  assumes "e \<noteq> EINTR" "e \<noteq> EAGAIN" "0 < sendlen (conns s a)"
  shows "\<exists>s'. writable_request ctl_ok (SendErr e # ans) a s = Inr (ans, s') \<and> os_trace s' = os_trace s \<and>
    events (conns s' a) = events (conns s a) \<and> p_sendbuf (conns s' a) = None \<and>
    (0 < k \<longrightarrow> writable_request ctl_ok (SendSpace k # ans) a s' = Inl BadAccess)"
  using assms by (auto simp: writable_request_def Let_def clear_send_def offered_def min_def)

section \<open>The property\<close>

text \<open>C11. A worker process stays memory safe. In every state it reaches from its start-up -- clients accepted,
  packets read in any pieces, connections closed and reused, requests processed, replies sent whole or in
  parts, the timer and the recycling thread at work, in any order -- no thread follows a bad pointer in its
  next step: not the epoll loop in handling a connection request, input, or room for output, not a thread of
  the pool in processing its message, not the send thread in its round, and a pass of the timer comes to its
  end. For in every such state the data the threads hand to each other are well-formed: what a connection has
  collected fits its buffers, every message that waits for the pool is the frame of a valid packet, every
  message that waits to be sent has a length field inside its array, and the rest of a message under way
  lies inside it. The answers of the operating system are arbitrary but for a \<open>recv\<close> without data inside a
  body and an \<open>EPOLLOUT\<close> for a connection on which no message is under way.\<close>

theorem worker_memory_safe:
  assumes "reach worker_init orderly_step w"
  shows "(\<forall>env ev a. a \<in> set (m_connectionList (g_socket w)) \<and> orderly_read env ev a w \<and> orderly_write ev a w \<and>
      rhandler (conns (g_socket w) a) \<noteq> event_writable_request_handler \<longrightarrow> process_event env ev a w \<noteq> Inl BadAccess) \<and>
    (\<forall>i now. i < length (m_threadvec (g_threadpool w)) \<longrightarrow> ThreadFunc_process now i w \<noteq> Inl BadAccess) \<and>
    (\<forall>stop ctl_ok ans t. SendMsgThread_round stop ctl_ok ans t (g_socket w) \<noteq> Inl BadAccess) \<and>
    (\<forall>ctl_ok t. m_waittime (g_socket w) > 0 \<longrightarrow> (\<exists>s. timer_pass ctl_ok True t (g_socket w) = Some (Inr s))) \<and>
    receiving_ok (g_socket w) \<and> requests_ok (set (m_connectionList (g_socket w))) (g_threadpool w) \<and>
    replies_ok (g_socket w) \<and>
    (\<forall>a \<in> serving (g_socket w). let c = conns (g_socket w) a in
       0 < fd c \<and> 0 < iThrowsendCount c \<longrightarrow> flight_valid c)"
proof -
  have inv: "memory_inv w" "sock_inv (g_socket w)" "flying UNIV (g_socket w)"
    using flights.reach_inv [OF assms] by (simp_all add: safe_inv_def)
  from inv(1) have ok: "receiving_ok (g_socket w)" "requests_ok (set (m_connectionList (g_socket w))) (g_threadpool w)"
    "replies_ok (g_socket w)"
    by (simp_all add: memory_inv_def)
  have "\<exists>s. timer_pass ctl_ok True t (g_socket w) = Some (Inr s)" if "m_waittime (g_socket w) > 0" for ctl_ok t
    using timer_pass_examined [OF _ _ _ that, of ctl_ok t] inv(2) by (auto simp: sock_inv_def)
  moreover have "\<forall>a \<in> serving (g_socket w). let c = conns (g_socket w) a in
      0 < fd c \<and> 0 < iThrowsendCount c \<longrightarrow> flight_valid c"
    using inv(3) under_way_valid by (fastforce simp: flying_def flight_inv_def flight_ok_def Let_def)
  ultimately show ?thesis
    using event_safe [OF inv(1,3)] process_safe [OF inv(1)] send_round_safe [OF ok(3)] ok by blast
qed

theorem worker_memory_safe_witness:
  "\<exists>w. reach worker_init orderly_step w \<and> 0 < iThrowsendCount (conns (g_socket w) 2) \<and>
     process_event ping_event EPOLLOUT 2 w \<noteq> Inl BadAccess"
proof -
  from ping_under_way obtain w0 w where "worker_trace ping_events w0"
    "traced_step w0 [Emit 9 (take 3 (reply_packet HandlePing))] w" and w: "m_connectionList (g_socket w) = [1, 2]"
    "rhandler (conns (g_socket w) 2) = event_readable_request_handler" "orderly_write EPOLLOUT 2 w" by blast
  then have reach: "reach worker_init orderly_step w" by (blast intro: trace_reach worker_trace.step)
  have "orderly_read ping_event EPOLLOUT 2 w" by (simp add: orderly_read_def Let_def)
  with worker_memory_safe [OF reach] w have "process_event ping_event EPOLLOUT 2 w \<noteq> Inl BadAccess" by simp
  with reach w(3) show ?thesis by (auto simp: orderly_write_def Let_def)
qed

end
