(* ===== verification/Ledger.thy ===== *)
theory Ledger
  imports Flight "HOL-Library.Sublist"
begin

text \<open>
  What a worker does with requests, from their arrival to the last byte of the answer. An abstract service
  keeps the requests that wait, those being worked on, and the replies to be sent; every run of the worker's
  threads is a run of this service with the same events. From it follow the books of a worker: no
  request is lost or handled twice, every reply answers a request, and nothing but replies is sent -- each to
  the connection, in the same use, that asked.
\<close>

section \<open>The service\<close>

text \<open>A request is the message the receiver makes of a packet (\<open>framed\<close>). Handling one produces at most one reply.\<close>

definition answers :: "byte list \<Rightarrow> byte list list \<Rightarrow> bool" where
  "answers m rs \<longleftrightarrow> rs = [] \<or>
     (\<exists>a sq p h. m = message_of a sq p \<and> request_of p = Some h \<and> rs = [message_of a sq (reply_packet h)])"

record service =
  waiting :: "byte list list"
  busy :: "byte list multiset"
  outbox :: "byte list list"
  replied :: "byte list list"

definition service_init :: service where
  "service_init = \<lparr>waiting = [], busy = {#}, outbox = [], replied = []\<rparr>"

text \<open>The events are those a worker shows.\<close>

inductive service_step :: "service \<Rightarrow> service_event \<Rightarrow> service \<Rightarrow> bool" where
  arrive: "framed m \<Longrightarrow> service_step s (Arrive m) (s\<lparr>waiting := waiting s @ [m]\<rparr>)"
| start: "waiting s = m # ms \<Longrightarrow> service_step s (Start m) (s\<lparr>waiting := ms, busy := add_mset m (busy s)\<rparr>)"
| finish: "m \<in># busy s \<Longrightarrow> answers m rs \<Longrightarrow> service_step s (Finish m rs)
    (s\<lparr>busy := busy s - {#m#}, outbox := outbox s @ rs, replied := replied s @ rs\<rparr>)"
| emit: "m \<in> set (replied s) \<Longrightarrow> sublist bs (packet_bytes m) \<Longrightarrow> service_step s (Emit f bs) s"

text \<open>Between events the service may take replies out of its outbox.\<close>

inductive service_run :: "service \<Rightarrow> service_event list \<Rightarrow> service \<Rightarrow> bool" for s where
  none: "service_run s [] s"
| act: "service_run s es t \<Longrightarrow> service_step t e u \<Longrightarrow> service_run s (es @ [e]) u"
| drain: "service_run s es t \<Longrightarrow> subseq ms (outbox t) \<Longrightarrow> service_run s es (t\<lparr>outbox := ms\<rparr>)"

section \<open>The books of a run\<close>

fun arrivals :: "service_event list \<Rightarrow> byte list list" where
  "arrivals [] = []"
| "arrivals (Arrive m # es) = m # arrivals es"
| "arrivals (_ # es) = arrivals es"

fun started :: "service_event list \<Rightarrow> byte list list" where
  "started [] = []"
| "started (Start m # es) = m # started es"
| "started (_ # es) = started es"

fun finished :: "service_event list \<Rightarrow> byte list list" where
  "finished [] = []"
| "finished (Finish m rs # es) = m # finished es"
| "finished (_ # es) = finished es"

fun replies :: "service_event list \<Rightarrow> byte list list" where
  "replies [] = []"
| "replies (Finish m rs # es) = rs @ replies es"
| "replies (_ # es) = replies es"

lemma books_append [simp]:
  "arrivals (es @ fs) = arrivals es @ arrivals fs" "started (es @ fs) = started es @ started fs"
  "finished (es @ fs) = finished es @ finished fs" "replies (es @ fs) = replies es @ replies fs"
  by (induction es rule: arrivals.induct) simp_all

text \<open>Requests start in the order of their arrival, everything started is finished once or still worked on,
  and what waits in the outbox are some of the replies made, in their order.\<close>

definition balanced :: "service_event list \<Rightarrow> service \<Rightarrow> bool" where
  "balanced es s \<longleftrightarrow> arrivals es = started es @ waiting s \<and> mset (started es) = busy s + mset (finished es) \<and>
     replied s = replies es \<and> subseq (outbox s) (replies es)"

definition entry_ok :: "byte list set \<Rightarrow> byte list set \<Rightarrow> service_event \<Rightarrow> bool" where
  "entry_ok A R e = (case e of
       Arrive m \<Rightarrow> framed m
     | Start m \<Rightarrow> m \<in> A
     | Finish m rs \<Rightarrow> m \<in> A \<and> answers m rs
     | Emit f bs \<Rightarrow> (\<exists>m \<in> R. sublist bs (packet_bytes m)))"

definition entries_ok :: "service_event list \<Rightarrow> bool" where
  "entries_ok es \<longleftrightarrow> (\<forall>e \<in> set es. entry_ok (set (arrivals es)) (set (replies es)) e)"

lemma entry_ok_mono: "entry_ok A R e \<Longrightarrow> A \<subseteq> A' \<Longrightarrow> R \<subseteq> R' \<Longrightarrow> entry_ok A' R' e"
  by (auto simp: entry_ok_def split: service_event.splits)

lemma entries_ok_snoc:
  assumes "entries_ok es" "entry_ok (set (arrivals es)) (set (replies es)) e"
  shows "entries_ok (es @ [e])"
  unfolding entries_ok_def
proof
  fix x
  assume "x \<in> set (es @ [e])"
  with assms have "entry_ok (set (arrivals es)) (set (replies es)) x" by (auto simp: entries_ok_def)
  then show "entry_ok (set (arrivals (es @ [e]))) (set (replies (es @ [e]))) x" by (rule entry_ok_mono) auto
qed

lemma step_balanced:
  assumes "balanced es s" "service_step s e t"
  shows "balanced (es @ [e]) t" "entry_ok (set (arrivals es)) (set (replies es)) e"
proof -
  have a: "set (started es) \<subseteq> set (arrivals es)" using assms(1) by (auto simp: balanced_def)
  have "set_mset (busy s) \<subseteq> set_mset (mset (started es))" using assms(1) by (auto simp: balanced_def)
  with a have b: "set_mset (busy s) \<subseteq> set (arrivals es)" by auto
  from assms(2) show "balanced (es @ [e]) t"
    by (cases rule: service_step.cases) (use assms(1) in \<open>auto simp: balanced_def intro: list_emb_append_mono\<close>)
  from assms(2) show "entry_ok (set (arrivals es)) (set (replies es)) e"
    by (cases rule: service_step.cases) (use assms(1) a b in \<open>auto simp: balanced_def entry_ok_def\<close>)
qed

lemma run_balanced: "service_run service_init es s \<Longrightarrow> balanced es s \<and> entries_ok es"
proof (induction rule: service_run.induct)
  case none
  then show ?case by (simp add: balanced_def service_init_def entries_ok_def)
next
  case (act es t e u)
  with step_balanced [OF _ act.hyps(2), of es] entries_ok_snoc show ?case by blast
next
  case (drain es t ms)
  then show ?case by (auto simp: balanced_def intro: subseq_order.trans)
qed

section \<open>What is sent\<close>

lemma sendproc_emits:
  assumes "rest_in m (conns s a)" "sendproc ans a s = Inr (r, ans', s')"
  obtains es where "emitted s' = emitted s @ es" "\<forall>(f, bs) \<in> set es. f = fd (conns s a) \<and> sublist bs (packet_bytes m)"
  using sendproc_cases [OF assms(2)]
proof (elim disjE conjE exE)
  fix bs
  assume r: "0 < r" "offered (conns s a) (nat r) = Some bs" "s' = os_request (OsSend (fd (conns s a)) bs) s" "nat r \<le> sendlen (conns s a)"
  from assms(1) obtain i where i: "p_sendbuf (conns s a) = Some (MSG_HEADER_LEN + i)" "p_msgsend (conns s a) = Some m"
    "i + sendlen (conns s a) \<le> length (packet_bytes m)" by (auto simp: rest_in_def)
  have "i + nat r \<le> unat (ntohs (pkgLen (pkg_head m)))" using i(3) r(4) by (simp add: packet_bytes_def)
  then have "bs = take (nat r) (drop i (packet_bytes m))"
    using sendproc_offered [OF r(1,2) i(1,2)] by (simp add: packet_bytes_def drop_take add.commute)
  then have "sublist bs (packet_bytes m)" by (metis append_take_drop_id sublist_appendI)
  with r(3) that [of "[(fd (conns s a), bs)]"] show thesis by simp
qed (use that [of "[]"] in simp_all)

text \<open>Bytes of a message of \<open>B\<close>, on the descriptor of its connection, which is still in the same use.\<close>

definition addressed :: "csocket \<Rightarrow> byte list set \<Rightarrow> int \<times> byte list \<Rightarrow> bool" where
  "addressed s B e \<longleftrightarrow> (\<exists>m \<in> B. let c = conns s (lp_curconn (msg_head m)) in
     (fst e = fd c \<or> fst e = -1) \<and> token_value (msg_cursequence (msg_head m)) = unat (sequence c) \<and>
     sublist (snd e) (packet_bytes m))"

lemma addressed_mono: "addressed s B e \<Longrightarrow> B \<subseteq> B' \<Longrightarrow> addressed s B' e"
  by (auto simp: addressed_def)

lemma addressed_sides: "sides s s' \<Longrightarrow> addressed s' B e = addressed s B e"
  by (simp add: addressed_def sides_def send_side_def recv_view_def Let_def)

lemma sides_refl [simp]: "sides s s"
  by (simp add: sides_def)

lemma scan_emits:
  "send_scan ctl_ok ans ms s = Inr (e, kept, ans', s') \<Longrightarrow> \<forall>m \<in> set ms. wf_msg m \<Longrightarrow>
   \<exists>es. emitted s' = emitted s @ es \<and> (\<forall>x \<in> set es. addressed s (set ms) x) \<and> subseq kept ms"
proof (induction ms arbitrary: ans s kept)
  case Nil
  then show ?case by simp
next
  case (Cons m ms)
  define a where "a = lp_curconn (msg_head m)"
  have wf: "\<forall>m \<in> set ms. wf_msg m" "wf_msg m" using Cons.prems(2) by simp_all
  have next_msg: "\<exists>es. emitted s' = emitted s @ es \<and> (\<forall>x \<in> set es. addressed s (set (m # ms)) x) \<and> subseq kept (m # ms)"
    if "send_scan ctl_ok ans1 ms u = Inr (e, kept, ans', s')" "sides s u" "emitted u = emitted s @ es"
      "\<forall>x \<in> set es. addressed s {m} x" for u es ans1
  proof -
    from Cons.IH [OF that(1) wf(1)] obtain fs where
      "emitted s' = emitted u @ fs" "\<forall>x \<in> set fs. addressed u (set ms) x" "subseq kept ms" by blast
    with that(3,4) addressed_sides [OF that(2)] show ?thesis
      by (intro exI [of _ "es @ fs"]) (auto intro: addressed_mono)
  qed
  from Cons.prems(1) a_def show ?case
  proof (cases rule: send_scan_step)
    case outdated
    show ?thesis
      by (rule next_msg [OF outdated(2), of "[]"]) (simp_all add: siding.R_upd)
  next
    case (busy kept')
    from Cons.IH [OF busy(4) wf(1)] busy(3) show ?thesis by (auto intro: addressed_mono)
  next
    case (send r ans1 s0 s1)
    have s0: "sides s s0" unfolding send(3) by (intro siding.R_intros) simp_all
    have "rest_in m (conns s0 a)" using rest_in_take [OF wf(2)] by (simp add: send(3))
    from sendproc_emits [OF this send(4)] obtain es where
      es: "emitted s1 = emitted s0 @ es" "\<forall>(f, bs) \<in> set es. f = fd (conns s0 a) \<and> sublist bs (packet_bytes m)" .
    have ad: "\<forall>x \<in> set es. addressed s {m} x"
      using es(2) send(1) by (auto simp: addressed_def a_def [symmetric] judge_token_value send(3))
    have em: "emitted s1 = emitted s @ es" using es(1) by (simp add: send(3))
    note s1 = siding.sendproc [OF send(4) s0]
    have sd: "sides s (upd_conn a f s1)" if "send_side (conns s1 a) (f (conns s1 a))" for f
      using that by (intro siding.R_upd s1)
    from send(5) show ?thesis
    proof (elim disjE conjE)
      assume "send_scan ctl_ok ans1 ms (upd_conn a (\<lambda>c. (clear_send c)\<lparr>iThrowsendCount := 0\<rparr>) s1) = Inr (e, kept, ans', s')"
      from next_msg [OF this sd] em ad show ?thesis by simp
    next
      assume "send_scan ctl_ok ans1 ms (snd (epoll_oper_event ctl_ok (fd (conns s1 a)) EPOLL_CTL_MOD EPOLLOUT 0 a
            (upd_conn a (\<lambda>c. (sent_part (nat r) c)\<lparr>iThrowsendCount := iThrowsendCount c + 1\<rparr>) s1))) =
          Inr (e, kept, ans', s')"
      from next_msg [OF this siding.R_epoll [OF sd]] em ad show ?thesis by simp
    next
      assume "kept = ms" "s' = upd_conn a (\<lambda>c. c\<lparr>sendlen_already := sendlen_already c + nat r\<rparr>) s1"
      with em ad show ?thesis by (intro exI [of _ es]) (auto intro: addressed_mono)
    next
      assume "send_scan ctl_ok ans1 ms (upd_conn a (\<lambda>c. (clear_send c)\<lparr>iThrowsendCount := 0\<rparr>)
           (upd_conn a (\<lambda>c. c\<lparr>sendlen_already := sendlen_already c + nat r\<rparr>) s1)) = Inr (e, kept, ans', s')"
      from next_msg [OF this siding.R_upd [OF sd]] em ad show ?thesis by simp
    qed
  qed
qed

lemma round_emits:
  assumes "SendMsgThread_round stop ctl_ok ans t s = Inr (lv, t', ans', s')" "replies_ok s"
  shows "\<exists>es. emitted s' = emitted s @ es \<and> (\<forall>x \<in> set es. addressed s (set (m_send_msgList s)) x) \<and>
    subseq (m_send_msgList s') (m_send_msgList s)"
proof (cases "stop \<or> ifshutdown t \<or> \<not> m_msgtosend_count s > 0")
  case True
  with assms(1) have "s' = s\<lparr>m_sendsem := m_sendsem s - 1\<rparr>"
    by (auto simp: SendMsgThread_round_eq Let_def split: if_splits)
  then show ?thesis by simp
next
  case False
  from SendMsgThread_round_visit [OF assms(1) False] obtain e kept s1 where
    scan: "send_scan ctl_ok ans (m_send_msgList s) (s\<lparr>m_sendsem := m_sendsem s - 1\<rparr>) = Inr (e, kept, ans', s1)"
    and s': "s' = s1\<lparr>m_send_msgList := kept, m_sendmutex := (if e = ScanReturn then True else m_sendmutex s1)\<rparr>"
    by metis
  have "sides s (s\<lparr>m_sendsem := m_sendsem s - 1\<rparr>)" by (simp add: sides_def)
  from scan_emits [OF scan] assms(2) addressed_sides [OF this] show ?thesis by (auto simp: s' replies_ok_def)
qed

lemma writable_emits:
  assumes "rest_in m (conns s a)" "writable_request ctl_ok ans a s = Inr (ans', s')"
  obtains es where "emitted s' = emitted s @ es" "\<forall>(f, bs) \<in> set es. f = fd (conns s a) \<and> sublist bs (packet_bytes m)"
proof -
  from assms(2) obtain r s1 ans1 where sp: "sendproc ans a s = Inr (r, ans1, s1)"
    by (auto simp: writable_request_def Let_def bindE_Inr_iff)
  have "emitted s' = emitted s1" using assms(2) sp by (auto simp: writable_request_def Let_def split: if_splits)
  with sendproc_emits [OF assms(1) sp] that show thesis by metis
qed

section \<open>What an event adds\<close>

text \<open>New requests at the end of the pool's queue, and nothing sent.\<close>

definition receives :: "world \<Rightarrow> byte list list \<Rightarrow> world \<Rightarrow> bool" where
  "receives w ms w' \<longleftrightarrow> output_of (g_socket w') = output_of (g_socket w) \<and>
     m_threadvec (g_threadpool w') = m_threadvec (g_threadpool w) \<and>
     m_msgqueue (g_threadpool w') = m_msgqueue (g_threadpool w) @ map Some ms \<and> (\<forall>m \<in> set ms. framed m)"

lemma receives_none: "output_of s = output_of (g_socket w) \<Longrightarrow> receives w [] (w\<lparr>g_socket := s\<rparr>)"
  by (simp add: receives_def)

lemma output_rest: "sock_rest s' = sock_rest s \<Longrightarrow> output_of s' = output_of s"
  by (drule arg_cong [of _ _ output_of]) (simp add: sock_rest_def output_of_def emitted_def)

lemma read_receives:
  assumes inv: "memory_inv w" and a: "a \<in> set (m_connectionList (g_socket w))"
    "rhandler (conns (g_socket w) a) = event_readable_request_handler"
    and ord: "orderly_read env ev a w" "ev AND EPOLLIN \<noteq> 0"
    and run: "readable_request (ee_os env) (ee_recv env) a w = Inr w'"
  shows "\<exists>ms. receives w ms w'"
proof -
  let ?s = "g_socket w" and ?c = "conns (g_socket w) a"
  from ord a(2) have o: "fd ?c \<noteq> -1" "recv_ok (recv_want ?c) (ee_recv env)"
    "ra_data (ee_recv env) = [] \<Longrightarrow> ra_errno (ee_recv env) = EAGAIN \<Longrightarrow> curstat ?c = PKG_HD_INIT \<or> curstat ?c = PKG_HD_RECVING"
    by (auto simp: orderly_read_def Let_def)
  with a have "a \<in> serving ?s" by (simp add: serving_def)
  then have wf: "recv_wf a ?c" "\<not> istimeout ?c" using inv by (simp_all add: memory_inv_def receiving_ok_def)
  show ?thesis
  proof (cases "quiet_ans ?c (ee_recv env)")
    case True
    from readable_request_consumes [OF wf(1) True, of "ee_os env"] run
    have c: "consumes a (pending ?c @ ra_data (ee_recv env)) w w'" by auto
    let ?ps = "fst (frames (pending ?c @ ra_data (ee_recv env)))"
    have "framed (message_of a (sequence ?c) p)" if "p \<in> set ?ps" for p
      using frames_valid [OF that] by (auto simp: framed_def)
    moreover from readable_reads_only [OF quiet_harmless [OF True] run]
    have rest: "sock_rest (g_socket w') = sock_rest ?s" "pool_rest (g_threadpool w') = pool_rest (g_threadpool w)"
      by (simp_all add: reads_only_def)
    note output_rest [OF rest(1)]
    moreover from arg_cong [OF rest(2), of m_threadvec]
    have "m_threadvec (g_threadpool w') = m_threadvec (g_threadpool w)" by (simp add: pool_rest_def)
    ultimately show ?thesis
      using c by (intro exI [of _ "map (message_of a (sequence ?c)) ?ps"]) (auto simp: receives_def consumes_def Let_def)
  next
    case False
    from wf o(2) False run show ?thesis
    proof (cases rule: readable_not_quiet)
      case (stay s)
      have "sock_rest s = sock_rest ?s" unfolding stay(3) by (rule sock_rest_upd) (simp add: rest_of_def)
      from receives_none [OF output_rest [OF this]] stay(1) show ?thesis by blast
    next
      case same
      have "receives w [] w" by (simp add: receives_def)
      with same show ?thesis by blast
    next
      case body
      with o(3) show ?thesis by blast
    next
      case (closed s)
      then have "output_of s = output_of ?s" by (simp add: spares_def)
      from receives_none [OF this] closed(1) show ?thesis by blast
    qed
  qed
qed

lemma accept_connection_output:
  assumes "accept_connection env acc4 li connfd peer s = Inr s'"
  shows "output_of s' = output_of s"
proof -
  define a where "a = fst (get_connection_item (ae_new env) s)"
  have "output_of (snd (get_connection_item (ae_new env) s)) = output_of s"
    by (simp add: get_connection_item_def output_of_def emitted_def split: list.splits)
  then have adm: "output_of (admitted env li connfd peer s) = output_of s"
    by (simp add: admitted_def case_prod_unfold Let_def)
  from assms a_def show ?thesis
  proof (cases rule: accept_connection_cases)
    case refused
    have "output_of (free_connection_item a u) = output_of u" for u
      by (simp add: free_connection_item_def output_of_def emitted_def)
    with refused(4) adm show ?thesis by (auto simp: close_connection_cases split: if_splits)
  next
    case admitted
    have "output_of (AddToTimerQueue now a u) = output_of u" for now u
      by (simp add: AddToTimerQueue_def Let_def output_of_def emitted_def)
    with admitted(4) adm show ?thesis by (simp add: Let_def split: if_splits)
  qed simp
qed

lemma event_accept_output: "event_accept env ans acc4 a s = Inr (u, s') \<Longrightarrow> output_of s' = output_of s"
  by (induction env ans acc4 a s rule: event_accept.induct)
    (auto simp: bindE_Inr_iff split: if_splits dest: accept_connection_output)

lemma handler_receives:
  assumes inv: "memory_inv w" and a: "a \<in> set (m_connectionList (g_socket w))"
    and h: "rhandler (conns (g_socket w) a) \<noteq> event_writable_request_handler"
    and ord: "orderly_read env ev a w"
    and run: "(if ev AND EPOLLIN \<noteq> 0 then run_event_handler env (rhandler (conns (g_socket w) a)) a w else Inr w) = Inr w'"
  shows "\<exists>ms. receives w ms w'"
proof (cases "ev AND EPOLLIN = 0")
  case True
  with run have "receives w [] w'" by (simp add: receives_def)
  then show ?thesis by blast
next
  case False
  show ?thesis
  proof (cases "rhandler (conns (g_socket w) a)")
    case event_accept_handler
    with run False obtain u s' where acc: "event_accept (ee_accept env) (ee_accepts env) (use_accept4 w) a (g_socket w)
        = Inr (u, s')" and w': "w' = w\<lparr>g_socket := s', use_accept4 := u\<rparr>"
      by (auto simp: run_event_handler_def bindE_Inr_iff)
    from event_accept_output [OF acc] have "receives w [] w'" by (simp add: w' receives_def)
    then show ?thesis by blast
  next
    case event_readable_request_handler
    with run False read_receives [OF inv a _ ord] show ?thesis by (simp add: run_event_handler_def)
  qed (use h in simp)
qed

lemma event_books:
  assumes inv: "memory_inv w" "pool_inv (g_socket w)" "flying B (g_socket w)" "env_ok env w" "young w"
    and a: "a \<in> set (m_connectionList (g_socket w))"
    and h: "rhandler (conns (g_socket w) a) \<noteq> event_writable_request_handler"
    and ord: "orderly_read env ev a w" "orderly_write ev a w"
    and run: "process_event env ev a w = Inr w'"
  obtains ms es where "m_threadvec (g_threadpool w') = m_threadvec (g_threadpool w)"
    "m_msgqueue (g_threadpool w') = m_msgqueue (g_threadpool w) @ map Some ms" "\<forall>m \<in> set ms. framed m"
    "m_send_msgList (g_socket w') = m_send_msgList (g_socket w)"
    "emitted (g_socket w') = emitted (g_socket w) @ es" "\<forall>e \<in> set es. addressed (g_socket w) B e"
proof (cases "a = 0")
  case True
  with run show thesis by (intro that [of "[]" "[]"]) (simp_all add: process_event_def)
next
  case False
  with run obtain w1 where w1: "(if ev AND EPOLLIN \<noteq> 0
      then run_event_handler env (rhandler (conns (g_socket w) a)) a w else Inr w) = Inr w1"
    by (auto simp: process_event_def bindE_Inr_iff)
  from handler_receives [OF inv(1) a h ord(1) w1] obtain ms where ms: "receives w ms w1" by blast
  note books = that
  have no_more: thesis if "m_threadvec (g_threadpool w') = m_threadvec (g_threadpool w1)"
      "m_msgqueue (g_threadpool w') = m_msgqueue (g_threadpool w1)" "output_of (g_socket w') = output_of (g_socket w1)"
    using ms that by (intro books [of ms "[]"]) (simp_all add: receives_def output_of_def)
  show thesis
  proof (cases "ev AND EPOLLOUT = 0")
    case True
    with False run w1 have "w' = w1" by (auto simp: process_event_def)
    then show thesis by (intro no_more) simp_all
  next
    case nout: False
    note ready = writable_ready [OF inv(1,3) a ord nout w1]
    note run1 = run [unfolded process_event_def if_not_P [OF False] w1 bindE_simps if_P [OF nout] ready(1)]
    show thesis
    proof (rule if_E [OF run1])
      assume "bindE (close_accepted_connection (env_ctl_ok (ee_os env)) (env_close_ok (ee_os env))
          (env_now (ee_os env)) a False
          (upd_conn a (\<lambda>c. c\<lparr>iThrowsendCount := iThrowsendCount c - 1\<rparr>) (g_socket w1)))
        (\<lambda>s. Inr (w1\<lparr>g_socket := s\<rparr>)) = Inr w'"
      then show thesis by (intro no_more) (auto simp: bindE_Inr_iff dest: close_accepted_output)
    next
      assume "run_event_handler env event_writable_request_handler a w1 = Inr w'"
      then obtain ans' s' where wr: "writable_request (env_ctl_ok (ee_os env)) (ee_send env) a (g_socket w1) = Inr (ans', s')"
        and w': "w' = w1\<lparr>g_socket := s'\<rparr>" by (auto simp: run_event_handler_def bindE_Inr_iff)
      from ready(2) obtain m where m: "m \<in> B" "rest_in m (conns (g_socket w) a)" "lp_curconn (msg_head m) = a"
        "token_value (msg_cursequence (msg_head m)) = unat (sequence (conns (g_socket w) a))"
        by (auto simp: under_way_def)
      then have "rest_in m (conns (g_socket w1) a)" using rest_in_buf [OF ready(3)] by simp
      from writable_emits [OF this wr] obtain es where es: "emitted s' = emitted (g_socket w1) @ es"
        "\<forall>(f, bs) \<in> set es. f = fd (conns (g_socket w1) a) \<and> sublist bs (packet_bytes m)" .
      have "\<forall>e \<in> set es. addressed (g_socket w) B e"
        using es(2) m ready(4) by (fastforce simp: addressed_def Let_def)
      with ms es(1) writable_list [OF wr] show thesis
        by (intro that [of ms es]) (simp_all add: w' receives_def output_of_def)
    qed
  qed
qed

section \<open>Every run of the worker is a run of the service\<close>

definition describes :: "world \<Rightarrow> service \<Rightarrow> bool" where
  "describes w s \<longleftrightarrow> waiting s = queued (g_threadpool w) \<and> busy s = held (g_threadpool w) \<and>
     outbox s = m_send_msgList (g_socket w) \<and> flying (set (replied s)) (g_socket w)"

lemma run_arrivals:
  "service_run r es s \<Longrightarrow> \<forall>m \<in> set ms. framed m \<Longrightarrow>
   service_run r (es @ map Arrive ms) (s\<lparr>waiting := waiting s @ ms\<rparr>)"
proof (induction ms rule: rev_induct)
  case (snoc m ms)
  then have "service_run r (es @ map Arrive ms) (s\<lparr>waiting := waiting s @ ms\<rparr>)" by simp
  from service_run.act [OF this service_step.arrive [of m]] snoc.prems(2) show ?case by simp
qed simp

lemma run_sendings:
  "service_run r es s \<Longrightarrow> \<forall>x \<in> set xs. \<exists>m \<in> set (replied s). sublist (snd x) (packet_bytes m) \<Longrightarrow>
   service_run r (es @ map (\<lambda>(f, bs). Emit f bs) xs) s"
proof (induction xs rule: rev_induct)
  case (snoc x xs)
  then have run: "service_run r (es @ map (\<lambda>(f, bs). Emit f bs) xs) s" by simp
  from snoc.prems(2) obtain m where "m \<in> set (replied s)" "sublist (snd x) (packet_bytes m)" by auto
  from service_run.act [OF run service_step.emit [OF this, of "fst x"]] show ?case by (simp add: case_prod_unfold)
qed simp

lemma addressed_sublist: "addressed s B x \<Longrightarrow> \<exists>m \<in> B. sublist (snd x) (packet_bytes m)"
  by (auto simp: addressed_def Let_def)

lemma describes_event:
  assumes d: "service_run r es s" "describes w s" and inv: "memory_inv w" "pool_inv (g_socket w)" "env_ok env w" "young w"
    and a: "a \<in> set (m_connectionList (g_socket w))"
    and h: "rhandler (conns (g_socket w) a) \<noteq> event_writable_request_handler"
    and ord: "orderly_read env ev a w" "orderly_write ev a w" and run: "process_event env ev a w = Inr w'"
  shows "\<exists>s'. service_run r (es @ map Arrive (added (queued (g_threadpool w)) (queued (g_threadpool w'))) @ sendings w w') s' \<and>
    describes w' s'"
proof -
  have fly: "flying (set (replied s)) (g_socket w)" using d(2) by (simp add: describes_def)
  from event_books [OF inv(1,2) fly inv(3,4) a h ord run] obtain ms xs where
    b: "m_threadvec (g_threadpool w') = m_threadvec (g_threadpool w)"
    "m_msgqueue (g_threadpool w') = m_msgqueue (g_threadpool w) @ map Some ms" "\<forall>m \<in> set ms. framed m"
    "m_send_msgList (g_socket w') = m_send_msgList (g_socket w)"
    "emitted (g_socket w') = emitted (g_socket w) @ xs" "\<forall>x \<in> set xs. addressed (g_socket w) (set (replied s)) x" .
  let ?s = "s\<lparr>waiting := waiting s @ ms\<rparr>"
  have q: "queued (g_threadpool w') = queued (g_threadpool w) @ ms" by (simp add: queued_def b(2) comp_def)
  have "service_run r ((es @ map Arrive ms) @ map (\<lambda>(f, bs). Emit f bs) xs) ?s"
    by (intro run_sendings run_arrivals [OF d(1) b(3)]) (use b(6) addressed_sublist in fastforce)
  moreover have "flying (set (replied s)) (g_socket w')"
    by (rule flying_event [OF inv(1,2) fly inv(3,4) a ord run])
  then have "describes w' ?s" using d(2) q by (simp add: describes_def held_def b(1,4))
  ultimately show ?thesis by (auto simp: q sendings_def b(5))
qed

text \<open>The helper threads.\<close>

lemma describes_socket:
  assumes d: "service_run r es s" "describes w s"
    and fly: "flying (set (replied s)) s'" and out: "subseq (m_send_msgList s') (m_send_msgList (g_socket w))"
    and em: "emitted s' = emitted (g_socket w) @ xs" "\<forall>x \<in> set xs. addressed (g_socket w) (set (m_send_msgList (g_socket w))) x"
  shows "\<exists>t. service_run r (es @ sendings w (w\<lparr>g_socket := s'\<rparr>)) t \<and> describes (w\<lparr>g_socket := s'\<rparr>) t"
proof -
  let ?t = "s\<lparr>outbox := m_send_msgList s'\<rparr>"
  have sub: "set (m_send_msgList (g_socket w)) \<subseteq> set (replied s)" using d(2) by (simp add: describes_def flying_def)
  have "service_run r es ?t" by (rule service_run.drain [OF d(1)]) (use d(2) out in \<open>simp add: describes_def\<close>)
  then have "service_run r (es @ map (\<lambda>(f, bs). Emit f bs) xs) ?t"
    by (rule run_sendings) (use em(2) sub addressed_sublist in fastforce)
  with d(2) fly show ?thesis by (intro exI [of _ ?t]) (simp add: sendings_def em(1) describes_def)
qed

lemma describes_spares:
  assumes "service_run r es s" "describes w s" "spares (g_socket w) s'"
  shows "\<exists>t. service_run r (es @ sendings w (w\<lparr>g_socket := s'\<rparr>)) t \<and> describes (w\<lparr>g_socket := s'\<rparr>) t"
proof (rule describes_socket [OF assms(1,2)])
  show "flying (set (replied s)) s'" using assms(2,3) flying_spares by (auto simp: describes_def)
  have "output_of s' = output_of (g_socket w)" using assms(3) by (simp add: spares_def)
  then show "subseq (m_send_msgList s') (m_send_msgList (g_socket w))" "emitted s' = emitted (g_socket w) @ []"
    by (simp_all add: output_of_def)
qed simp

text \<open>The threads of the pool.\<close>

lemma held_update:
  assumes "i < length (m_threadvec p)" "m_threadvec p' = (m_threadvec p)[i := t]"
  shows "held p' + mset (holding (m_threadvec p ! i)) = held p + mset (holding t)"
proof -
  have "mset (concat (map holding (ts[i := t]))) + mset (holding (ts ! i)) = mset (concat (map holding ts)) + mset (holding t)"
    if "i < length ts" for ts
    using that
  proof (induction ts arbitrary: i)
    case (Cons x ts)
    then show ?case by (cases i) (auto simp: ac_simps)
  qed simp
  from this [OF assms(1)] show ?thesis by (simp add: held_def assms(2))
qed

lemma describes_take:
  assumes d: "service_run r es s" "describes w s" and ok: "requests_ok L (g_threadpool w)"
    and i: "i < length (m_threadvec (g_threadpool w))" "msg_held (m_threadvec (g_threadpool w) ! i) = None"
    and nxt: "next_of (ThreadFunc_take (m_threadvec (g_threadpool w) ! i) (g_threadpool w)) = (t, p)"
  shows "\<exists>s'. service_run r (es @ map Start (holding t)) s' \<and> describes (w\<lparr>g_threadpool := set_thread i t p\<rparr>) s'"
proof -
  let ?p = "g_threadpool w"
  have free: "holding (m_threadvec ?p ! i) = []" using i(2) by (simp add: holding_def)
  from nxt i(2) consider (idle) "holding t = []" "m_msgqueue p = m_msgqueue ?p" "m_threadvec p = m_threadvec ?p"
    | (takes) x where "m_msgqueue ?p = x # m_msgqueue p" "msg_held t = x" "m_threadvec p = m_threadvec ?p"
    by (fastforce simp: ThreadFunc_take_eq get_msg_item_def holding_def Let_def split: if_splits list.splits)
  then show ?thesis
  proof cases
    case idle
    have "held (set_thread i t p) = held ?p"
      using held_update [OF i(1), of "set_thread i t p" t] idle free by (simp add: set_thread_def)
    with d idle show ?thesis by (intro exI [of _ s]) (simp add: describes_def queued_def set_thread_def)
  next
    case takes
    from ok takes(1) obtain m where m: "x = Some m" by (auto simp: requests_ok_def)
    let ?s = "s\<lparr>waiting := queued p, busy := add_mset m (busy s)\<rparr>"
    have "waiting s = m # queued p" using d(2) takes(1) m by (simp add: describes_def queued_def)
    from service_run.act [OF d(1) service_step.start [OF this]] have "service_run r (es @ [Start m]) ?s" .
    moreover have "held (set_thread i t p) = add_mset m (held ?p)"
      using held_update [OF i(1), of "set_thread i t p" t] takes m free by (simp add: set_thread_def holding_def)
    then have "describes (w\<lparr>g_threadpool := set_thread i t p\<rparr>) ?s"
      using d(2) by (simp add: describes_def queued_def set_thread_def)
    ultimately show ?thesis using takes(2) m by (auto simp: holding_def)
  qed
qed

lemma process_replies:
  assumes m: "is_request L m" and run: "ThreadRecvProc now m s = Inr (r, s')"
  obtains rs where "m_send_msgList s' = m_send_msgList s @ rs" "answers m rs"
proof -
  from m obtain a sq p where m: "m = message_of a sq p" "valid_packet p" by (auto simp: is_request_def)
  from run consider "s' = s" | h where "request_of p = Some h"
    "MsgSendInQueue (message_of a sq (reply_packet h)) (upd_conn a (serve now h) s) = Inr s'"
    by (auto simp: m(1) ThreadRecvProc_eq [OF m(2)] bindE_Inr_iff split: if_splits option.splits)
  then show thesis
  proof cases
    case 1
    then show thesis by (intro that [of "[]"]) (simp_all add: answers_def)
  next
    case 2
    then have "m_send_msgList s' = m_send_msgList s \<or> m_send_msgList s' = m_send_msgList s @ [message_of a sq (reply_packet h)]"
      by (auto simp: MsgSendInQueue_eq Let_def split: if_splits)
    then show thesis
    proof
      assume "m_send_msgList s' = m_send_msgList s"
      then show thesis by (intro that [of "[]"]) (simp_all add: answers_def)
    next
      assume "m_send_msgList s' = m_send_msgList s @ [message_of a sq (reply_packet h)]"
      with 2(1) m(1) show thesis by (intro that) (auto simp: answers_def)
    qed
  qed
qed

lemma describes_process:
  assumes d: "service_run r es s" "describes w s" and inv: "memory_inv w"
    and i: "i < length (m_threadvec (g_threadpool w))" "msg_held (m_threadvec (g_threadpool w) ! i) = Some m"
    and run: "ThreadFunc_process now i w = Inr w'"
  shows "\<exists>s'. service_run r (es @ [Finish m (added (m_send_msgList (g_socket w)) (m_send_msgList (g_socket w')))]) s' \<and>
    describes w' s'"
proof -
  let ?p = "g_threadpool w" and ?L = "set (m_connectionList (g_socket w))"
  from inv i have m: "is_request ?L m" by (auto simp: memory_inv_def requests_ok_def)
  obtain t p where f: "ThreadFunc_finish (m_threadvec ?p ! i) ?p = (t, p)" by fastforce
  from run i(2) f obtain x s1 where x: "ThreadRecvProc now m (g_socket w) = Inr (x, s1)"
    and w': "w' = w\<lparr>g_socket := s1, g_threadpool := set_thread i t p\<rparr>"
    by (auto simp: ThreadFunc_process_def bindE_Inr_iff)
  from process_replies [OF m x] obtain rs where rs: "m_send_msgList s1 = m_send_msgList (g_socket w) @ rs" "answers m rs" .
  have fin: "msg_held t = None" "m_threadvec p = m_threadvec ?p" "m_msgqueue p = m_msgqueue ?p"
    using f by (auto simp: ThreadFunc_finish_eq)
  have h: "held ?p = add_mset m (held (set_thread i t p))"
    using held_update [OF i(1), of "set_thread i t p" t] i(2) fin by (simp add: set_thread_def holding_def)
  let ?s = "s\<lparr>busy := busy s - {#m#}, outbox := outbox s @ rs, replied := replied s @ rs\<rparr>"
  have "m \<in># busy s" using d(2) h by (simp add: describes_def)
  from service_run.act [OF d(1) service_step.finish [OF this rs(2)]] have "service_run r (es @ [Finish m rs]) ?s" .
  moreover have "flying (set (replied s) \<union> set (m_send_msgList s1)) s1"
    using flying_process [OF m x] d(2) by (simp add: describes_def)
  then have "flying (set (replied s @ rs)) s1"
    by (rule flying_mono) (use d(2) rs(1) in \<open>auto simp: describes_def flying_def\<close>)
  then have "describes w' ?s"
    using d(2) h rs(1) fin by (simp add: describes_def w' queued_def set_thread_def)
  ultimately show ?thesis by (auto simp: w' rs(1))
qed

lemma describes_step:
  assumes d: "service_run r es s" "describes w s" and inv: "safe_inv w" and step: "traced_step w fs w'"
  shows "\<exists>s'. service_run r (es @ fs) s' \<and> describes w' s'"
proof -
  have i: "memory_inv w" "pool_inv (g_socket w)" "timer_inv (g_socket w)" "replies_ok (g_socket w)"
    "requests_ok (set (m_connectionList (g_socket w))) (g_threadpool w)"
    using inv by (simp_all add: safe_inv_def sock_inv_def memory_inv_def)
  have fly: "flying (set (replied s)) (g_socket w)" using d(2) by (simp add: describes_def)
  from step show ?thesis
  proof cases
    case (event env ev a)
    from describes_event [OF d i(1,2) event(4,8,3,5,6,7,2)] show ?thesis by (simp add: event(1))
  next
    case (timer ctl_ok t s')
    from describes_spares [OF d spares_timer_pass [OF i(3) timer(3,2)]] show ?thesis by (simp add: timer)
  next
    case (recycle clock stop s')
    from describes_spares [OF d spares_recycle [OF i(2) recycle(2) recycle(3) [unfolded young_def]]]
    show ?thesis by (simp add: recycle)
  next
    case (send ctl_ok ans t lv t' ans' s')
    from round_emits [OF send(2) i(4)] obtain xs where
      "emitted s' = emitted (g_socket w) @ xs" "\<forall>x \<in> set xs. addressed (g_socket w) (set (m_send_msgList (g_socket w))) x"
      "subseq (m_send_msgList s') (m_send_msgList (g_socket w))" by blast
    from describes_socket [OF d flying_round [OF send(2) fly i(4)] this(3,1,2)] show ?thesis by (simp add: send)
  next
    case (take_msg i t p)
    from describes_take [OF d i(5) take_msg(3-5)] show ?thesis by (simp add: take_msg)
  next
    case (process i m now)
    from describes_process [OF d i(1) process(2-4)] show ?thesis by (simp add: process(1))
  qed
qed

lemma trace_safe: "worker_trace es w \<Longrightarrow> safe_inv w"
  by (rule flights.reach_inv [OF trace_reach])

lemma trace_described: "worker_trace es w \<Longrightarrow> \<exists>s. service_run service_init es s \<and> describes w s"
proof (induction rule: worker_trace.induct)
  case (start w)
  from worker_init_idle(3) [OF start] obtain p ok where
    p: "m_msgqueue p = []" "m_threadvec p = []" "Create ok p = Inr (g_threadpool w)" by blast
  from create_threads_fresh [OF p(3) [unfolded Create_def]] obtain k where
    "g_threadpool w = p\<lparr>m_threadvec := replicate k ThreadItem_new\<rparr>" using p(2) by auto
  then have pool: "queued (g_threadpool w) = []" "held (g_threadpool w) = {#}"
    using p(1) by (simp_all add: queued_def held_def holding_def ThreadItem_new_def)
  from worker_init_idle(2) [OF start] have "m_send_msgList (g_socket w) = []" by (simp add: no_clients_def)
  with pool flying_init [OF start] have "describes w service_init" by (simp add: describes_def service_init_def)
  with service_run.none show ?case by blast
next
  case (step es w fs w')
  then obtain s where "service_run service_init es s" "describes w s" by blast
  from describes_step [OF this trace_safe [OF step.hyps(1)] step.hyps(2)] show ?case .
qed

section \<open>Replies and the requests they answer\<close>

lemma reply_finished: "r \<in> set (replies es) \<Longrightarrow> \<exists>m rs. Finish m rs \<in> set es \<and> r \<in> set rs"
  by (induction es rule: replies.induct) auto

lemma finish_facts:
  assumes "entries_ok es" "Finish m rs \<in> set es"
  shows "m \<in> set (arrivals es)" "answers m rs" "length rs \<le> 1"
proof -
  from assms have "entry_ok (set (arrivals es)) (set (replies es)) (Finish m rs)" unfolding entries_ok_def by blast
  then show "m \<in> set (arrivals es)" "answers m rs" "length rs \<le> 1" by (auto simp: entry_ok_def answers_def)
qed

lemma reply_answers:
  assumes "entries_ok es" "r \<in> set (replies es)"
  obtains a sq p h where "message_of a sq p \<in> set (arrivals es)" "request_of p = Some h"
    "r = message_of a sq (reply_packet h)"
proof -
  from reply_finished [OF assms(2)] obtain m rs where f: "Finish m rs \<in> set es" "r \<in> set rs" by blast
  from finish_facts(1,2) [OF assms(1) f(1)] f(2) that show thesis by (auto simp: answers_def)
qed

lemma packet_of_reply: "packet_bytes (message_of a sq (reply_packet h)) = reply_packet h"
proof -
  have "unat (of_nat (PKG_HEADER_LEN + reply_len h) :: u16) = PKG_HEADER_LEN + reply_len h"
    by (rule unat_of_nat_small) (use reply_len_small [of h] in simp)
  then have "unat (ntohs (pkgLen (pkg_head (message_of a sq (reply_packet h))))) = length (reply_packet h)"
    by (simp only: pkg_head_message_of length_reply_packet le_add1 reply_packet_head pkg_header.select_convs ntohs_htons)
  then show ?thesis by (simp only: packet_bytes_def drop_message_of) simp
qed

text \<open>What one step sends.\<close>

lemma step_addressed:
  assumes inv: "safe_inv w" "flying B (g_socket w)" and step: "traced_step w fs w'" and e: "Emit f bs \<in> set fs"
  shows "addressed (g_socket w) B (f, bs)"
proof -
  have i: "memory_inv w" "pool_inv (g_socket w)" "timer_inv (g_socket w)" "replies_ok (g_socket w)"
    using inv(1) by (simp_all add: safe_inv_def sock_inv_def memory_inv_def)
  have quiet: False if "spares (g_socket w) s'" "w' = w\<lparr>g_socket := s'\<rparr>" "fs = sendings w w'" for s'
  proof -
    have "emitted s' = emitted (g_socket w)" using that(1) by (simp add: spares_def output_of_def)
    with e that(2,3) show False by (simp add: sendings_def)
  qed
  from step show ?thesis
  proof cases
    case (event env ev a)
    from event_books [OF i(1,2) inv(2) event(4,8,3,5,6,7,2)] obtain ms xs where
      "emitted (g_socket w') = emitted (g_socket w) @ xs" "\<forall>x \<in> set xs. addressed (g_socket w) B x" by metis
    with e event(1) show ?thesis by (auto simp: sendings_def)
  next
    case (timer ctl_ok t s')
    with quiet [OF spares_timer_pass [OF i(3) timer(3,2)]] show ?thesis by simp
  next
    case (recycle clock stop s')
    with quiet [OF spares_recycle [OF i(2) recycle(2) recycle(3) [unfolded young_def]]] show ?thesis by simp
  next
    case (send ctl_ok ans t lv t' ans' s')
    from round_emits [OF send(2) i(4)] obtain xs where
      "emitted s' = emitted (g_socket w) @ xs" "\<forall>x \<in> set xs. addressed (g_socket w) (set (m_send_msgList (g_socket w))) x"
      by blast
    with e send(1,4) inv(2) show ?thesis by (auto simp: sendings_def flying_def intro: addressed_mono)
  qed (use e in auto)
qed

lemma replies_at_most: "\<forall>m rs. Finish m rs \<in> set es \<longrightarrow> length rs \<le> 1 \<Longrightarrow> length (replies es) \<le> length (finished es)"
proof (induction es rule: replies.induct)
  case (2 m rs es)
  then have "length rs \<le> 1" "length (replies es) \<le> length (finished es)" by auto
  then show ?case by simp
qed auto

section \<open>The properties\<close>

text \<open>C2. A worker implements a request-reply service. Whatever its threads do, in whatever order, the events of
  its run are a run of the abstract service, which takes requests in the order of their arrival, has some of
  them in work, produces at most one reply for each, sends pieces of replies only; and the queue of the
  pool, the messages its threads hold, and the send queue are the waiting requests, those in work and the
  outbox of the service.\<close>

theorem worker_refines_service:
  assumes "worker_trace es w"
  shows "\<exists>s. service_run service_init es s \<and> waiting s = queued (g_threadpool w) \<and>
    busy s = held (g_threadpool w) \<and> outbox s = m_send_msgList (g_socket w)"
  using trace_described [OF assms] by (auto simp: describes_def)

theorem worker_refines_service_witness:
  "\<exists>w s. worker_trace ping_events w \<and> service_run service_init ping_events s \<and>
     outbox s = m_send_msgList (g_socket w)"
proof -
  from ping_under_way obtain w where "worker_trace ping_events w" by metis
  with worker_refines_service [OF this] show ?thesis by blast
qed

text \<open>C3. The books of a worker balance. In every run, the requests the receiver has queued are, in their order,
  those a pool thread has begun and those still waiting; every request begun is either held by exactly one
  thread or has been finished exactly once; what was finished had arrived, and its reply, if there is
  one, is the reply its packet asks for, to the connection and the use it came from; the send queue holds
  some of these replies in the order they were made, and there are never more replies than requests.\<close>

theorem requests_accounted:
  assumes "worker_trace es w"
  shows "arrivals es = started es @ queued (g_threadpool w) \<and>
    mset (started es) = held (g_threadpool w) + mset (finished es) \<and>
    (\<forall>m rs. Finish m rs \<in> set es \<longrightarrow> m \<in> set (arrivals es) \<and> answers m rs) \<and>
    subseq (m_send_msgList (g_socket w)) (replies es) \<and> length (replies es) \<le> length (arrivals es)"
proof -
  from trace_described [OF assms] obtain s where s: "service_run service_init es s" "describes w s" by blast
  note b = run_balanced [OF s(1)]
  have "length (replies es) \<le> length (finished es)"
    using b finish_facts(3) by (intro replies_at_most) blast
  moreover have "size (mset (started es)) = size (busy s) + size (mset (finished es))"
    using b by (simp only: balanced_def size_union)
  moreover have "length (started es) \<le> length (arrivals es)" using b by (simp add: balanced_def)
  ultimately have "length (replies es) \<le> length (arrivals es)" by simp
  moreover have "\<forall>m rs. Finish m rs \<in> set es \<longrightarrow> m \<in> set (arrivals es) \<and> answers m rs"
  proof -
    have "entries_ok es" using b by (simp add: balanced_def)
    then show ?thesis by (blast intro: finish_facts)
  qed
  ultimately show ?thesis using b s(2) by (simp add: balanced_def describes_def)
qed

theorem requests_accounted_witness:
  "\<exists>w. worker_trace ping_events w \<and> queued (g_threadpool w) = [] \<and> held (g_threadpool w) = {#} \<and>
     subseq (m_send_msgList (g_socket w)) [message_of 2 1 (reply_packet HandlePing)]"
proof -
  from ping_under_way obtain w where "worker_trace ping_events w" by metis
  with requests_accounted [OF this] show ?thesis by (auto simp: ping_events_def)
qed

text \<open>C4. Replies reach the client that asked, and nothing else is sent. Every piece of data a worker hands to
  \<open>send\<close>, in any step of any run, is a contiguous part of the reply packet to a request that arrived
  before; it goes to the descriptor of the connection the request came from (or to the invalid descriptor -1,
  when that connection was closed in the same event), and the connection object is still in the use for which
  the request was accepted: no data of one client reach another that got the same connection object later.\<close>

theorem replies_stay_in_session:
  assumes "worker_trace es w" "traced_step w fs w'" "Emit f bs \<in> set fs"
  shows "\<exists>a sq p h. message_of a sq p \<in> set (arrivals es) \<and> request_of p = Some h \<and> sublist bs (reply_packet h) \<and>
    (f = fd (conns (g_socket w) a) \<or> f = -1) \<and> token_value sq = unat (sequence (conns (g_socket w) a))"
proof -
  from trace_described [OF assms(1)] obtain s where s: "service_run service_init es s" "describes w s" by blast
  note b = run_balanced [OF s(1)]
  have "flying (set (replies es)) (g_socket w)" using b s(2) by (simp add: balanced_def describes_def)
  from step_addressed [OF trace_safe [OF assms(1)] this assms(2,3)] obtain m where
    m: "m \<in> set (replies es)" "f = fd (conns (g_socket w) (lp_curconn (msg_head m))) \<or> f = -1"
    "token_value (msg_cursequence (msg_head m)) = unat (sequence (conns (g_socket w) (lp_curconn (msg_head m))))"
    "sublist bs (packet_bytes m)" by (auto simp: addressed_def Let_def)
  from b m(1) obtain a sq p h where "message_of a sq p \<in> set (arrivals es)" "request_of p = Some h"
    "m = message_of a sq (reply_packet h)" by (blast elim: reply_answers)
  with m(2-4) show ?thesis by (auto simp: packet_of_reply)
qed

theorem replies_stay_in_session_witness:
  "\<exists>a sq p h. message_of a sq p \<in> set (arrivals ping_events) \<and> request_of p = Some h \<and>
     sublist (take 3 (reply_packet HandlePing)) (reply_packet h)"
proof -
  from ping_under_way obtain w0 w where "worker_trace ping_events w0"
    "traced_step w0 [Emit 9 (take 3 (reply_packet HandlePing))] w" by metis
  from replies_stay_in_session [OF this, of 9 "take 3 (reply_packet HandlePing)"] show ?thesis by auto
qed

end
