(* ===== verification/Locking.thy ===== *)
theory Locking
  imports Workers Objects
begin

text \<open>
  The order in which the threads of a worker take their mutexes. Every operation that locks has a definition
  for the calls of \<open>pthread_mutex_lock\<close> and \<open>pthread_mutex_unlock\<close> it makes, in the order of the code and with
  its conditions; the constructor of a \<open>CLock\<close> is a call of the first, the end of its scope one of the second.
  No operation takes two mutexes against one fixed order, so no set of threads can block each other -- unless
  a mutex is left locked, which two operations do.
\<close>

section \<open>The calls each operation makes\<close>

datatype lock_act = Lock mutex | Unlock mutex

text \<open>\<open>get_connection_item\<close> and \<open>free_connection_item\<close>.\<close>

definition connection_item_locks :: "lock_act list" where
  "connection_item_locks = [Lock SocketMutex, Unlock SocketMutex]"

definition close_connection_locks :: "addr \<Rightarrow> lock_act list" where
  "close_connection_locks a = Lock (ConnMutex a) # connection_item_locks @ [Unlock (ConnMutex a)]"

definition InRecyConnQueue_locks :: "addr \<Rightarrow> csocket \<Rightarrow> lock_act list" where
  "InRecyConnQueue_locks a s = (if inrecyList (conns s a) = 1 then [] else [Lock RecyMutex, Unlock RecyMutex])"

definition close_accepted_locks :: "addr \<Rightarrow> bool \<Rightarrow> csocket \<Rightarrow> lock_act list" where
  "close_accepted_locks a istimeout_close s =
     Lock (ConnMutex a) #
       (if fd (conns s a) = -1 then []
        else if \<not> istimeout_close \<and> istimeout (conns s a) then []
        else InRecyConnQueue_locks a s) @
     [Unlock (ConnMutex a)]"

text \<open>The recycling thread returns connections while it holds its own mutex.\<close>

fun recy_scan_locks :: "(nat \<Rightarrow> int) \<Rightarrow> (nat \<Rightarrow> bool) \<Rightarrow> nat \<Rightarrow> addr list \<Rightarrow> csocket \<Rightarrow> lock_act list" where
  "recy_scan_locks clock stop i [] s = []"
| "recy_scan_locks clock stop i (a # q) s =
     (if m_delay_time s + inrevy_time (conns s a) < clock i \<and> \<not> stop i
      then connection_item_locks @ recy_scan_locks clock stop (i + 1) q (recycle_one a s)
      else recy_scan_locks clock stop (i + 1) q s)"

definition RecyConnThread_locks ::
  "bool \<Rightarrow> bool \<Rightarrow> (nat \<Rightarrow> int) \<Rightarrow> (nat \<Rightarrow> bool) \<Rightarrow> csocket \<Rightarrow> lock_act list" where
  "RecyConnThread_locks stopEvent shutdown clock stop s =
     (if m_recy_connection_count s > 0 then
        Lock RecyMutex #
          (if stopEvent \<or> shutdown then concat (map (\<lambda>_. connection_item_locks) (m_recy_connectionList s))
           else recy_scan_locks clock stop 0 (m_recy_connectionList s) s) @
        [Unlock RecyMutex]
      else [])"

text \<open>The thread pool: \<open>InMsgRecv\<close>, and one pass of \<open>ThreadFunc\<close>; a thread that waits for its condition gives the
  mutex up and takes it again.\<close>

definition pool_locks :: "lock_act list" where
  "pool_locks = [Lock PoolMutex, Unlock PoolMutex]"

text \<open>The timer: a new entry, and a pass of the thread over those whose time has come.\<close>

definition AddToTimerQueue_locks :: "lock_act list" where
  "AddToTimerQueue_locks = [Lock TimerMutex, Unlock TimerMutex]"

definition TimeCheckingProc_locks :: "msg_header \<Rightarrow> int \<Rightarrow> csocket \<Rightarrow> lock_act list" where
  "TimeCheckingProc_locks h cur_time s =
     (let a = lp_curconn h; c = conns s a in
      [Lock (ConnMutex a), Unlock (ConnMutex a)] @
      (if \<not> judge_token c (msg_cursequence h) then []
       else if cur_time - ping_update_time c > 3 * m_waittime s then
         close_accepted_locks a True (DeleteFromTimerQueue h (upd_conn a (\<lambda>c. c\<lparr>istimeout := True\<rparr>) s))
       else []))"

fun exam_list_locks :: "bool \<Rightarrow> bool \<Rightarrow> int \<Rightarrow> msg_header list \<Rightarrow> int \<Rightarrow> csocket \<Rightarrow> lock_act list" where
  "exam_list_locks ctl_ok close_ok now [] cur_time s = []"
| "exam_list_locks ctl_ok close_ok now (h # hs) cur_time s =
     TimeCheckingProc_locks h cur_time s @
     (case TimeCheckingProc ctl_ok close_ok now h cur_time s of
        Inl _ \<Rightarrow> []
      | Inr s \<Rightarrow> exam_list_locks ctl_ok close_ok now hs cur_time s)"

definition timer_pass_locks :: "bool \<Rightarrow> bool \<Rightarrow> int \<Rightarrow> csocket \<Rightarrow> lock_act list" where
  "timer_pass_locks ctl_ok close_ok cur_time s =
     (if m_timer_value s > cur_time \<or> m_timermap_size s = 0 then []
      else Lock TimerMutex #
        (case collect_overtime cur_time s of
           Some (Inr (hs, s)) \<Rightarrow> exam_list_locks ctl_ok close_ok cur_time hs cur_time s @ [Unlock TimerMutex]
         | _ \<Rightarrow> []))"

text \<open>Sending: the early returns of \<open>MsgSendInQueue\<close> and of the send thread do not unlock.\<close>

definition MsgSendInQueue_locks :: "byte list \<Rightarrow> csocket \<Rightarrow> lock_act list" where
  "MsgSendInQueue_locks msg s =
     Lock SendMutex #
       (if m_msgtosend_count s > 1000 then []
        else if isend_count (conns s (lp_curconn (msg_head msg))) > 400 then []
        else [Unlock SendMutex])"

definition SendMsgThread_locks :: "bool \<Rightarrow> bool \<Rightarrow> send_ans list \<Rightarrow> thread_item \<Rightarrow> csocket \<Rightarrow> lock_act list" where
  "SendMsgThread_locks stopEvent ctl_ok ans t s =
     (let s = s\<lparr>m_sendsem := m_sendsem s - 1\<rparr> in
      if stopEvent \<or> ifshutdown t then []
      else if m_msgtosend_count s > 0 then
        Lock SendMutex #
          (case send_scan ctl_ok ans (m_send_msgList s) s of
             Inr (ScanDone, _) \<Rightarrow> [Unlock SendMutex]
           | _ \<Rightarrow> [])
      else [])"

text \<open>The handlers; the reply has the header of the message.\<close>

definition handler_locks :: "logic_handler \<Rightarrow> addr \<Rightarrow> byte list \<Rightarrow> csocket \<Rightarrow> lock_act list" where
  "handler_locks h a msg s = (case h of
      HandlePing \<Rightarrow>
        if \<not> body_length_is (pkg_head msg) LEN_STRUCT_PING then []
        else Lock (ConnMutex a) # MsgSendInQueue_locks msg s @ [Unlock (ConnMutex a)]
    | _ \<Rightarrow>
        if \<not> body_length_is (pkg_head msg) (if h = HandleRegister then LEN_STRUCT_REGISTER else LEN_STRUCT_LOGIN) then []
        else if \<not> judge_token (conns s a) (msg_cursequence (msg_head msg)) then []
        else [Lock (ConnMutex a), Unlock (ConnMutex a)] @
          (if \<not> judge_token (conns s a) (msg_cursequence (msg_head msg)) then []
           else MsgSendInQueue_locks msg s))"

text \<open>A section is what one of these operations does from a point where its thread holds nothing.\<close>

inductive lock_section :: "lock_act list \<Rightarrow> bool" where
  item: "lock_section connection_item_locks"
| close: "lock_section (close_connection_locks a)"
| close_accepted: "lock_section (close_accepted_locks a False s)"
| recycle: "lock_section (RecyConnThread_locks stopEvent shutdown clock stop s)"
| pool: "lock_section pool_locks"
| add: "lock_section AddToTimerQueue_locks"
| timer: "timer_pass ctl_ok True t s = Some (Inr s') \<Longrightarrow> lock_section (timer_pass_locks ctl_ok True t s)"
| send: "SendMsgThread_round stopEvent ctl_ok ans t s = Inr r \<Longrightarrow>
    lock_section (SendMsgThread_locks stopEvent ctl_ok ans t s)"
| handler: "lock_section (handler_locks h a msg s)"

section \<open>The order\<close>

fun rank :: "mutex \<Rightarrow> nat" where
  "rank TimerMutex = 0"
| "rank (ConnMutex a) = 1"
| "rank RecyMutex = 2"
| "rank SocketMutex = 3"
| "rank SendMutex = 3"
| "rank PoolMutex = 3"

text \<open>The mutexes held after some calls, and that each call respects the order.\<close>

fun held_after :: "mutex list \<Rightarrow> lock_act list \<Rightarrow> mutex list" where
  "held_after H [] = H"
| "held_after H (Lock m # as) = held_after (m # H) as"
| "held_after H (Unlock m # as) = held_after (remove1 m H) as"

fun in_order :: "mutex list \<Rightarrow> lock_act list \<Rightarrow> bool" where
  "in_order H [] = True"
| "in_order H (Lock m # as) \<longleftrightarrow> (\<forall>h \<in> set H. rank h < rank m) \<and> in_order (m # H) as"
| "in_order H (Unlock m # as) \<longleftrightarrow> m \<in> set H \<and> in_order (remove1 m H) as"

lemma held_after_append [simp]: "held_after H (as @ bs) = held_after (held_after H as) bs"
  by (induction H as rule: held_after.induct) simp_all

lemma in_order_append [simp]: "in_order H (as @ bs) \<longleftrightarrow> in_order H as \<and> in_order (held_after H as) bs"
  by (induction H as rule: in_order.induct) simp_all

text \<open>Operations that give back what they take.\<close>

definition neat :: "mutex list \<Rightarrow> lock_act list \<Rightarrow> bool" where
  "neat H as \<longleftrightarrow> in_order H as \<and> held_after H as = H"

lemma neat_Nil [simp]: "neat H []"
  by (simp add: neat_def)

lemma neat_append: "neat H as \<Longrightarrow> neat H bs \<Longrightarrow> neat H (as @ bs)"
  by (simp add: neat_def)

lemma neat_concat: "\<forall>as \<in> set ass. neat H as \<Longrightarrow> neat H (concat ass)"
  by (induction ass) (simp_all add: neat_append)

lemma neat_bracket: "\<forall>h \<in> set H. rank h < rank m \<Longrightarrow> neat (m # H) as \<Longrightarrow> neat H (Lock m # as @ [Unlock m])"
  by (simp add: neat_def)

lemma neat_item: "\<forall>h \<in> set H. rank h < 3 \<Longrightarrow> neat H connection_item_locks"
  by (simp add: neat_def connection_item_locks_def)

lemma neat_close_accepted: "\<forall>h \<in> set H. rank h < 1 \<Longrightarrow> neat H (close_accepted_locks a t s)"
  unfolding close_accepted_locks_def
  by (rule neat_bracket) (auto simp: InRecyConnQueue_locks_def neat_def)

lemma neat_recy_scan: "neat [RecyMutex] (recy_scan_locks clock stop i q s)"
  by (induction clock stop i q s rule: recy_scan_locks.induct) (auto intro!: neat_append neat_item)

lemma neat_recycle: "neat [] (RecyConnThread_locks stopEvent shutdown clock stop s)"
  unfolding RecyConnThread_locks_def
  by (auto intro!: neat_bracket neat_concat neat_item neat_recy_scan)

lemma neat_TimeChecking: "neat [TimerMutex] (TimeCheckingProc_locks h cur_time s)"
  unfolding TimeCheckingProc_locks_def Let_def
  by (rule neat_append) (auto simp: neat_def intro: neat_close_accepted [unfolded neat_def, THEN conjunct1]
      neat_close_accepted [unfolded neat_def, THEN conjunct2])

lemma neat_exam_list: "neat [TimerMutex] (exam_list_locks ctl_ok close_ok now hs cur_time s)"
  by (induction ctl_ok close_ok now hs cur_time s rule: exam_list_locks.induct)
    (auto intro: neat_append neat_TimeChecking split: sum.splits)

lemma neat_timer:
  assumes "timer_pass ctl_ok close_ok t s = Some (Inr s')"
  shows "neat [] (timer_pass_locks ctl_ok close_ok t s)"
proof (cases "m_timer_value s > t \<or> m_timermap_size s = 0")
  case True
  then show ?thesis by (simp add: timer_pass_locks_def)
next
  case False
  with assms obtain hs s1 where "collect_overtime t s = Some (Inr (hs, s1))"
    by (auto simp: timer_pass_def split: option.splits sum.splits)
  with False show ?thesis by (simp add: timer_pass_locks_def neat_bracket neat_exam_list)
qed

text \<open>The two operations that may leave something behind.\<close>

definition tidy :: "lock_act list \<Rightarrow> bool" where
  "tidy as \<longleftrightarrow> in_order [] as \<and> (held_after [] as = [] \<or> held_after [] as = [SendMutex])"

lemma neat_tidy: "neat [] as \<Longrightarrow> tidy as"
  by (simp add: neat_def tidy_def)

lemma tidy_handler: "tidy (handler_locks h a msg s)"
  by (simp add: tidy_def handler_locks_def MsgSendInQueue_locks_def split: logic_handler.split)

lemma tidy_send: "tidy (SendMsgThread_locks stopEvent ctl_ok ans t s)"
  by (simp add: tidy_def SendMsgThread_locks_def Let_def split: sum.split prod.split scan_end.split)

lemma tidy_section: "lock_section as \<Longrightarrow> tidy as"
proof (induction rule: lock_section.induct)
  case (close a)
  show ?case
    unfolding close_connection_locks_def by (intro neat_tidy neat_bracket neat_item) simp_all
next
  case (timer ctl_ok t s s')
  then show ?case by (intro neat_tidy neat_timer)
qed (simp_all add: neat_tidy neat_item neat_close_accepted neat_recycle tidy_send tidy_handler,
    simp_all add: pool_locks_def AddToTimerQueue_locks_def tidy_def)

lemma MsgSendInQueue_leaves:
  "MsgSendInQueue msg s = Inr s' \<Longrightarrow>
   held_after [] (MsgSendInQueue_locks msg s) = (if m_sendmutex s' then [SendMutex] else [])"
  by (auto simp: MsgSendInQueue_eq MsgSendInQueue_locks_def Let_def split: if_splits)

section \<open>Threads that run sections\<close>

text \<open>A thread holds mutexes and has calls ahead of it. It can lock a mutex nobody holds, itself included: the
  mutexes are not recursive.\<close>

record runner =
  holds :: "mutex list"
  ahead :: "lock_act list"

inductive lock_run :: "runner list \<Rightarrow> runner list \<Rightarrow> bool" where
  lock: "i < length ts \<Longrightarrow> ahead (ts ! i) = Lock m # as \<Longrightarrow> \<forall>t \<in> set ts. m \<notin> set (holds t) \<Longrightarrow>
    lock_run ts (ts[i := \<lparr>holds = m # holds (ts ! i), ahead = as\<rparr>])"
| unlock: "i < length ts \<Longrightarrow> ahead (ts ! i) = Unlock m # as \<Longrightarrow>
    lock_run ts (ts[i := \<lparr>holds = remove1 m (holds (ts ! i)), ahead = as\<rparr>])"

definition threads_start :: "runner list \<Rightarrow> bool" where
  "threads_start ts \<longleftrightarrow> (\<forall>t \<in> set ts. holds t = [] \<and>
     (\<exists>ss. ahead t = concat ss \<and> (\<forall>as \<in> set ss. lock_section as \<and> held_after [] as = [])))"

definition runners_inv :: "runner list \<Rightarrow> bool" where
  "runners_inv ts \<longleftrightarrow> (\<forall>t \<in> set ts. in_order (holds t) (ahead t) \<and> held_after (holds t) (ahead t) = [])"

lemma runners_inv_start:
  assumes "threads_start ts"
  shows "runners_inv ts"
  unfolding runners_inv_def
proof
  fix t
  assume "t \<in> set ts"
  with assms obtain ss where t: "holds t = []" "ahead t = concat ss"
    "\<forall>as \<in> set ss. lock_section as \<and> held_after [] as = []" by (auto simp: threads_start_def)
  then have "\<forall>as \<in> set ss. neat [] as" using tidy_section by (simp add: neat_def tidy_def)
  from neat_concat [OF this] show "in_order (holds t) (ahead t) \<and> held_after (holds t) (ahead t) = []"
    by (simp add: t neat_def)
qed

lemma runners_inv_step:
  assumes inv: "runners_inv ts" and step: "lock_run ts ts'"
  shows "runners_inv ts'"
  using step
proof cases
  case (lock i m as)
  with inv have "in_order (holds (ts ! i)) (Lock m # as) \<and> held_after (holds (ts ! i)) (Lock m # as) = []"
    by (metis nth_mem runners_inv_def)
  with inv show ?thesis by (auto simp: lock(1) runners_inv_def dest: set_update_subset_insert [THEN subsetD])
next
  case (unlock i m as)
  with inv have "in_order (holds (ts ! i)) (Unlock m # as) \<and> held_after (holds (ts ! i)) (Unlock m # as) = []"
    by (metis nth_mem runners_inv_def)
  with inv show ?thesis by (auto simp: unlock(1) runners_inv_def dest: set_update_subset_insert [THEN subsetD])
qed

interpretation runners: invariant_of threads_start lock_run runners_inv
  by unfold_locales (auto dest: runners_inv_start runners_inv_step)

text \<open>A thread that is stuck waits for a mutex that another thread holds, and that thread has work to do.\<close>

lemma stuck_waits:
  assumes inv: "runners_inv ts" and stuck: "\<nexists>ts'. lock_run ts ts'" and t: "t \<in> set ts" "ahead t \<noteq> []"
  obtains m as u where "ahead t = Lock m # as" "u \<in> set ts" "m \<in> set (holds u)" "ahead u \<noteq> []"
proof -
  from t(1) obtain i where i: "i < length ts" "t = ts ! i" by (auto simp: in_set_conv_nth)
  from t(2) obtain x as where "ahead t = x # as" by (cases "ahead t") auto
  then consider m where "ahead t = Lock m # as" | m where "ahead t = Unlock m # as" by (cases x) auto
  then show thesis
  proof cases
    case (1 m)
    from stuck lock_run.lock [OF i(1), of m as] 1 i(2) obtain u where u: "u \<in> set ts" "m \<in> set (holds u)" by blast
    from inv u(1) have "held_after (holds u) (ahead u) = []" by (simp add: runners_inv_def)
    with u(2) have "ahead u \<noteq> []" by (cases "ahead u") auto
    with that 1 u show thesis by blast
  next
    case 2
    with stuck lock_run.unlock [OF i(1)] i(2) show thesis by blast
  qed
qed

text \<open>Along a chain of waiting threads the rank of the mutex grows.\<close>

lemma wanted_above_held:
  "runners_inv ts \<Longrightarrow> t \<in> set ts \<Longrightarrow> ahead t = Lock m # as \<Longrightarrow> h \<in> set (holds t) \<Longrightarrow> rank h < rank m"
  by (auto simp: runners_inv_def)

lemma not_stuck:
  assumes inv: "runners_inv ts" and t: "t \<in> set ts" "ahead t \<noteq> []"
  shows "\<exists>ts'. lock_run ts ts'"
proof (rule ccontr)
  assume stuck: "\<nexists>ts'. lock_run ts ts'"
  have grow: "\<exists>t \<in> set ts. \<exists>m as. ahead t = Lock m # as \<and> n \<le> rank m" for n
  proof (induction n)
    case 0
    from stuck_waits [OF inv stuck t] t(1) show ?case by blast
  next
    case (Suc n)
    then obtain t m as where n: "t \<in> set ts" "ahead t = Lock m # as" "n \<le> rank m" by blast
    from n(2) have "ahead t \<noteq> []" by simp
    from stuck_waits [OF inv stuck n(1) this] n(2) obtain u where u: "u \<in> set ts" "m \<in> set (holds u)" "ahead u \<noteq> []"
      by auto
    from stuck_waits [OF inv stuck u(1,3)] obtain m' as' where "ahead u = Lock m' # as'" by blast
    with wanted_above_held [OF inv u(1) this u(2)] n(3) u(1) show ?case by fastforce
  qed
  have "rank m < 4" for m by (cases m) simp_all
  with grow [of 4] show False by (metis not_le)
qed

section \<open>Properties\<close>

text \<open>C13. The locking discipline. Every section of every thread takes its mutexes in one order -- the timer's
  before a connection's, that before the recycler's, that before the pool's of connections, the sender's or the
  thread pool's, and never two connections at once -- and unlocks only what it has locked. When it ends it
  holds nothing, except that it may have left the send mutex locked; \<open>MsgSendInQueue\<close> does so exactly if the
  flag \<open>m_sendmutex\<close> of the model says so.\<close>

theorem locks_in_order:
  assumes "lock_section as"
  shows "in_order [] as \<and> (held_after [] as = [] \<or> held_after [] as = [SendMutex]) \<and>
    (MsgSendInQueue msg s = Inr s' \<longrightarrow>
      held_after [] (MsgSendInQueue_locks msg s) = (if m_sendmutex s' then [SendMutex] else []))"
  using tidy_section [OF assms] MsgSendInQueue_leaves by (simp add: tidy_def)

text \<open>C12. The threads of a worker cannot deadlock by their mutexes: let any number of threads run sections, each
  as many as it likes and interleaved in any way, none of which leaves a mutex locked. Then in every state
  they reach, as long as a thread has calls ahead of it, some thread can go on.\<close>

theorem threads_never_deadlock:
  assumes "reach threads_start lock_run ts" "t \<in> set ts" "ahead t \<noteq> []"
  shows "\<exists>ts'. lock_run ts ts'"
  using runners.reach_inv [OF assms(1)] assms(2,3) by (rule not_stuck)

text \<open>A pool thread that answers a heartbeat, and the event loop that closes the same connection.\<close>

definition ping_calls :: "lock_act list" where
  "ping_calls = handler_locks HandlePing 1 (message_of 1 1 (reply_packet HandlePing)) logic_example"

definition close_calls :: "lock_act list" where
  "close_calls = close_accepted_locks 1 False logic_example"

lemma example_calls:
  "ping_calls = [Lock (ConnMutex 1), Lock SendMutex, Unlock SendMutex, Unlock (ConnMutex 1)]"
  "close_calls = [Lock (ConnMutex 1), Lock RecyMutex, Unlock RecyMutex, Unlock (ConnMutex 1)]"
  by code_simp+

lemma example_sections: "lock_section ping_calls" "lock_section close_calls"
  unfolding ping_calls_def close_calls_def by (rule lock_section.intros)+

theorem locks_in_order_witness:
  "in_order [] ping_calls \<and> held_after [] ping_calls = []"
  using locks_in_order [OF example_sections(1)] by (simp add: example_calls)

theorem threads_never_deadlock_witness:
  "\<exists>ts'. lock_run [\<lparr>holds = [ConnMutex 1], ahead = tl ping_calls\<rparr>, \<lparr>holds = [], ahead = close_calls\<rparr>] ts'"
proof -
  let ?ts = "[\<lparr>holds = [], ahead = ping_calls\<rparr>, \<lparr>holds = [], ahead = close_calls\<rparr>]"
  have one: "\<exists>ss. as = concat ss \<and> (\<forall>b \<in> set ss. lock_section b \<and> held_after [] b = [])"
    if "lock_section as" "held_after [] as = []" for as
    by (rule exI [of _ "[as]"]) (use that in simp)
  have "threads_start ?ts"
    using one [OF example_sections(1)] one [OF example_sections(2)] by (simp add: threads_start_def example_calls)
  then have "reach threads_start lock_run ?ts" by (rule reach_init)
  moreover have "lock_run ?ts (?ts[0 := \<lparr>holds = ConnMutex 1 # holds (?ts ! 0), ahead = tl ping_calls\<rparr>])"
    by (rule lock_run.lock) (simp_all add: example_calls)
  ultimately have "reach threads_start lock_run
      [\<lparr>holds = [ConnMutex 1], ahead = tl ping_calls\<rparr>, \<lparr>holds = [], ahead = close_calls\<rparr>]"
    using reach_step by fastforce
  then show ?thesis
    by (rule threads_never_deadlock [where t = "\<lparr>holds = [], ahead = close_calls\<rparr>"]) (simp_all add: example_calls)
qed

end
