(* ===== verification/Spec2Isabelle.thy ===== *)
theory Spec2Isabelle
  imports Process Service Threads Objects Master Ledger Locking
begin

text \<open>
  A verification library for a small network server in C++: a master process forks worker processes;
  each worker runs an epoll loop in its main thread, a pool of threads that process messages, and three
  helper threads that send replies, recycle closed connections and watch heartbeats. All of them share
  one socket object \<open>g_socket\<close> (class \<open>CSocket\<close>, \<open>CSocketLogic\<close>) and one pool \<open>g_threadpool\<close> (class
  \<open>CThreadPool\<close>).

  \<^bold>\<open>How a request travels.\<close> \<open>epoll_process_events\<close> calls the read handler of a
  connection; the handler collects the bytes of a packet in four states, puts a message header in front and queues
  the message in the thread pool. A pool thread takes it, and \<open>ThreadRecvProc\<close> checks the token (the
  connection's sequence number), the checksum and the length, selects a handler by code and queues the reply. The
  send thread sends it, as much as the socket takes; the rest is driven by \<open>EPOLLOUT\<close>. A closed
  connection waits in the recycle queue before its object returns to the free list under a new sequence number.

  \<^bold>\<open>Theories and the code they model.\<close>

  \<^item> \<open>Prelude\<close>, \<open>Interfaces\<close>: machine integers, the outcomes of a call besides returning (\<open>fault\<close>: the process
    exits, a thread waits for ever on a mutex, undefined memory access, still waiting for the system),
    byte arrays, little-endian loads and stores, reachability; the interfaces of the components as locales
    (queues, checksums, tokens, invariants), each interpreted on the model's own definitions.
  \<^item> \<open>Crc32\<close> (\<open>misc/c_crc32.cxx\<close>): \<open>Reflect\<close>, \<open>Init_CRC32_Table\<close>, \<open>Get_CRC\<close>; equal to the bit-serial reference
    \<open>crc32_spec\<close>, which detects every error within four neighbouring bytes.
  \<^item> \<open>Wire\<close> (\<open>_include/comm.h\<close>, \<open>macro.h\<close>): the packed headers, their lengths and byte orders.
  \<^item> \<open>Connection\<close> (\<open>_include/comm.h\<close>, \<open>net/socket_conn.cxx\<close>): the record \<open>connection\<close> with its methods and the
    token check \<open>JudgeOutdate\<close>.
  \<^item> \<open>SocketState\<close> (\<open>_include/c_socket.h\<close>): the record \<open>csocket\<close>, one field for each data member, with the heap
    of connection objects (\<open>conns\<close>) and the calls made to the operating system (\<open>os_trace\<close>).
  \<^item> \<open>Pool\<close> (\<open>net/socket_conn.cxx\<close>, \<open>net/c_socket.cxx\<close>): taking, returning and closing connections, the
    recycling thread; \<open>pool_inv\<close> says where every object is, and what a visit of the thread does.
  \<^item> \<open>ThreadPool\<close> (\<open>threadpool/c_threadpool.cxx\<close>): the message queue and the pool threads as a step relation.
  \<^item> \<open>Recv\<close> (\<open>net/socket_request.cxx\<close>, \<open>misc/c_memory.cxx\<close>): the read handler, refining the splitter \<open>frames\<close>.
  \<^item> \<open>Timer\<close> (\<open>net/socket_time.cxx\<close>): the timer queue, a multimap kept as a list sorted by time, and its thread.
  \<^item> \<open>Send\<close> (\<open>net/c_socket.cxx\<close>, \<open>net/socket_request.cxx\<close>): the send queue, the send thread and the
    \<open>EPOLLOUT\<close> handler; the bytes owed to a peer are conserved.
  \<^item> \<open>Logic\<close> (\<open>socketlogic/c_socketlogic.cxx\<close>): the dispatcher and its handlers, refining \<open>request_of\<close> and
    \<open>reply_packet\<close>.
  \<^item> \<open>Accept\<close>, \<open>Online\<close> (\<open>net/socket_accept.cxx\<close>, \<open>net/c_socket.cxx\<close>): configuration, listening sockets,
    accepting, dispatching events; what accepting does and that \<open>m_online_count\<close> is exact.
  \<^item> \<open>Workers\<close>, \<open>Startup\<close>: the threads of a worker as steps on the shared state (\<open>worker_step\<close>), its start-up
    (\<open>init_worker_process\<close> of \<open>proc/proc_cycle.cxx\<close>, \<open>Initialize_SubProc\<close>, \<open>Shutdown_SubProc\<close>), and the
    invariants of every reachable state.
  \<^item> \<open>Service\<close>: the way of one request through all these parts.
  \<^item> \<open>Safe\<close>, \<open>Flight\<close>: type soundness of a worker. The data the threads hand to each other are well-formed in
    every reachable state (\<open>memory_inv\<close>), the rest of a message under way lies inside it (\<open>flying\<close>), and no
    thread that meets such data follows a bad pointer.
  \<^item> \<open>Traces\<close>, \<open>Ledger\<close>: the same steps, labelled with what they show (\<open>traced_step\<close>): a request enters the
    pool's queue, a pool thread takes it, its handler ends with the replies it queued, data are handed to \<open>send\<close>.
    Every run of a worker with its events is a run of an abstract service of three queues (\<open>service_step\<close>);
    the books of the service (\<open>balanced\<close>, \<open>entries_ok\<close>) account for every request, reply and byte sent.
  \<^item> \<open>Threads\<close> (\<open>threadpool/c_threadpool.cxx\<close>, \<open>net/c_socket.cxx\<close>, \<open>net/socket_time.cxx\<close>): the four thread functions
    as wholes, \<open>StopAll\<close>, \<open>Shutdown_SubProc\<close> and the two destructors; when threads end and how they are joined.
  \<^item> \<open>Objects\<close> (\<open>_include/c_lock.h\<close>, \<open>c_conf.h\<close>, \<open>c_crc32.h\<close>, \<open>c_memory.h\<close>): the scoped lock on a table of mutexes, the
    double check of two handlers, the three singletons with their collectors, \<open>CConfig::Test\<close>.
  \<^item> \<open>Locking\<close>: the lock and unlock calls of every operation (definitions named after it, \<open>_locks\<close>); they respect one
    order, so that the threads cannot block each other.
  \<^item> \<open>FmtString\<close> (\<open>app/func_string.cxx\<close>), \<open>Conf\<close> (\<open>app/c_conf.cxx\<close>), \<open>Log\<close> (\<open>app/func_log.cxx\<close>), \<open>Signals\<close>
    (\<open>signal/signal.cxx\<close>): formatting refines \<open>render\<close>, the configuration reader inverts \<open>print_line\<close>, the
    lines of the log, the signal handler and the collection of children.
  \<^item> \<open>Process\<close> (\<open>app/nginx.cxx\<close>, \<open>proc/proc_cycle.cxx\<close>, \<open>proc/proc_deamon.cxx\<close>, \<open>app/func_proctitle.cxx\<close>):
    \<open>main\<close> up to the point where the process exits, stays the master or becomes a worker; process titles.
  \<^item> \<open>Master\<close> (\<open>proc/proc_cycle.cxx\<close>): signal masks, the waiting of the master, and that no cycle returns.

  \<^bold>\<open>Modelling choices.\<close> A method of a class is a function on the record of its state, named as
  in the code; a loop, or a part of a function that runs under one lock, has its own definition where the proofs
  need it. Pointers to connections are 64-bit addresses into \<open>conns\<close>; a pointer into a buffer is an
  offset with the buffer's owner, so that a dangling pointer or a write outside is the value
  \<open>BadAccess\<close>. What the operating system, the allocator, the clock and the configuration answer are
  arguments, recorded per call. The atomic steps: in \<open>ThreadPool\<close> (\<open>pool_step\<close>) and
  \<open>Send\<close> (\<open>send_step\<close>), where counters are changed behind a mutex, each region under a
  mutex and each change of an atomic counter is a step, and the threads interleave between any two. In
  \<open>worker_step\<close> and what rests on it, a call of an event handler, a round of a helper thread, the
  taking of a message and its handling by \<open>ThreadFunc_process\<close> are one step each, although the code
  holds no mutex over all of it; \<open>MsgSendInQueue\<close>, \<open>ThreadFunc_take\<close> and
  \<open>ThreadFunc_finish\<close> are there the composition of their single steps. A function that returns with a
  mutex locked leaves the flag \<open>m_sendmutex\<close> set. In the thread functions of \<open>Threads\<close>
  what the other threads do between two such regions is an argument (\<open>rr_before\<close>,
  \<open>sr_waiting\<close> and so on), any function on the state. Counters of type \<open>size_t\<close> are
  64-bit words, sequence numbers too, the truncation to \<open>int\<close> in the token check is written out. A
  loop that may not end is a partial function (\<open>collect_overtime\<close>, \<open>Load_loop\<close>,
  \<open>worker_process_cycle\<close>, \<open>master_wait\<close>, \<open>join_loop\<close> and the thread
  functions): not returning, because the loop goes on or because the thread waits for ever on a mutex or the
  semaphore, is \<open>None\<close>; no fuel is used. A double argument of the formatter is its sign and the
  integer part of its value, all the code prints.

  \<^bold>\<open>What the properties show.\<close> Functional correctness and refinement of the receiver, the
  dispatcher, the sender, the timer, the recycler, the acceptor, the formatter, the configuration reader and the
  log, under hypotheses that name the answers of the system; invariants of every reachable state of a worker, from
  \<open>main\<close> on, its memory safety, the accounting of its requests and replies by an abstract service that
  it refines, the separation of the clients from each other, and the absence of deadlocks between its threads; the
  return of the threads that are asked to end, and what they need of the others for it; and, where the code does
  not do what it means to, the exact condition of the failure (a lock left behind, a thread that ends or is joined
  twice, a dangling pointer, a crash in the log).

  \<^bold>\<open>Not modelled.\<close> The calls of the log inside the other components (they change no state; what
  a call prints is \<open>Log\<close>); the answers of \<open>pthread_mutex_lock\<close> and its kin other than
  success; the printing of \<open>PrintInfo\<close>; data races outside the locked regions, and the interleavings
  inside the steps of \<open>worker_step\<close>; the overflow of \<open>int\<close> in \<open>3 *
  m_waittime\<close> (\<open>TimeCheckingProc\<close>), for a waiting time above 22 years. The memory safety of
  \<open>Flight\<close> asks that \<open>EPOLLOUT\<close> is reported only while a message is under way
  (\<open>orderly_write\<close>): after a failed \<open>send\<close> the write handler forgets the message without
  ending the interest (\<open>failed_send_keeps_interest\<close>). It also asks that no sequence number is about to
  wrap around at 2^64 (\<open>young\<close>).
\<close>

end
